(* ===== verification/Prelude.thy ===== *)
theory Prelude
  imports Main "HOL-Library.Word"
begin

unbundle bit_operations_syntax

text \<open>
  What every theory of the development shares: the machine-integer types of the Rust sources,
  the theorem collections, and generic facts on lists, options and words.

  The target is \<^verbatim>\<open>riscv64\<close>, so \<open>usize\<close> is a 64-bit word. The kernel is built in
  release mode, where \<open>+\<close>, \<open>-\<close> and \<open>*\<close> wrap around, as they do on words; a statement that
  needs the absence of wrap-around says so in a hypothesis on \<^const>\<open>unat\<close> values.
\<close>

section \<open>Machine integers\<close>

type_synonym u8 = "8 word"
type_synonym u16 = "16 word"
type_synonym u32 = "32 word"
type_synonym u64 = "64 word"
type_synonym usize = "64 word"

text \<open>A half-open range \<open>start..end\<close> of Rust, as a pair.\<close>

type_synonym 'k range = "'k \<times> 'k"

section \<open>Theorem collections\<close>

named_theorems mask_unat \<open>readings of masking and shifting expressions on natural numbers\<close>
named_theorems wf_intros \<open>preservation of the components' invariants\<close>
named_theorems codec_simps \<open>encoders and decoders, for evaluation\<close>

section \<open>Results\<close>

text \<open>
  A Rust \<open>Result<T, E>\<close> is the sum \<open>'e + 't\<close> with the error on the left. The \<open>?\<close> operator
  is the bind of that sum.
\<close>

definition bind_res :: "'e + 'a \<Rightarrow> ('a \<Rightarrow> 'e + 'b) \<Rightarrow> 'e + 'b" where
  "bind_res r f = (case r of Inl e \<Rightarrow> Inl e | Inr x \<Rightarrow> f x)"

lemma bind_res_simps [simp]:
  "bind_res (Inl e) f = Inl e"
  "bind_res (Inr x) f = f x"
  by (simp_all add: bind_res_def)

lemma bind_res_eq_Inr: "bind_res r f = Inr y \<longleftrightarrow> (\<exists>x. r = Inr x \<and> f x = Inr y)"
  by (cases r) auto

lemma option_eq_by_Some: "(\<And>v. x = Some v \<longleftrightarrow> y = Some v) \<Longrightarrow> x = y"
  by (metis not_None_eq)

text \<open>
  A call that may panic (a failed assertion, an \<open>unreachable!()\<close>, an index out of range) returns
  an \<open>outcome\<close>.
\<close>

datatype 'a outcome = Returns 'a | Panics

definition bind_out :: "'a outcome \<Rightarrow> ('a \<Rightarrow> 'b outcome) \<Rightarrow> 'b outcome" where
  "bind_out m f = (case m of Returns x \<Rightarrow> f x | Panics \<Rightarrow> Panics)"

lemma bind_out_simps [simp]:
  "bind_out (Returns x) f = f x"
  "bind_out Panics f = Panics"
  by (simp_all add: bind_out_def)

section \<open>Lists\<close>

lemma set_takeWhile_iff_sorted:
  assumes "sorted_wrt (<) (map f xs)"
  shows "x \<in> set (takeWhile (\<lambda>y. f y < (k :: 'k :: linorder)) xs) \<longleftrightarrow> x \<in> set xs \<and> f x < k"
  using assms by (induction xs) auto

lemma set_dropWhile_iff_sorted:
  assumes "sorted_wrt (<) (map f xs)"
  shows "x \<in> set (dropWhile (\<lambda>y. f y < (k :: 'k :: linorder)) xs) \<longleftrightarrow> x \<in> set xs \<and> k \<le> f x"
  using assms by (induction xs) auto

lemma last_takeWhile_Some:
  assumes "sorted_wrt (<) (map f xs)" and "takeWhile (\<lambda>y. f y < (k :: 'k :: linorder)) xs \<noteq> []"
    and "x \<in> set xs" and "f x < k"
  shows "f x \<le> f (last (takeWhile (\<lambda>y. f y < k) xs))"
proof -
  let ?ys = "takeWhile (\<lambda>y. f y < k) xs"
  have "x \<in> set ?ys" using assms by (simp add: set_takeWhile_iff_sorted)
  moreover have "sorted_wrt (<) (map f ?ys)"
    using assms(1) by (induction xs) (auto dest: set_takeWhileD)
  ultimately show ?thesis
    using assms(2) by (cases ?ys rule: rev_cases) (auto simp: sorted_wrt_append)
qed

lemma takeWhile_eq_filter:
  "sorted_wrt (\<lambda>x y. P y \<longrightarrow> P x) xs \<Longrightarrow> takeWhile P xs = filter P xs"
  by (induction xs) (auto simp: filter_empty_conv)

lemma dropWhile_eq_filter:
  "sorted_wrt (\<lambda>x y. P y \<longrightarrow> P x) xs \<Longrightarrow> dropWhile P xs = filter (\<lambda>x. \<not> P x) xs"
proof (induction xs)
  case Nil
  show ?case by simp
next
  case (Cons x xs)
  then show ?case by (cases "P x") (auto simp: filter_id_conv)
qed

lemma list_update_eq_self: "i < length xs \<Longrightarrow> xs ! i = x \<Longrightarrow> xs[i := x] = xs"
  by auto

text \<open>
  \<open>find_map\<close> on an iterator: the first \<open>Some\<close> result, if any. It is the \<open>find_map\<close> of Rust's
  \<open>Iterator\<close>.
\<close>

fun find_map :: "('a \<Rightarrow> 'b option) \<Rightarrow> 'a list \<Rightarrow> 'b option" where
  "find_map f [] = None"
| "find_map f (x # xs) = (case f x of Some y \<Rightarrow> Some y | None \<Rightarrow> find_map f xs)"

lemma find_map_None: "find_map f xs = None \<longleftrightarrow> (\<forall>x \<in> set xs. f x = None)"
  by (induction xs) (auto split: option.splits)

lemma find_map_SomeE:
  assumes "find_map f xs = Some y"
  obtains us x vs where "xs = us @ x # vs" and "\<forall>u \<in> set us. f u = None" and "f x = Some y"
  using assms
proof (induction xs arbitrary: thesis)
  case Nil
  then show ?case by simp
next
  case (Cons a xs)
  show ?case
  proof (cases "f a")
    case None
    with Cons.prems(2) have "find_map f xs = Some y" by simp
    with Cons.IH obtain us x vs where "xs = us @ x # vs" "\<forall>u \<in> set us. f u = None" "f x = Some y"
      by blast
    with None show ?thesis by (intro Cons.prems(1) [of "a # us" x vs]) auto
  next
    case (Some z)
    with Cons.prems(2) show ?thesis by (intro Cons.prems(1) [of "[]" a xs]) auto
  qed
qed

section \<open>Rounding\<close>

lemma round_up_ge: "0 < d \<Longrightarrow> a \<le> (a + d - 1) div d * (d :: nat)"
  using div_mult_mod_eq [of "a + d - 1" d] mod_less_divisor [of d "a + d - 1"] by linarith

lemma round_up_least:
  assumes "0 < (d :: nat)" "d dvd x" "a \<le> x"
  shows "(a + d - 1) div d * d \<le> x"
proof (rule ccontr)
  obtain k where k: "x = d * k" using assms(2) by (elim dvdE)
  assume "\<not> ?thesis"
  then have "d * k < d * ((a + d - 1) div d)" using k by (simp add: mult.commute)
  then have "Suc k \<le> (a + d - 1) div d" using assms(1) by simp
  then have "d * Suc k \<le> d * ((a + d - 1) div d)" by (rule mult_le_mono2)
  also have "\<dots> \<le> a + d - 1" by (rule times_div_less_eq_dividend)
  finally show False using assms(1,3) k by simp
qed

lemma round_down_greatest: "d dvd x \<Longrightarrow> x \<le> b \<Longrightarrow> x \<le> b div d * (d :: nat)"
  by (metis div_le_mono dvd_div_mult_self mult_le_mono1)

section \<open>Words\<close>

lemma take_bit_unat: "take_bit LENGTH('a) (unat (w :: 'a :: len word)) = unat w"
  by (rule take_bit_nat_eq_self) (rule unsigned_less)

lemma unat_lt: "unat (w :: 'a :: len word) < 2 ^ LENGTH('a)"
  by (rule unsigned_less)

lemma usize_lt: "unat (w :: usize) < 18446744073709551616"
  using unat_lt [of w] by simp

lemma unat_zero_iff: "unat (w :: 'a :: len word) = 0 \<longleftrightarrow> w = 0"
  by (simp add: word_unat_eq_iff)

lemma small_word_no_bit:
  assumes "unat (w :: 'a :: len word) < 2 ^ k" "k \<le> n"
  shows "\<not> bit w n"
proof -
  have "unat (take_bit k w) = unat w"
    unfolding unsigned_take_bit_eq using assms(1) by (rule take_bit_nat_eq_self)
  then have "take_bit k w = w" by (simp add: word_unat_eq_iff)
  then show ?thesis using assms(2) bit_take_bit_iff [of k w n] by simp
qed

text \<open>Rounding down to a power of two, as the sources write it: \<open>x & !mask\<close>.\<close>

lemma unat_and_not_mask [mask_unat]:
  "unat ((w :: 'a :: len word) AND NOT (mask n)) = unat w div 2 ^ n * 2 ^ n"
proof -
  have "w AND NOT (mask n) = push_bit n (drop_bit n w)" 
    by (rule bit_word_eqI) (auto simp: bit_simps)
  then have "unat (w AND NOT (mask n)) = take_bit LENGTH('a) (push_bit n (drop_bit n (unat w)))"
    by (simp add: unsigned_push_bit_eq unsigned_drop_bit_eq take_bit_unat)
  also have "\<dots> = push_bit n (drop_bit n (unat w))"
  proof (rule take_bit_nat_eq_self)
    have "push_bit n (drop_bit n (unat w)) \<le> unat w" 
      by (simp add: push_bit_eq_mult drop_bit_eq_div)
    then show "push_bit n (drop_bit n (unat w)) < 2 ^ LENGTH('a)"
      using unsigned_less [of w] by (rule le_less_trans)
  qed
  finally show ?thesis by (simp add: push_bit_eq_mult drop_bit_eq_div)
qed

text \<open>The offset inside an aligned block, \<open>x & mask\<close>, and the two shifts.\<close>

lemma unat_and_mask [mask_unat]: "unat ((w :: 'a :: len word) AND mask n) = unat w mod 2 ^ n"
  unfolding take_bit_eq_mask [symmetric] unsigned_take_bit_eq by (simp add: take_bit_eq_mod)

lemma unat_drop_bit [mask_unat]: "unat (drop_bit n (w :: 'a :: len word)) = unat w div 2 ^ n"
  unfolding unsigned_drop_bit_eq take_bit_unat by (simp add: drop_bit_eq_div take_bit_unat)

lemma unat_push_bit [mask_unat]:
  "unat (push_bit n (w :: 'a :: len word)) = unat w * 2 ^ n mod 2 ^ LENGTH('a)"
  unfolding unsigned_push_bit_eq by (simp add: push_bit_eq_mult take_bit_eq_mod)

lemma unat_mask [mask_unat]: "unat (mask n :: 'a :: len word) = 2 ^ min n LENGTH('a) - 1"
proof -
  have "unat (mask n :: 'a word) = mask (min n LENGTH('a))"
    by transfer (simp add: nat_mask_eq take_bit_of_mask min.commute)
  then show ?thesis by (simp add: mask_eq_exp_minus_1)
qed

lemma unat_add_no_overflow:
  "unat (a :: 'a :: len word) + unat b < 2 ^ LENGTH('a) \<Longrightarrow> unat (a + b) = unat a + unat b"
  by (simp add: unat_word_ariths)

lemma unat_mult_no_overflow:
  "unat (a :: 'a :: len word) * unat b < 2 ^ LENGTH('a) \<Longrightarrow> unat (a * b) = unat a * unat b"
  by (simp add: unat_word_ariths)

lemma unat_sub_no_underflow: "b \<le> (a :: 'a :: len word) \<Longrightarrow> unat (a - b) = unat a - unat b"
  by (simp add: unat_sub)

lemma and_cancel_mask: "(w :: 'a :: len word) AND NOT (mask n) AND mask n = 0"
  by (rule bit_word_eqI) (auto simp: bit_simps)

lemma word_zero_iff_bits: "(w :: usize) = 0 \<longleftrightarrow> (\<forall>n. \<not> bit w n)"
  by (auto intro: bit_word_eqI)

lemma bit_flag: "bit (push_bit k (1 :: usize)) n \<longleftrightarrow> k < 64 \<and> n = k"
  by (auto simp: bit_simps)

text \<open>\<open>trailing_zeros\<close> of Rust's 64-bit integers.\<close>

definition trailing_zeros :: "u64 \<Rightarrow> nat" where
  "trailing_zeros w = length (takeWhile (\<lambda>i. \<not> bit w i) [0..<64])"

lemma trailing_zeros_least:
  assumes "w \<noteq> 0"
  shows "bit w (trailing_zeros w)" and "i < trailing_zeros w \<Longrightarrow> \<not> bit w i" and "trailing_zeros w < 64"
proof -
  let ?P = "\<lambda>i. \<not> bit w i"
  have ex: "\<exists>i < 64. bit w i"
    using assms bit_word_eqI [of w 0] by auto
  then have ne: "takeWhile ?P [0..<64] \<noteq> [0..<64]" by (auto simp: takeWhile_eq_all_conv)
  have lt: "trailing_zeros w < 64"
  proof (rule ccontr)
    assume "\<not> trailing_zeros w < 64"
    then have "takeWhile ?P [0..<64] = [0..<64]"
      using takeWhile_eq_take [of ?P "[0..<64]"] by (simp add: trailing_zeros_def)
    with ne show False by blast
  qed
  then show "trailing_zeros w < 64" .
  show "bit w (trailing_zeros w)"
    using nth_length_takeWhile [of ?P "[0..<64]"] lt by (simp add: trailing_zeros_def)
  show "\<not> bit w i" if "i < trailing_zeros w"
  proof -
    have len: "i < length (takeWhile ?P [0..<64])" using that by (simp add: trailing_zeros_def)
    then have "takeWhile ?P [0..<64] ! i = i" using takeWhile_nth [of i ?P "[0..<64]"] that lt by simp
    with nth_mem [OF len] have "i \<in> set (takeWhile ?P [0..<64])" by simp
    then show ?thesis by (blast dest: set_takeWhileD)
  qed
qed

end
