(* ===== verification/BTree.thy ===== *)
theory BTree
  imports Prelude
begin

text \<open>
  The part of \<open>alloc::collections::BTreeMap\<close> that the sources use. An ordered map is modelled by
  its in-order sequence of entries: an association list whose keys increase strictly. The
  operations are the ones the standard library documents: point queries, insertion with
  replacement, removal, half-open range queries, \<open>split_off\<close> and \<open>append\<close>.

  The contract that clients of a map rely on is the locale \<open>ordered_map\<close>; it is interpreted on
  these definitions at the end of the theory.
\<close>

section \<open>Operations\<close>

type_synonym ('k, 'v) btree = "('k \<times> 'v) list"

definition bt_wf :: "('k :: linorder, 'v) btree \<Rightarrow> bool" where
  "bt_wf m \<longleftrightarrow> sorted_wrt (<) (map fst m)"

definition bt_get :: "('k, 'v) btree \<Rightarrow> 'k \<Rightarrow> 'v option" where
  "bt_get m k = map_of m k"

fun bt_insert :: "'k :: linorder \<Rightarrow> 'v \<Rightarrow> ('k, 'v) btree \<Rightarrow> ('k, 'v) btree" where
  "bt_insert k v [] = [(k, v)]"
| "bt_insert k v ((a, b) # m) =
     (if k < a then (k, v) # (a, b) # m
      else if k = a then (k, v) # m
      else (a, b) # bt_insert k v m)"

definition bt_remove :: "'k \<Rightarrow> ('k, 'v) btree \<Rightarrow> ('k, 'v) btree" where
  "bt_remove k m = filter (\<lambda>e. fst e \<noteq> k) m"

text \<open>\<open>map.range(..k)\<close> and \<open>map.range(k..)\<close>; \<open>split_off\<close> returns both.\<close>

definition bt_below :: "'k :: linorder \<Rightarrow> ('k, 'v) btree \<Rightarrow> ('k, 'v) btree" where
  "bt_below k m = takeWhile (\<lambda>e. fst e < k) m"

definition bt_from :: "'k :: linorder \<Rightarrow> ('k, 'v) btree \<Rightarrow> ('k, 'v) btree" where
  "bt_from k m = dropWhile (\<lambda>e. fst e < k) m"

definition bt_split_off :: "'k :: linorder \<Rightarrow> ('k, 'v) btree \<Rightarrow> ('k, 'v) btree \<times> ('k, 'v) btree" where
  "bt_split_off k m = (bt_below k m, bt_from k m)"

definition bt_append :: "('k :: linorder, 'v) btree \<Rightarrow> ('k, 'v) btree \<Rightarrow> ('k, 'v) btree" where
  "bt_append m n = fold (\<lambda>e acc. bt_insert (fst e) (snd e) acc) n m"

definition bt_last :: "('k, 'v) btree \<Rightarrow> ('k \<times> 'v) option" where
  "bt_last m = (if m = [] then None else Some (last m))"

section \<open>Order and queries\<close>

lemma bt_wf_simps [simp]:
  "bt_wf []"
  "bt_wf (e # m) \<longleftrightarrow> (\<forall>e' \<in> set m. fst e < fst e') \<and> bt_wf m"
  by (auto simp: bt_wf_def)

lemma bt_wf_append:
  "bt_wf (m @ n) \<longleftrightarrow> bt_wf m \<and> bt_wf n \<and> (\<forall>e \<in> set m. \<forall>e' \<in> set n. fst e < fst e')"
  by (auto simp: bt_wf_def sorted_wrt_append)

lemma bt_wf_distinct: "bt_wf m \<Longrightarrow> distinct (map fst m)"
  by (induction m) auto

lemma bt_below_from: "bt_below k m @ bt_from k m = m"
  by (simp add: bt_below_def bt_from_def)

lemma set_bt_below: "bt_wf m \<Longrightarrow> set (bt_below k m) = {e \<in> set m. fst e < k}"
  by (auto simp: bt_below_def bt_wf_def set_takeWhile_iff_sorted)

lemma set_bt_from: "bt_wf m \<Longrightarrow> set (bt_from k m) = {e \<in> set m. k \<le> fst e}"
  by (auto simp: bt_from_def bt_wf_def set_dropWhile_iff_sorted)

lemma bt_wf_below: "bt_wf m \<Longrightarrow> bt_wf (bt_below k m)"
  using bt_below_from [of k m] by (metis bt_wf_append)

lemma bt_wf_from: "bt_wf m \<Longrightarrow> bt_wf (bt_from k m)"
  using bt_below_from [of k m] by (metis bt_wf_append)

lemma bt_below_append:
  "(\<forall>e \<in> set m. fst e < k) \<Longrightarrow> (\<forall>e \<in> set n. k \<le> fst e) \<Longrightarrow> bt_below k (m @ n) = m"
  by (cases n) (auto simp: bt_below_def takeWhile_append not_le)

lemma bt_from_append:
  "(\<forall>e \<in> set m. fst e < k) \<Longrightarrow> (\<forall>e \<in> set n. k \<le> fst e) \<Longrightarrow> bt_from k (m @ n) = n"
  by (cases n) (auto simp: bt_from_def dropWhile_append not_le)

lemma bt_get_Some: "bt_wf m \<Longrightarrow> bt_get m k = Some v \<longleftrightarrow> (k, v) \<in> set m"
  by (simp add: bt_get_def bt_wf_distinct)

lemma bt_get_None: "bt_get m k = None \<longleftrightarrow> k \<notin> fst ` set m"
  by (simp add: bt_get_def map_of_eq_None_iff)

section \<open>Insertion, removal, concatenation\<close>

lemma bt_insert_fresh:
  assumes "bt_wf m" and "bt_get m k = None"
  shows "bt_insert k v m = bt_below k m @ (k, v) # bt_from k m"
  using assms by (induction m) (auto simp: bt_below_def bt_from_def bt_get_def split: if_splits)

lemma bt_insert_above: "(\<forall>e \<in> set m. fst e < k) \<Longrightarrow> bt_insert k v m = m @ [(k, v)]"
  by (induction m) auto

lemma set_bt_insert: "bt_wf m \<Longrightarrow> set (bt_insert k v m) = insert (k, v) {e \<in> set m. fst e \<noteq> k}"
proof (induction m)
  case Nil
  show ?case by simp
next
  case (Cons e m)
  obtain a b where e: "e = (a, b)" by (cases e)
  consider "k < a" | "k = a" | "a < k" by (rule linorder_cases)
  then show ?case using Cons e by cases force+
qed

lemma bt_wf_insert: "bt_wf m \<Longrightarrow> bt_wf (bt_insert k v m)"
proof (induction m)
  case Nil
  show ?case by simp
next
  case (Cons e m)
  then show ?case by (cases e) (auto simp: set_bt_insert intro: less_trans)
qed

lemma bt_get_insert: "bt_get (bt_insert k v m) = (bt_get m)(k \<mapsto> v)"
  by (induction m) (auto simp: bt_get_def)

lemma bt_wf_remove: "bt_wf m \<Longrightarrow> bt_wf (bt_remove k m)"
  by (induction m) (auto simp: bt_remove_def)

lemma bt_get_remove: "bt_get (bt_remove k m) = (bt_get m)(k := None)"
  by (induction m) (auto simp: bt_get_def bt_remove_def)

lemma bt_append_above:
  "bt_wf n \<Longrightarrow> (\<forall>e \<in> set m. \<forall>e' \<in> set n. fst e < fst e') \<Longrightarrow> bt_append m n = m @ n"
proof (induction n arbitrary: m)
  case Nil
  show ?case by (simp add: bt_append_def)
next
  case (Cons e n)
  have "bt_append m (e # n) = bt_append (bt_insert (fst e) (snd e) m) n"
    by (simp add: bt_append_def)
  also have "bt_insert (fst e) (snd e) m = m @ [e]"
    using Cons.prems by (simp add: bt_insert_above)
  also have "bt_append (m @ [e]) n = (m @ [e]) @ n"
    using Cons.prems by (intro Cons.IH) auto
  finally show ?case by simp
qed

lemma bt_last_below:
  assumes "bt_wf m" and "bt_last (bt_below k m) = Some e" and "e' \<in> set m" and "fst e' < k"
  shows "fst e' \<le> fst e"
  using assms last_takeWhile_Some [of fst m k e']
  by (auto simp: bt_last_def bt_below_def bt_wf_def split: if_splits)

lemma bt_last_None: "bt_last m = None \<longleftrightarrow> m = []"
  by (simp add: bt_last_def)

lemma bt_last_Some: "bt_last m = Some e \<longleftrightarrow> (\<exists>m'. m = m' @ [e])"
  by (cases m rule: rev_cases) (auto simp: bt_last_def)

lemma bt_last_mem: "bt_last m = Some e \<Longrightarrow> e \<in> set m"
  by (auto simp: bt_last_Some)

lemma bt_last_below_mem:
  "bt_wf m \<Longrightarrow> bt_last (bt_below k m) = Some e \<Longrightarrow> e \<in> set m \<and> fst e < k"
  using bt_last_mem [of "bt_below k m" e] by (simp add: set_bt_below)

lemma bt_wf_unique: "bt_wf m \<Longrightarrow> e \<in> set m \<Longrightarrow> e' \<in> set m \<Longrightarrow> fst e = fst e' \<Longrightarrow> e = e'"
  by (metis bt_wf_distinct eq_key_imp_eq_value prod.collapse)

section \<open>The contract of an ordered map\<close>

text \<open>
  What a client may assume of a map: the effect of insertion and removal on queries, the split of
  a map at a key, and that every operation keeps the representation ordered.
\<close>

locale ordered_map =
  fixes wf :: "'m \<Rightarrow> bool"
    and get :: "'m \<Rightarrow> 'k :: linorder \<Rightarrow> 'v option"
    and ins :: "'k \<Rightarrow> 'v \<Rightarrow> 'm \<Rightarrow> 'm"
    and rem :: "'k \<Rightarrow> 'm \<Rightarrow> 'm"
    and below :: "'k \<Rightarrow> 'm \<Rightarrow> 'm"
    and above :: "'k \<Rightarrow> 'm \<Rightarrow> 'm"
  assumes get_ins: "wf m \<Longrightarrow> get (ins k v m) = (get m)(k \<mapsto> v)"
    and get_rem: "wf m \<Longrightarrow> get (rem k m) = (get m)(k := None)"
    and get_below: "wf m \<Longrightarrow> get (below k m) a = (if a < k then get m a else None)"
    and get_above: "wf m \<Longrightarrow> get (above k m) a = (if k \<le> a then get m a else None)"
    and wf_ins: "wf m \<Longrightarrow> wf (ins k v m)"
    and wf_rem: "wf m \<Longrightarrow> wf (rem k m)"
    and wf_below: "wf m \<Longrightarrow> wf (below k m)"
    and wf_above: "wf m \<Longrightarrow> wf (above k m)"
begin

lemma get_ins_twice: "wf m \<Longrightarrow> get (ins k w (ins k v m)) = get (ins k w m)"
  by (simp add: get_ins wf_ins)

lemma get_ins_commute:
  "wf m \<Longrightarrow> k \<noteq> l \<Longrightarrow> get (ins k v (ins l w m)) = get (ins l w (ins k v m))"
  by (simp add: get_ins wf_ins fun_upd_twist)

lemma get_rem_ins: "wf m \<Longrightarrow> get m k = None \<Longrightarrow> get (rem k (ins k v m)) = get m"
  by (auto simp: get_rem get_ins wf_ins)

lemma split_covers:
  "wf m \<Longrightarrow> get m a = (case get (below k m) a of Some v \<Rightarrow> Some v | None \<Rightarrow> get (above k m) a)"
  by (auto simp: get_below get_above split: option.splits)

lemma split_disjoint: "wf m \<Longrightarrow> get (below k m) a = None \<or> get (above k m) a = None"
  by (auto simp: get_below get_above)

end

lemma bt_get_below: "bt_wf m \<Longrightarrow> bt_get (bt_below k m) a = (if a < k then bt_get m a else None)"
  by (rule option_eq_by_Some) (auto simp: bt_get_Some bt_wf_below set_bt_below)

lemma bt_get_from: "bt_wf m \<Longrightarrow> bt_get (bt_from k m) a = (if k \<le> a then bt_get m a else None)"
  by (rule option_eq_by_Some) (auto simp: bt_get_Some bt_wf_from set_bt_from)

interpretation bt: ordered_map bt_wf bt_get bt_insert bt_remove bt_below bt_from
  by unfold_locales
    (simp_all add: bt_get_insert bt_get_remove bt_get_below bt_get_from
      bt_wf_insert bt_wf_remove bt_wf_below bt_wf_from)

end
