(* ===== verification/RangeMap.thy ===== *)
theory RangeMap
  imports BTree
begin

text \<open>
  \<^verbatim>\<open>mizu/lib/range-map/src/lib.rs\<close>: \<open>RangeMap\<close>, a map from disjoint half-open ranges inside a
  root range to values, kept in a \<open>BTreeMap\<close> from the start of a range to its end and value. The
  kernel keeps the virtual address space of a process in one.

  Every method is one definition. A method with \<open>&mut self\<close> returns the new map; a method that
  hands out \<open>&mut V\<close> takes the update the caller makes through the reference. The predicate of
  \<open>find_free\<close> is an \<open>FnMut\<close>, so it is modelled as a function on an explicit state \<open>'s\<close>.
\<close>

section \<open>State\<close>

record ('k, 'v) range_map =
  rm_range :: "'k range"
  rm_map :: "('k, 'k \<times> 'v) btree"

definition rm_new :: "'k range \<Rightarrow> ('k, 'v) range_map" where
  "rm_new rng = \<lparr>rm_range = rng, rm_map = []\<rparr>"

definition root_range :: "('k, 'v) range_map \<Rightarrow> 'k range" where
  "root_range rm = rm_range rm"

definition rm_len :: "('k, 'v) range_map \<Rightarrow> nat" where
  "rm_len rm = length (rm_map rm)"

definition rm_is_empty :: "('k, 'v) range_map \<Rightarrow> bool" where
  "rm_is_empty rm = (rm_map rm = [])"

section \<open>Insertion\<close>

definition try_insert ::
    "('k :: linorder, 'v) range_map \<Rightarrow> 'k range \<Rightarrow> 'v \<Rightarrow> 'v + ('k, 'v) range_map" where
  "try_insert rm key value =
     (if fst key \<ge> snd key then Inl value
      else if \<not> (fst (rm_range rm) \<le> fst key \<and> snd key \<le> snd (rm_range rm)) then Inl value
      else
        (let prev = bt_last (bt_below (snd key) (rm_map rm)) in
         if (case prev of Some (_, (prev_end, _)) \<Rightarrow> prev_end > fst key | None \<Rightarrow> False)
         then Inl value
         else Inr (rm\<lparr>rm_map := bt_insert (fst key) (snd key, value) (rm_map rm)\<rparr>)))"

text \<open>
  \<open>Entry\<close> is a vacant slot of the underlying map together with the end of the range: the range
  itself. \<open>try_entry\<close> reaches \<open>unreachable!()\<close> if the slot is occupied.
\<close>

type_synonym 'k rm_entry = "'k range"

definition try_entry ::
    "('k :: linorder, 'v) range_map \<Rightarrow> 'k range \<Rightarrow> 'k rm_entry option outcome" where
  "try_entry rm key =
     (if fst key \<ge> snd key then Returns None
      else if \<not> (fst (rm_range rm) \<le> fst key \<and> snd key \<le> snd (rm_range rm)) then Returns None
      else
        (let prev = bt_last (bt_below (snd key) (rm_map rm)) in
         if (case prev of Some (_, (prev_end, _)) \<Rightarrow> prev_end > fst key | None \<Rightarrow> False)
         then Returns None
         else (case bt_get (rm_map rm) (fst key) of
             None \<Rightarrow> Returns (Some (fst key, snd key))
           | Some _ \<Rightarrow> Panics)))"

definition rm_entry_insert ::
    "('k :: linorder, 'v) range_map \<Rightarrow> 'k rm_entry \<Rightarrow> 'v \<Rightarrow> ('k, 'v) range_map" where
  "rm_entry_insert rm entry value =
     rm\<lparr>rm_map := bt_insert (fst entry) (snd entry, value) (rm_map rm)\<rparr>"

section \<open>Searching for a free range\<close>

datatype 'k find_result = Found "'k range" | Next | NotFound

fun find_result_map :: "('k \<Rightarrow> 'q) \<Rightarrow> 'k find_result \<Rightarrow> 'q find_result" where
  "find_result_map f (Found rng) = Found (f (fst rng), f (snd rng))"
| "find_result_map f Next = Next"
| "find_result_map f NotFound = NotFound"

type_synonym ('s, 'k) gap_pred = "'s \<Rightarrow> 'k range option \<Rightarrow> 'k find_result \<times> 's"

fun find_gap_from ::
    "('s, 'k :: linorder) gap_pred \<Rightarrow> 'k \<Rightarrow> 'k \<Rightarrow> ('k, 'k \<times> 'v) btree \<Rightarrow> 's \<Rightarrow> 'k find_result \<times> 's" where
  "find_gap_from predicate range_end start [] s =
     (if start < range_end
      then (case predicate s (Some (start, range_end)) of
          (Next, s') \<Rightarrow> predicate s' None
        | ret \<Rightarrow> ret)
      else predicate s None)"
| "find_gap_from predicate range_end start ((base, (fin, v)) # m) s =
     (if start < base
      then (case predicate s (Some (start, base)) of
          (Next, s') \<Rightarrow> find_gap_from predicate range_end fin m s'
        | ret \<Rightarrow> ret)
      else find_gap_from predicate range_end fin m s)"

definition find_gap ::
    "('s, 'k :: linorder) gap_pred \<Rightarrow> ('k, 'v) range_map \<Rightarrow> 's \<Rightarrow> 'k find_result \<times> 's" where
  "find_gap predicate rm s =
     find_gap_from predicate (snd (rm_range rm)) (fst (rm_range rm)) (rm_map rm) s"

text \<open>
  The retry loop need not end for an arbitrary predicate: \<open>None\<close> is a run that never returns.
\<close>

partial_function (option) find_free ::
    "('s, 'k :: linorder) gap_pred \<Rightarrow> ('k, 'v) range_map \<Rightarrow> 's \<Rightarrow> ('k range option \<times> 's) option" where
  "find_free predicate rm s =
     (case find_gap predicate rm s of
        (Found key, s') \<Rightarrow> Some (Some key, s')
      | (Next, s') \<Rightarrow> find_free predicate rm s'
      | (NotFound, s') \<Rightarrow> Some (None, s'))"

definition allocate_with ::
    "('s, 'k :: linorder) gap_pred \<Rightarrow> ('k, 'v) range_map \<Rightarrow> 's
     \<Rightarrow> ('k rm_entry option outcome \<times> 's) option" where
  "allocate_with predicate rm s =
     (case find_free predicate rm s of
        None \<Rightarrow> None
      | Some (None, s') \<Rightarrow> Some (Returns None, s')
      | Some (Some key, s') \<Rightarrow>
          (case bt_get (rm_map rm) (fst key) of
             None \<Rightarrow> Some (Returns (Some (fst key, snd key)), s')
           | Some _ \<Rightarrow> Some (Panics, s')))"

section \<open>Queries and removal\<close>

definition rm_item :: "'k \<times> ('k \<times> 'v) \<Rightarrow> 'k range \<times> 'v" where
  "rm_item e = ((fst e, fst (snd e)), snd (snd e))"

definition rm_get :: "('k, 'v) range_map \<Rightarrow> 'k \<Rightarrow> 'v option" where
  "rm_get rm start = map_option snd (bt_get (rm_map rm) start)"

definition rm_get_mut ::
    "('k :: linorder, 'v) range_map \<Rightarrow> 'k \<Rightarrow> ('v \<Rightarrow> 'v) \<Rightarrow> ('k, 'v) range_map" where
  "rm_get_mut rm start upd =
     (case bt_get (rm_map rm) start of
        None \<Rightarrow> rm
      | Some (fin, value) \<Rightarrow> rm\<lparr>rm_map := bt_insert start (fin, upd value) (rm_map rm)\<rparr>)"

definition rm_get_key_value :: "('k, 'v) range_map \<Rightarrow> 'k \<Rightarrow> ('k range \<times> 'v) option" where
  "rm_get_key_value rm start = map_option (\<lambda>ev. rm_item (start, ev)) (bt_get (rm_map rm) start)"

definition rm_remove :: "('k, 'v) range_map \<Rightarrow> 'k \<Rightarrow> 'v option \<times> ('k, 'v) range_map" where
  "rm_remove rm start =
     (map_option snd (bt_get (rm_map rm) start), rm\<lparr>rm_map := bt_remove start (rm_map rm)\<rparr>)"

definition rm_remove_entry ::
    "('k, 'v) range_map \<Rightarrow> 'k \<Rightarrow> ('k range \<times> 'v) option \<times> ('k, 'v) range_map" where
  "rm_remove_entry rm start =
     (map_option (\<lambda>ev. rm_item (start, ev)) (bt_get (rm_map rm) start),
      rm\<lparr>rm_map := bt_remove start (rm_map rm)\<rparr>)"

definition rm_iter :: "('k, 'v) range_map \<Rightarrow> ('k range \<times> 'v) list" where
  "rm_iter rm = map rm_item (rm_map rm)"

definition rm_iter_mut :: "('k, 'v) range_map \<Rightarrow> ('k range \<Rightarrow> 'v \<Rightarrow> 'v) \<Rightarrow> ('k, 'v) range_map" where
  "rm_iter_mut rm upd =
     rm\<lparr>rm_map := map (\<lambda>(start, (fin, value)). (start, (fin, upd (start, fin) value))) (rm_map rm)\<rparr>"

definition rm_range_iter :: "('k :: linorder, 'v) range_map \<Rightarrow> 'k range \<Rightarrow> ('k range \<times> 'v) list" where
  "rm_range_iter rm rng =
     map rm_item (takeWhile (\<lambda>e. fst (snd e) \<le> snd rng) (bt_from (fst rng) (rm_map rm)))"

definition rm_intersection :: "('k :: linorder, 'v) range_map \<Rightarrow> 'k range \<Rightarrow> ('k range \<times> 'v) list" where
  "rm_intersection rm rng =
     map rm_item (takeWhile (\<lambda>e. fst rng < fst (snd e)) (rev (bt_below (snd rng) (rm_map rm))))"

definition rm_range_mut ::
    "('k :: linorder, 'v) range_map \<Rightarrow> 'k range \<Rightarrow> ('k range \<Rightarrow> 'v \<Rightarrow> 'v) \<Rightarrow> ('k, 'v) range_map" where
  "rm_range_mut rm rng upd =
     (let (m, rest) = bt_split_off (fst rng) (rm_map rm);
          hit = takeWhile (\<lambda>e. fst (snd e) \<le> snd rng) rest
      in rm\<lparr>rm_map := m @ map (\<lambda>(start, (fin, value)). (start, (fin, upd (start, fin) value))) hit
                         @ drop (length hit) rest\<rparr>)"

definition rm_intersection_mut ::
    "('k :: linorder, 'v) range_map \<Rightarrow> 'k range \<Rightarrow> ('k range \<Rightarrow> 'v \<Rightarrow> 'v) \<Rightarrow> ('k, 'v) range_map" where
  "rm_intersection_mut rm rng upd =
     (let (m, rest) = bt_split_off (snd rng) (rm_map rm);
          hit = takeWhile (\<lambda>e. fst rng < fst (snd e)) (rev m)
      in rm\<lparr>rm_map := rev (map (\<lambda>(start, (fin, value)). (start, (fin, upd (start, fin) value))) hit
                             @ drop (length hit) (rev m)) @ rest\<rparr>)"

definition rm_intersects :: "('k :: linorder, 'v) range_map \<Rightarrow> 'k range \<Rightarrow> bool" where
  "rm_intersects rm rng = (rm_intersection rm rng \<noteq> [])"

definition rm_drain ::
    "('k :: linorder, 'v) range_map \<Rightarrow> 'k range \<Rightarrow> ('k range \<times> 'v) list \<times> ('k, 'v) range_map" where
  "rm_drain rm rng =
     (let (m, ret) = bt_split_off (fst rng) (rm_map rm);
          (ret, suffix) = bt_split_off (snd rng) ret;
          (m, ret) =
            (case bt_last ret of
               Some (k, (fin, v)) \<Rightarrow>
                 if snd rng < fin then (bt_insert k (fin, v) m, bt_remove k ret) else (m, ret)
             | None \<Rightarrow> (m, ret))
      in (map rm_item ret, rm\<lparr>rm_map := bt_append m suffix\<rparr>))"

section \<open>Splitting an entry\<close>

text \<open>
  \<open>SplitEntry\<close> borrows the map; the values handed to it are written back when it is dropped.
\<close>

record ('k, 'v) split_entry =
  split_key :: 'k
  se_key :: "'k range"
  new_values :: "'v option \<times> 'v option"

definition set_former :: "('k, 'v) split_entry \<Rightarrow> 'v \<Rightarrow> ('k, 'v) split_entry" where
  "set_former se value = se\<lparr>new_values := (Some value, snd (new_values se))\<rparr>"

definition set_latter :: "('k, 'v) split_entry \<Rightarrow> 'v \<Rightarrow> ('k, 'v) split_entry" where
  "set_latter se value = se\<lparr>new_values := (fst (new_values se), Some value)\<rparr>"

definition split_entry_drop ::
    "('k :: linorder, 'v) split_entry \<Rightarrow> ('k, 'v) range_map \<Rightarrow> ('k, 'v) range_map" where
  "split_entry_drop se rm =
     (let m = rm_map rm;
          m = (case fst (new_values se) of
                 Some v0 \<Rightarrow> bt_insert (fst (se_key se)) (split_key se, v0) m
               | None \<Rightarrow> m);
          m = (case snd (new_values se) of
                 Some v1 \<Rightarrow> bt_insert (split_key se) (snd (se_key se), v1) m
               | None \<Rightarrow> m)
      in rm\<lparr>rm_map := m\<rparr>)"

definition rm_split_entry ::
    "('k :: linorder, 'v) range_map \<Rightarrow> 'k
     \<Rightarrow> ('v \<times> ('k, 'v) split_entry) option \<times> ('k, 'v) range_map" where
  "rm_split_entry rm key =
     (let (m, suffix) = bt_split_off key (rm_map rm) in
      case bt_last m of
        Some (start, (fin, value)) \<Rightarrow>
          if start < key \<and> key < fin
          then (Some (value, \<lparr>split_key = key, se_key = (start, fin), new_values = (None, None)\<rparr>),
                rm\<lparr>rm_map := bt_append (bt_remove start m) suffix\<rparr>)
          else (None, rm\<lparr>rm_map := bt_append m suffix\<rparr>)
      | None \<Rightarrow> (None, rm\<lparr>rm_map := bt_append m suffix\<rparr>))"

end
