(* ===== verification/RangeMap_Spec.thy ===== *)
theory RangeMap_Spec
  imports RangeMap
begin

text \<open>
  The invariant of \<open>RangeMap\<close>, what each operation does to the set of entries, and that each
  operation keeps the invariant.
\<close>

section \<open>The invariant\<close>

text \<open>
  Entries lie inside the root range, are not empty, and the end of an entry is not past the start
  of the next one.
\<close>

fun ranges_ok :: "'k :: linorder \<Rightarrow> 'k \<Rightarrow> ('k, 'k \<times> 'v) btree \<Rightarrow> bool" where
  "ranges_ok lo hi [] = True"
| "ranges_ok lo hi ((start, (fin, v)) # m) =
     (lo \<le> start \<and> start < fin \<and> fin \<le> hi \<and> ranges_ok fin hi m)"

definition rm_wf :: "('k :: linorder, 'v) range_map \<Rightarrow> bool" where
  "rm_wf rm \<longleftrightarrow> ranges_ok (fst (rm_range rm)) (snd (rm_range rm)) (rm_map rm)"

text \<open>A range is free when no entry overlaps it.\<close>

definition rm_free :: "('k :: linorder, 'v) range_map \<Rightarrow> 'k range \<Rightarrow> bool" where
  "rm_free rm rng \<longleftrightarrow> list_all (\<lambda>e. fst (snd e) \<le> fst rng \<or> snd rng \<le> fst e) (rm_map rm)"

definition rm_fits :: "('k :: linorder, 'v) range_map \<Rightarrow> 'k range \<Rightarrow> bool" where
  "rm_fits rm rng \<longleftrightarrow>
     fst rng < snd rng \<and> fst (rm_range rm) \<le> fst rng \<and> snd rng \<le> snd (rm_range rm) \<and> rm_free rm rng"

lemma ranges_ok_lower: "ranges_ok lo hi m \<Longrightarrow> e \<in> set m \<Longrightarrow> lo \<le> fst e"
  by (induction lo hi m rule: ranges_ok.induct) fastforce+

lemma ranges_ok_iff:
  "ranges_ok lo hi m \<longleftrightarrow> bt_wf m
     \<and> (\<forall>e \<in> set m. lo \<le> fst e \<and> fst e < fst (snd e) \<and> fst (snd e) \<le> hi)
     \<and> (\<forall>e \<in> set m. \<forall>e' \<in> set m. fst e < fst e' \<longrightarrow> fst (snd e) \<le> fst e')"
proof (induction m arbitrary: lo)
  case Nil
  show ?case by simp
next
  case (Cons x m)
  obtain start fin v where x: "x = (start, (fin, v))" by (cases x)
  have "ranges_ok lo hi (x # m) \<longleftrightarrow>
      lo \<le> start \<and> start < fin \<and> fin \<le> hi \<and> (\<forall>e \<in> set m. fin \<le> fst e) \<and> ranges_ok fin hi m"
    by (auto simp: x dest: ranges_ok_lower)
  also have "\<dots> \<longleftrightarrow> lo \<le> start \<and> start < fin \<and> fin \<le> hi \<and> (\<forall>e \<in> set m. fin \<le> fst e) \<and> bt_wf m
     \<and> (\<forall>e \<in> set m. lo \<le> fst e \<and> fst e < fst (snd e) \<and> fst (snd e) \<le> hi)
     \<and> (\<forall>e \<in> set m. \<forall>e' \<in> set m. fst e < fst e' \<longrightarrow> fst (snd e) \<le> fst e')"
    unfolding Cons.IH by (meson less_imp_le order.trans)
  also have "\<dots> \<longleftrightarrow> bt_wf (x # m)
     \<and> (\<forall>e \<in> set (x # m). lo \<le> fst e \<and> fst e < fst (snd e) \<and> fst (snd e) \<le> hi)
     \<and> (\<forall>e \<in> set (x # m). \<forall>e' \<in> set (x # m). fst e < fst e' \<longrightarrow> fst (snd e) \<le> fst e')"
    by (auto simp: x intro: less_le_trans dest: less_asym)
  finally show ?case .
qed

lemma rm_wf_iff:
  "rm_wf rm \<longleftrightarrow> bt_wf (rm_map rm)
     \<and> (\<forall>e \<in> set (rm_map rm). fst (rm_range rm) \<le> fst e \<and> fst e < fst (snd e)
          \<and> fst (snd e) \<le> snd (rm_range rm))
     \<and> (\<forall>e \<in> set (rm_map rm). \<forall>e' \<in> set (rm_map rm). fst e < fst e' \<longrightarrow> fst (snd e) \<le> fst e')"
  by (simp add: rm_wf_def ranges_ok_iff)

lemma rm_wf_bt_wf: "rm_wf rm \<Longrightarrow> bt_wf (rm_map rm)"
  by (simp add: rm_wf_iff)

lemma rm_wf_order:
  "rm_wf rm \<Longrightarrow> e \<in> set (rm_map rm) \<Longrightarrow> e' \<in> set (rm_map rm) \<Longrightarrow> fst e < fst e'
   \<Longrightarrow> fst (snd e) \<le> fst e'"
  by (simp add: rm_wf_iff)

lemma rm_wf_bounds:
  "rm_wf rm \<Longrightarrow> e \<in> set (rm_map rm)
   \<Longrightarrow> fst (rm_range rm) \<le> fst e \<and> fst e < fst (snd e) \<and> fst (snd e) \<le> snd (rm_range rm)"
  by (simp add: rm_wf_iff)

lemma rm_wf_ends_order:
  assumes "rm_wf rm" "e \<in> set (rm_map rm)" "e' \<in> set (rm_map rm)" "fst e < fst e'"
  shows "fst (snd e) < fst (snd e')"
  using rm_wf_order [OF assms] rm_wf_bounds [OF assms(1) assms(3)] by auto

lemma rm_new_wf [wf_intros]: "rm_wf (rm_new rng)"
  by (simp add: rm_wf_def rm_new_def)

lemma set_rm_iter: "set (rm_iter rm) = rm_item ` set (rm_map rm)"
  by (simp add: rm_iter_def)

lemma rm_free_iff:
  "rm_free rm rng \<longleftrightarrow> (\<forall>e \<in> set (rm_map rm). fst (snd e) \<le> fst rng \<or> snd rng \<le> fst e)"
  by (simp add: rm_free_def list_all_iff)

lemma inj_rm_item: "inj rm_item"
  by (auto simp: inj_def rm_item_def prod_eq_iff)

section \<open>Insertion\<close>

text \<open>Looking at the last entry that starts before the end of the new range is enough.\<close>

lemma prev_conflict_iff:
  assumes "rm_wf rm" and "a < b"
  shows "(case bt_last (bt_below b (rm_map rm)) of
            Some (_, (prev_end, _)) \<Rightarrow> prev_end > a | None \<Rightarrow> False) \<longleftrightarrow> \<not> rm_free rm (a, b)"
proof (cases "bt_last (bt_below b (rm_map rm))")
  case None
  then have "{e \<in> set (rm_map rm). fst e < b} = {}"
    using set_bt_below [OF rm_wf_bt_wf [OF assms(1)], of b] by (simp add: bt_last_None)
  then have "\<forall>e \<in> set (rm_map rm). b \<le> fst e"
    by (blast intro: leI)
  with None show ?thesis by (auto simp: rm_free_iff)
next
  case (Some p)
  obtain k pe v where p: "p = (k, pe, v)" by (cases p)
  have in_m: "p \<in> set (rm_map rm)" "k < b"
    using bt_last_below_mem [OF rm_wf_bt_wf [OF assms(1)] Some] p by simp_all
  have latest: "fst e \<le> k" if "e \<in> set (rm_map rm)" "fst e < b" for e
    using bt_last_below [OF rm_wf_bt_wf [OF assms(1)] Some that] p by simp
  show ?thesis
  proof (cases "a < pe")
    case True
    with Some p in_m show ?thesis by (force simp: rm_free_iff)
  next
    case False
    have "fst (snd e) \<le> a" if e: "e \<in> set (rm_map rm)" "fst e < b" for e
    proof (cases "fst e = k")
      case True
      with in_m p have "e = p"
        by (intro bt_wf_unique [OF rm_wf_bt_wf [OF assms(1)] e(1)]) simp_all
      with p False show ?thesis by simp
    next
      case k: False
      with latest [OF e] p have "fst e < fst p" by simp
      from rm_wf_ends_order [OF assms(1) e(1) in_m(1) this] False p show ?thesis by simp
    qed
    with Some p False show ?thesis by (force simp: rm_free_iff not_less)
  qed
qed

lemma rm_free_get_None:
  "rm_wf rm \<Longrightarrow> rm_free rm (a, b) \<Longrightarrow> a < b \<Longrightarrow> bt_get (rm_map rm) a = None"
  by (force simp: bt_get_None rm_free_iff rm_wf_iff)

lemma rm_insert_wf [wf_intros]:
  assumes "rm_wf rm" and "rm_fits rm (a, b)"
  shows "rm_wf (rm\<lparr>rm_map := bt_insert a (b, v) (rm_map rm)\<rparr>)"
proof -
  have "bt_wf (rm_map rm)" using assms(1) by (rule rm_wf_bt_wf)
  then show ?thesis
    using assms
    by (fastforce simp: rm_wf_iff rm_fits_def rm_free_iff set_bt_insert bt_wf_insert)
qed

lemma try_insert_eq:
  assumes "rm_wf rm"
  shows "try_insert rm (a, b) v =
    (if rm_fits rm (a, b) then Inr (rm\<lparr>rm_map := bt_insert a (b, v) (rm_map rm)\<rparr>) else Inl v)"
  by (cases "a < b") (auto simp: try_insert_def rm_fits_def Let_def prev_conflict_iff [OF assms])

lemma try_entry_eq:
  assumes "rm_wf rm"
  shows "try_entry rm (a, b) = Returns (if rm_fits rm (a, b) then Some (a, b) else None)"
  by (cases "a < b")
    (auto simp: try_entry_def rm_fits_def Let_def prev_conflict_iff [OF assms] rm_free_get_None [OF assms])

lemma length_bt_insert_fresh: "bt_wf m \<Longrightarrow> bt_get m k = None \<Longrightarrow> length (bt_insert k v m) = Suc (length m)"
  using bt_below_from [of k m] by (metis bt_insert_fresh length_Cons length_append add_Suc_right)


section \<open>Queries\<close>

text \<open>Starts and ends grow together along the list of entries.\<close>

lemma rm_wf_sorted:
  assumes "rm_wf rm"
  shows "sorted_wrt (\<lambda>x y. fst x < fst y \<and> fst (snd x) \<le> fst y \<and> fst (snd x) < fst (snd y)) (rm_map rm)"
proof (rule sorted_wrt_mono_rel)
  show "sorted_wrt (\<lambda>x y. fst x < fst y) (rm_map rm)"
    using rm_wf_bt_wf [OF assms] by (simp add: bt_wf_def sorted_wrt_map)
qed (simp add: rm_wf_order [OF assms] rm_wf_ends_order [OF assms])

lemma bt_below_eq_filter: "bt_wf m \<Longrightarrow> bt_below k m = filter (\<lambda>e. fst e < k) m"
  unfolding bt_below_def bt_wf_def sorted_wrt_map
  by (rule takeWhile_eq_filter) (auto elim: sorted_wrt_mono_rel [rotated] intro: less_trans)

lemma bt_from_eq_filter: "bt_wf m \<Longrightarrow> bt_from k m = filter (\<lambda>e. k \<le> fst e) m"
proof -
  assume "bt_wf m"
  then have "bt_from k m = filter (\<lambda>e. \<not> fst e < k) m"
    unfolding bt_from_def bt_wf_def sorted_wrt_map
    by (intro dropWhile_eq_filter) (auto elim: sorted_wrt_mono_rel [rotated] intro: less_trans)
  then show ?thesis by (simp add: not_less)
qed

definition rm_overlaps :: "'k :: linorder range \<Rightarrow> 'k range \<times> 'v \<Rightarrow> bool" where
  "rm_overlaps rng it \<longleftrightarrow> fst (fst it) < snd rng \<and> fst rng < snd (fst it)"

definition rm_inside :: "'k :: linorder range \<Rightarrow> 'k range \<times> 'v \<Rightarrow> bool" where
  "rm_inside rng it \<longleftrightarrow> fst rng \<le> fst (fst it) \<and> snd (fst it) \<le> snd rng"

lemma rm_item_simps [simp]: "fst (fst (rm_item e)) = fst e" "snd (fst (rm_item e)) = fst (snd e)"
  "snd (rm_item e) = snd (snd e)"
  by (simp_all add: rm_item_def)

lemma rm_intersection_eq:
  assumes "rm_wf rm"
  shows "rm_intersection rm rng = rev (filter (rm_overlaps rng) (rm_iter rm))"
proof -
  let ?m = "rm_map rm"
  have "sorted_wrt (\<lambda>x y. fst rng < fst (snd x) \<longrightarrow> fst rng < fst (snd y)) ?m"
    by (rule sorted_wrt_mono_rel [OF _ rm_wf_sorted [OF assms]]) auto
  then have "sorted_wrt (\<lambda>x y. fst rng < fst (snd y) \<longrightarrow> fst rng < fst (snd x)) (rev (bt_below (snd rng) ?m))"
    unfolding bt_below_eq_filter [OF rm_wf_bt_wf [OF assms]]
    by (simp add: sorted_wrt_rev sorted_wrt_filter)
  then show ?thesis
    unfolding rm_intersection_def rm_iter_def
    by (simp add: takeWhile_eq_filter bt_below_eq_filter rm_wf_bt_wf [OF assms] rev_filter
        filter_map rm_overlaps_def comp_def rev_map conj_commute)
qed

lemma rm_range_iter_eq:
  assumes "rm_wf rm"
  shows "rm_range_iter rm rng = filter (rm_inside rng) (rm_iter rm)"
proof -
  have "sorted_wrt (\<lambda>x y. fst (snd y) \<le> snd rng \<longrightarrow> fst (snd x) \<le> snd rng) (rm_map rm)"
    by (rule sorted_wrt_mono_rel [OF _ rm_wf_sorted [OF assms]]) auto
  then show ?thesis
    unfolding rm_range_iter_def rm_iter_def bt_from_eq_filter [OF rm_wf_bt_wf [OF assms]]
    by (simp add: takeWhile_eq_filter sorted_wrt_filter filter_map rm_inside_def comp_def conj_commute)
qed

lemma rm_intersects_iff:
  assumes "rm_wf rm"
  shows "rm_intersects rm rng \<longleftrightarrow> \<not> rm_free rm rng"
  unfolding rm_intersects_def rm_intersection_eq [OF assms]
  by (auto simp: filter_empty_conv set_rm_iter rm_overlaps_def rm_free_iff not_less not_le)

section \<open>Draining\<close>

lemma bt_remove_last: "bt_wf (m @ [e]) \<Longrightarrow> bt_remove (fst e) (m @ [e]) = m"
  by (auto simp: bt_wf_append bt_remove_def filter_id_conv)

lemma filter_partition3:
  assumes "\<forall>x \<in> set xs. \<not> P x" "\<forall>x \<in> set ys. P x" "\<forall>x \<in> set zs. \<not> P x"
  shows "filter P (xs @ ys @ zs) = ys" "filter (\<lambda>x. \<not> P x) (xs @ ys @ zs) = xs @ zs"
  using assms by (auto simp: filter_empty_conv filter_id_conv)

lemma rm_drain_eq:
  assumes wf: "rm_wf rm"
  shows "rm_drain rm rng =
    (rm_range_iter rm rng,
     rm\<lparr>rm_map := filter (\<lambda>e. \<not> rm_inside rng (rm_item e)) (rm_map rm)\<rparr>)"
proof -
  let ?P = "\<lambda>e. rm_inside rng (rm_item e)"
  define A where "A = bt_below (fst rng) (rm_map rm)"
  define R where "R = bt_below (snd rng) (bt_from (fst rng) (rm_map rm))"
  define S where "S = bt_from (snd rng) (bt_from (fst rng) (rm_map rm))"
  have M: "rm_map rm = A @ R @ S" by (simp add: A_def R_def S_def bt_below_from)
  have drain: "rm_drain rm rng =
     (let (m, ret) =
        (case bt_last R of
           Some (k, (fin, v)) \<Rightarrow>
             if snd rng < fin then (bt_insert k (fin, v) A, bt_remove k R) else (A, R)
         | None \<Rightarrow> (A, R))
      in (map rm_item ret, rm\<lparr>rm_map := bt_append m S\<rparr>))"
    unfolding A_def R_def S_def rm_drain_def bt_split_off_def by simp
  have bw: "bt_wf (A @ R @ S)" using rm_wf_bt_wf [OF wf] M by simp
  have bwm: "bt_wf (rm_map rm)" "bt_wf (bt_from (fst rng) (rm_map rm))"
    using rm_wf_bt_wf [OF wf] by (simp_all add: bt_wf_from)
  have A: "\<forall>e \<in> set A. \<not> ?P e"
    by (auto simp: A_def set_bt_below bwm rm_inside_def)
  have R: "\<forall>e \<in> set R. fst rng \<le> fst e \<and> fst e < snd rng"
    by (simp add: R_def set_bt_below set_bt_from bwm)
  have S: "\<forall>e \<in> set S. \<not> ?P e"
    using rm_wf_bounds [OF wf] by (force simp: S_def set_bt_from bwm rm_inside_def)
  have it: "rm_range_iter rm rng = map rm_item (filter ?P (rm_map rm))"
    by (simp add: rm_range_iter_eq [OF wf] rm_iter_def filter_map comp_def)
  have bws: "bt_wf S" "\<forall>e \<in> set A. \<forall>e' \<in> set S. fst e < fst e'"
    using bw by (simp_all add: bt_wf_append)
  have app: "bt_append A S = A @ S" "bt_append (A @ [e]) S = A @ e # S" if "e \<in> set R" for e
  proof -
    have "\<forall>e' \<in> set S. fst e < fst e'" using bw that by (simp add: bt_wf_append)
    with bws bt_append_above [of S A] bt_append_above [of S "A @ [e]"]
    show "bt_append A S = A @ S" "bt_append (A @ [e]) S = A @ e # S" by simp_all
  qed
  show ?thesis
  proof (cases R rule: rev_cases)
    case Nil
    then have "bt_append A S = A @ S"
      using bws by (intro bt_append_above)
    with Nil filter_partition3 [of A ?P "[]" S] A S M it show ?thesis
      by (simp add: drain bt_last_None [THEN iffD2])
  next
    case (snoc R' l)
    obtain k fin v where l: "l = (k, (fin, v))" by (cases l)
    have inM: "l \<in> set (rm_map rm)" "\<forall>e \<in> set R'. e \<in> set (rm_map rm)" using M snoc by auto
    have R'l: "\<forall>e \<in> set R'. fst e < fst l" using bw snoc by (auto simp: bt_wf_append)
    have R': "\<forall>e \<in> set R'. ?P e"
    proof
      fix e assume e: "e \<in> set R'"
      then have "fst (snd e) \<le> fst l" using rm_wf_order [OF wf] inM R'l by blast
      moreover have "fst l < snd rng" "fst rng \<le> fst e" using R e snoc by auto
      ultimately show "?P e" by (simp add: rm_inside_def)
    qed
    have bl: "bt_last R = Some (k, (fin, v))" by (simp add: snoc bt_last_Some l)
    have rml: "bt_remove k R = R'"
      using bt_remove_last [of R' l] bw snoc l by (simp add: bt_wf_append)
    have ins: "bt_insert k (fin, v) A = A @ [l]"
      using bw snoc l by (auto simp: bt_wf_append intro!: bt_insert_above)
    have lR: "l \<in> set R" by (simp add: snoc)
    have lP: "?P l \<longleftrightarrow> \<not> snd rng < fin" using R lR l by (auto simp: rm_inside_def)
    show ?thesis
    proof (cases "snd rng < fin")
      case True
      have "filter ?P (rm_map rm) = R'" "filter (\<lambda>e. \<not> ?P e) (rm_map rm) = A @ l # S"
        using filter_partition3 [of A ?P R' "l # S"] A R' S lP True M snoc by simp_all
      with True show ?thesis
        by (simp add: drain bl rml ins it app [OF lR])
    next
      case False
      have "filter ?P (rm_map rm) = R" "filter (\<lambda>e. \<not> ?P e) (rm_map rm) = A @ S"
        using filter_partition3 [of A ?P R S] A R' S lP False M snoc by simp_all
      with False show ?thesis
        by (simp add: drain bl it app [OF lR])
    qed
  qed
qed

text \<open>Dropping entries never breaks the invariant.\<close>

lemma rm_wf_filter [wf_intros]: "rm_wf rm \<Longrightarrow> rm_wf (rm\<lparr>rm_map := filter P (rm_map rm)\<rparr>)"
  by (simp add: rm_wf_iff bt_wf_def sorted_wrt_map sorted_wrt_filter)

lemma rm_remove_wf [wf_intros]: "rm_wf rm \<Longrightarrow> rm_wf (rm\<lparr>rm_map := bt_remove k (rm_map rm)\<rparr>)"
  unfolding bt_remove_def by (rule rm_wf_filter)

section \<open>The map as a function on points\<close>

text \<open>
  The abstract view of a range map: which entry, if any, covers a point. The operations are
  specified by what they do to this view.
\<close>

definition rm_at :: "('k :: linorder, 'v) range_map \<Rightarrow> 'k \<Rightarrow> ('k range \<times> 'v) option" where
  "rm_at rm x = find (\<lambda>it. fst (fst it) \<le> x \<and> x < snd (fst it)) (rm_iter rm)"

lemma rm_at_unique:
  assumes "rm_wf rm" "e \<in> set (rm_map rm)" "e' \<in> set (rm_map rm)"
    and "fst e \<le> x" "x < fst (snd e)" "fst e' \<le> x" "x < fst (snd e')"
  shows "e = e'"
proof (rule bt_wf_unique [OF rm_wf_bt_wf [OF assms(1)] assms(2,3)], rule ccontr)
  assume "fst e \<noteq> fst e'"
  then consider "fst e < fst e'" | "fst e' < fst e" by (metis neqE)
  then show False
    using rm_wf_order [OF assms(1-3)] rm_wf_order [OF assms(1) assms(3,2)] assms(4-)
    by cases (auto dest: order.strict_trans1)
qed

lemma rm_at_Some:
  assumes "rm_wf rm"
  shows "rm_at rm x = Some it \<longleftrightarrow> it \<in> set (rm_iter rm) \<and> fst (fst it) \<le> x \<and> x < snd (fst it)"
proof
  show "rm_at rm x = Some it" if "it \<in> set (rm_iter rm) \<and> fst (fst it) \<le> x \<and> x < snd (fst it)"
  proof (cases "rm_at rm x")
    case None
    then have "\<not> (\<exists>it. it \<in> set (rm_iter rm) \<and> fst (fst it) \<le> x \<and> x < snd (fst it))"
      unfolding rm_at_def find_None_iff .
    with that show ?thesis by blast
  next
    case (Some it')
    then have "it' \<in> set (rm_iter rm)" "fst (fst it') \<le> x" "x < snd (fst it')"
      by (auto simp: rm_at_def find_Some_iff)
    with that obtain e e' where "e \<in> set (rm_map rm)" "it = rm_item e"
      "e' \<in> set (rm_map rm)" "it' = rm_item e'"
      by (auto simp: set_rm_iter)
    with that \<open>fst (fst it') \<le> x\<close> \<open>x < snd (fst it')\<close> have "e = e'"
      by (intro rm_at_unique [OF assms, of e e' x]) simp_all
    with \<open>it = rm_item e\<close> \<open>it' = rm_item e'\<close> Some show ?thesis by simp
  qed
qed (auto simp: rm_at_def find_Some_iff)

lemma set_rm_iter_insert:
  assumes "rm_wf rm" "rm_free rm (a, b)" "a < b"
  shows "set (rm_iter (rm\<lparr>rm_map := bt_insert a (b, v) (rm_map rm)\<rparr>))
     = insert ((a, b), v) (set (rm_iter rm))"
proof -
  have "{e \<in> set (rm_map rm). fst e \<noteq> a} = set (rm_map rm)"
    using rm_free_get_None [OF assms] by (auto simp: bt_get_None)
  then show ?thesis
    by (simp add: set_rm_iter set_bt_insert rm_wf_bt_wf [OF assms(1)]) (simp add: rm_item_def)
qed

lemma rm_at_insert:
  assumes "rm_wf rm" "rm_fits rm (a, b)"
  shows "rm_at (rm\<lparr>rm_map := bt_insert a (b, v) (rm_map rm)\<rparr>) x
     = (if a \<le> x \<and> x < b then Some ((a, b), v) else rm_at rm x)"
proof -
  let ?rm = "rm\<lparr>rm_map := bt_insert a (b, v) (rm_map rm)\<rparr>"
  have wf: "rm_wf ?rm" by (rule rm_insert_wf [OF assms])
  have set: "set (rm_iter ?rm) = insert ((a, b), v) (set (rm_iter rm))"
    using assms by (intro set_rm_iter_insert) (simp_all add: rm_fits_def)
  show ?thesis
  proof (cases "a \<le> x \<and> x < b")
    case True
    then show ?thesis by (simp add: rm_at_Some [OF wf] set)
  next
    case False
    then show ?thesis
      by (intro option_eq_by_Some) (auto simp: rm_at_Some [OF wf] rm_at_Some [OF assms(1)] set)
  qed
qed

lemma rm_at_filter:
  assumes "rm_wf rm"
  shows "rm_at (rm\<lparr>rm_map := filter (\<lambda>e. P (rm_item e)) (rm_map rm)\<rparr>) x
     = (case rm_at rm x of Some it \<Rightarrow> if P it then Some it else None | None \<Rightarrow> None)"
proof -
  let ?rm = "rm\<lparr>rm_map := filter (\<lambda>e. P (rm_item e)) (rm_map rm)\<rparr>"
  have set: "set (rm_iter ?rm) = {it \<in> set (rm_iter rm). P it}"
    by (auto simp: set_rm_iter)
  have "rm_at ?rm x = Some it \<longleftrightarrow> rm_at rm x = Some it \<and> P it" for it
    unfolding rm_at_Some [OF assms] rm_at_Some [OF rm_wf_filter [OF assms]] set by auto
  then show ?thesis
    by (intro option_eq_by_Some) (auto split: option.splits)
qed

section \<open>Splitting\<close>

lemma rm_split_entry_None:
  assumes "rm_wf rm" and "\<forall>it \<in> set (rm_iter rm). \<not> (fst (fst it) < key \<and> key < snd (fst it))"
  shows "rm_split_entry rm key = (None, rm)"
proof -
  have "bt_append (bt_below key (rm_map rm)) (bt_from key (rm_map rm)) = rm_map rm"
    using bt_append_above [of "bt_from key (rm_map rm)" "bt_below key (rm_map rm)"]
      rm_wf_bt_wf [OF assms(1)] bt_below_from [of key "rm_map rm"]
    by (fastforce simp: set_bt_below set_bt_from bt_wf_from)
  with assms(2) bt_last_below_mem [OF rm_wf_bt_wf [OF assms(1)], of key] show ?thesis
    by (fastforce simp: rm_split_entry_def bt_split_off_def set_rm_iter split: option.splits)
qed

lemma bt_remove_append: "bt_remove k (m @ n) = bt_remove k m @ bt_remove k n"
  by (simp add: bt_remove_def)

lemma bt_remove_from: "bt_wf m \<Longrightarrow> s < key \<Longrightarrow> bt_remove s (bt_from key m) = bt_from key m"
  by (auto simp: bt_remove_def filter_id_conv set_bt_from)

lemma rm_split_entry_Some:
  assumes wf: "rm_wf rm" and it: "((s, f), v) \<in> set (rm_iter rm)" and key: "s < key" "key < f"
  shows "rm_split_entry rm key =
    (Some (v, \<lparr>split_key = key, se_key = (s, f), new_values = (None, None)\<rparr>),
     rm\<lparr>rm_map := bt_remove s (rm_map rm)\<rparr>)"
proof -
  let ?A = "bt_below key (rm_map rm)" and ?S = "bt_from key (rm_map rm)"
  note bw = rm_wf_bt_wf [OF wf]
  have e: "(s, (f, v)) \<in> set (rm_map rm)" using it by (auto simp: set_rm_iter rm_item_def)
  then have "?A \<noteq> []" using key(1) set_bt_below [OF bw, of key] by fastforce
  then obtain l where l: "bt_last ?A = Some l" by (auto simp: bt_last_def)
  have lm: "l \<in> set (rm_map rm)" "fst l < key" using bt_last_below_mem [OF bw l] by simp_all
  have "s \<le> fst l" using bt_last_below [OF bw l e] key by simp
  moreover have "\<not> s < fst l"
    using rm_wf_order [OF wf e lm(1)] lm(2) key(2) by auto
  ultimately have "l = (s, (f, v))" using bt_wf_unique [OF bw lm(1) e] by simp
  moreover have "bt_append (bt_remove s ?A) ?S = bt_remove s ?A @ ?S"
    using bw by (intro bt_append_above)
      (auto simp: bt_wf_from bt_remove_def set_bt_below set_bt_from intro: less_le_trans)
  moreover have "bt_remove s (rm_map rm) = bt_remove s ?A @ ?S"
    using bt_remove_append [of s ?A ?S] bt_remove_from [OF bw key(1)] by (simp add: bt_below_from)
  ultimately show ?thesis
    using l key by (simp add: rm_split_entry_def bt_split_off_def)
qed

lemma rm_free_removed:
  assumes "rm_wf rm" "((s, f), v) \<in> set (rm_iter rm)" "s \<le> a" "b \<le> f"
  shows "rm_free (rm\<lparr>rm_map := bt_remove s (rm_map rm)\<rparr>) (a, b)"
proof -
  have m: "(s, (f, v)) \<in> set (rm_map rm)" using assms(2) by (auto simp: set_rm_iter rm_item_def)
  have "fst (snd e) \<le> a \<or> b \<le> fst e" if e: "e \<in> set (rm_map rm)" "fst e \<noteq> s" for e
  proof (cases "fst e < s")
    case True
    then show ?thesis using rm_wf_order [OF assms(1) e(1) m] assms(3) by auto
  next
    case False
    with e(2) have "s < fst e" by simp
    with rm_wf_order [OF assms(1) m e(1)] assms(4) show ?thesis by auto
  qed
  then show ?thesis by (simp add: rm_free_iff bt_remove_def)
qed

lemma rm_free_insert:
  assumes "rm_wf rm" "rm_fits rm (a, b)"
  shows "rm_free (rm\<lparr>rm_map := bt_insert a (b, v) (rm_map rm)\<rparr>) rng
    \<longleftrightarrow> rm_free rm rng \<and> (b \<le> fst rng \<or> snd rng \<le> a)"
proof -
  have "a \<notin> fst ` set (rm_map rm)"
    using assms rm_free_get_None [OF assms(1), of a b] by (simp add: rm_fits_def bt_get_None)
  then have "{e \<in> set (rm_map rm). fst e \<noteq> a} = set (rm_map rm)" by auto
  then show ?thesis
    using rm_wf_bt_wf [OF assms(1)] by (auto simp: rm_free_iff set_bt_insert)
qed

lemma rm_at_removed:
  assumes "rm_wf rm" "((s, f), v) \<in> set (rm_iter rm)"
  shows "rm_at (rm\<lparr>rm_map := bt_remove s (rm_map rm)\<rparr>) x
    = (if s \<le> x \<and> x < f then None else rm_at rm x)"
proof -
  have "rm_at (rm\<lparr>rm_map := bt_remove s (rm_map rm)\<rparr>) x
      = (case rm_at rm x of Some it \<Rightarrow> if fst (fst it) \<noteq> s then Some it else None | None \<Rightarrow> None)"
    using rm_at_filter [OF assms(1), of "\<lambda>it. fst (fst it) \<noteq> s" x] by (simp add: bt_remove_def)
  moreover have "rm_at rm x = Some ((s, f), v)" if "s \<le> x" "x < f"
    using that assms by (simp add: rm_at_Some)
  moreover have "s \<le> x \<and> x < f" if "rm_at rm x = Some it" "fst (fst it) = s" for it
  proof -
    have "it = ((s, f), v)"
      using that(1)[unfolded rm_at_Some [OF assms(1)]] that(2) assms
        bt_wf_unique [OF rm_wf_bt_wf [OF assms(1)]]
      by (auto simp: set_rm_iter rm_item_def)
    with that show ?thesis by (simp add: rm_at_Some [OF assms(1)])
  qed
  ultimately show ?thesis by (auto split: option.splits)
qed

lemma split_write_back:
  assumes wf: "rm_wf rm" and it: "((s, f), v) \<in> set (rm_iter rm)" and key: "s < key" "key < f"
    and sp: "rm_split_entry rm key = (Some (v', se), rm')"
    and rm'': "rm'' = split_entry_drop (set_latter (set_former se v0) v1) rm'"
  shows "v' = v" and "rm_wf rm''"
    and "rm_at rm'' x = (if s \<le> x \<and> x < key then Some ((s, key), v0)
                         else if key \<le> x \<and> x < f then Some ((key, f), v1) else rm_at rm x)"
proof -
  let ?r0 = "rm\<lparr>rm_map := bt_remove s (rm_map rm)\<rparr>"
  let ?r1 = "?r0\<lparr>rm_map := bt_insert s (key, v0) (rm_map ?r0)\<rparr>"
  let ?r2 = "?r1\<lparr>rm_map := bt_insert key (f, v1) (rm_map ?r1)\<rparr>"
  note eq = rm_split_entry_Some [OF wf it key]
  show "v' = v" using eq sp by simp
  have "(s, (f, v)) \<in> set (rm_map rm)" using it by (auto simp: set_rm_iter rm_item_def)
  from rm_wf_bounds [OF wf this] have bd: "fst (rm_range rm) \<le> s" "f \<le> snd (rm_range rm)" by simp_all
  have w0: "rm_wf ?r0" by (rule rm_remove_wf [OF wf])
  have f1: "rm_fits ?r0 (s, key)"
    using rm_free_removed [OF wf it, of s key] key bd by (simp add: rm_fits_def)
  note w1 = rm_insert_wf [OF w0 f1, of v0]
  have "rm_free ?r0 (key, f)" using rm_free_removed [OF wf it, of key f] key by simp
  then have f2: "rm_fits ?r1 (key, f)"
    using rm_free_insert [OF w0 f1, of v0 "(key, f)"] key bd by (simp add: rm_fits_def)
  have r2: "rm'' = ?r2"
    using rm'' eq sp by (simp add: split_entry_drop_def set_former_def set_latter_def)
  show "rm_wf rm''" unfolding r2 by (rule rm_insert_wf [OF w1 f2])
  show "rm_at rm'' x = (if s \<le> x \<and> x < key then Some ((s, key), v0)
                         else if key \<le> x \<and> x < f then Some ((key, f), v1) else rm_at rm x)"
    unfolding r2 rm_at_insert [OF w1 f2] rm_at_insert [OF w0 f1] rm_at_removed [OF wf it]
    using key by auto
qed

section \<open>The contract of an interval store\<close>

text \<open>
  What a client of a range map relies on, over the pointwise view alone: an insertion that
  succeeds takes the points of its range, which were all free, and changes no other point; one
  that fails hands the value back; draining removes exactly the entries inside the range.
\<close>

locale interval_store =
  fixes wf :: "'m \<Rightarrow> bool"
    and at :: "'m \<Rightarrow> 'k :: linorder \<Rightarrow> ('k range \<times> 'v) option"
    and ins :: "'m \<Rightarrow> 'k range \<Rightarrow> 'v \<Rightarrow> 'v + 'm"
    and drain :: "'m \<Rightarrow> 'k range \<Rightarrow> ('k range \<times> 'v) list \<times> 'm"
  assumes ins_wf: "wf m \<Longrightarrow> ins m r v = Inr m' \<Longrightarrow> wf m'"
    and ins_at: "wf m \<Longrightarrow> ins m r v = Inr m'
      \<Longrightarrow> at m' x = (if fst r \<le> x \<and> x < snd r then Some (r, v) else at m x)"
    and ins_nonempty: "wf m \<Longrightarrow> ins m r v = Inr m' \<Longrightarrow> fst r < snd r"
    and ins_was_free: "wf m \<Longrightarrow> ins m r v = Inr m' \<Longrightarrow> fst r \<le> x \<Longrightarrow> x < snd r \<Longrightarrow> at m x = None"
    and ins_error: "wf m \<Longrightarrow> ins m r v = Inl v' \<Longrightarrow> v' = v"
    and drain_wf: "wf m \<Longrightarrow> wf (snd (drain m r))"
    and drain_at: "wf m \<Longrightarrow> at (snd (drain m r)) x =
      (case at m x of
         Some it \<Rightarrow> if fst r \<le> fst (fst it) \<and> snd (fst it) \<le> snd r then None else Some it
       | None \<Rightarrow> None)"
begin

lemma ins_taken_fails:
  assumes "wf m" "at m x \<noteq> None" "fst r \<le> x" "x < snd r"
  shows "ins m r v = Inl v"
  using assms ins_was_free [of m r v _ x] ins_error [of m r v] by (cases "ins m r v") auto

lemma ins_same_twice_fails: "wf m \<Longrightarrow> ins m r v = Inr m' \<Longrightarrow> ins m' r w = Inl w"
  using ins_taken_fails [of m' "fst r" r w] ins_wf ins_at [of m r v m' "fst r"] ins_nonempty
  by simp

lemma drain_undoes_ins:
  assumes "wf m" "ins m r v = Inr m'"
    and "\<And>x it. at m x = Some it \<Longrightarrow> \<not> (fst r \<le> fst (fst it) \<and> snd (fst it) \<le> snd r)"
  shows "at (snd (drain m' r)) x = at m x"
  using assms ins_at [OF assms(1,2)] ins_wf [OF assms(1,2)] ins_was_free [OF assms(1,2)]
  by (auto simp: drain_at split: option.splits)

lemma ins_list_wf:
  "wf m \<Longrightarrow> foldl (\<lambda>acc rv. case acc of Inl e \<Rightarrow> Inl e | Inr m \<Rightarrow> ins m (fst rv) (snd rv)) (Inr m) rvs = Inr m'
   \<Longrightarrow> wf m'"
proof (induction rvs arbitrary: m' rule: rev_induct)
  case (snoc rv rvs)
  then show ?case by (auto split: sum.splits intro: ins_wf)
qed simp

end

lemma rm_at_None_in_fit:
  assumes "rm_wf rm" "rm_fits rm (a, b)" "a \<le> x" "x < b"
  shows "rm_at rm x = None"
proof (cases "rm_at rm x")
  case (Some it)
  then obtain e where "e \<in> set (rm_map rm)" "fst e \<le> x" "x < fst (snd e)"
    by (auto simp: rm_at_Some [OF assms(1)] set_rm_iter)
  moreover from this assms(2) have "fst (snd e) \<le> a \<or> b \<le> fst e"
    by (auto simp: rm_fits_def rm_free_iff)
  ultimately show ?thesis using assms(3,4) by auto
qed simp

lemma rm_at_drain:
  assumes "rm_wf rm"
  shows "rm_at (snd (rm_drain rm rng)) x =
    (case rm_at rm x of Some it \<Rightarrow> if rm_inside rng it then None else Some it | None \<Rightarrow> None)"
  using rm_at_filter [OF assms, of "\<lambda>it. \<not> rm_inside rng it" x]
  by (simp add: rm_drain_eq [OF assms] split: option.splits)

interpretation rm: interval_store rm_wf rm_at try_insert rm_drain
proof unfold_locales
  fix m :: "('k :: linorder, 'v) range_map" and r :: "'k range" and v m' x
  assume wf: "rm_wf m"
  obtain a b where r: "r = (a, b)" by (cases r)
  show "rm_wf (snd (rm_drain m r))"
    unfolding rm_drain_eq [OF wf] snd_conv by (rule rm_wf_filter [OF wf])
  show "rm_at (snd (rm_drain m r)) x =
      (case rm_at m x of
         Some it \<Rightarrow> if fst r \<le> fst (fst it) \<and> snd (fst it) \<le> snd r then None else Some it
       | None \<Rightarrow> None)"
    unfolding rm_at_drain [OF wf] rm_inside_def ..
  show "v' = v" if "try_insert m r v = Inl v'" for v'
    using that by (simp add: r try_insert_eq [OF wf] split: if_splits)
  assume ins: "try_insert m r v = Inr m'"
  then have fits: "rm_fits m (a, b)" and m': "m' = m\<lparr>rm_map := bt_insert a (b, v) (rm_map m)\<rparr>"
    by (simp_all add: r try_insert_eq [OF wf] split: if_splits)
  show "rm_wf m'" unfolding m' by (rule rm_insert_wf [OF wf fits])
  show "rm_at m' x = (if fst r \<le> x \<and> x < snd r then Some (r, v) else rm_at m x)"
    unfolding m' by (simp add: rm_at_insert [OF wf fits] r)
  show "fst r < snd r" using fits by (simp add: r rm_fits_def)
  show "rm_at m x = None" if "fst r \<le> x" "x < snd r"
    using rm_at_None_in_fit [OF wf fits] that by (simp add: r)
qed

section \<open>Properties\<close>

text \<open>
  C1: \<open>try_insert\<close> succeeds exactly when the range is not empty, lies in the root range and
  overlaps no entry. It then keeps the invariant, adds one entry, maps every point of the range to
  the new entry and changes no other point. Otherwise it hands the value back.
\<close>

theorem try_insert_spec:
  assumes "rm_wf rm"
  shows "case try_insert rm (a, b) v of
      Inr rm' \<Rightarrow> rm_fits rm (a, b) \<and> rm_wf rm' \<and> rm_len rm' = Suc (rm_len rm)
        \<and> (\<forall>x. rm_at rm' x = (if a \<le> x \<and> x < b then Some ((a, b), v) else rm_at rm x))
    | Inl v' \<Rightarrow> \<not> rm_fits rm (a, b) \<and> v' = v"
proof (cases "rm_fits rm (a, b)")
  case True
  then have "bt_get (rm_map rm) a = None"
    using rm_free_get_None [OF assms, of a b] by (simp add: rm_fits_def)
  with True show ?thesis
    using rm_insert_wf [OF assms True] rm_at_insert [OF assms True]
    by (simp add: try_insert_eq [OF assms] rm_len_def length_bt_insert_fresh rm_wf_bt_wf [OF assms])
qed (simp add: try_insert_eq [OF assms])

definition rm_example :: "(nat, nat) range_map" where
  "rm_example = \<lparr>rm_range = (0, 100), rm_map = [(10, 20, 1), (30, 50, 2), (50, 60, 3)]\<rparr>"

theorem try_insert_spec_witness:
  "rm_wf rm_example \<and> (\<exists>rm'. try_insert rm_example (20, 30) 7 = Inr rm' \<and> rm_len rm' = 4
     \<and> rm_at rm' 25 = Some ((20, 30), 7) \<and> rm_at rm' 35 = Some ((30, 50), 2))
   \<and> try_insert rm_example (20, 31) 7 = Inl 7"
proof -
  have wf: "rm_wf rm_example" by (simp add: rm_example_def rm_wf_def)
  show ?thesis
    using try_insert_spec [OF wf, of 20 30 7] try_insert_spec [OF wf, of 20 31 7] wf
    by (simp add: rm_example_def try_insert_def rm_len_def rm_at_def rm_iter_def rm_item_def
        bt_below_def bt_last_def Let_def)
qed

text \<open>
  C2: \<open>intersection\<close> yields exactly the entries that overlap the given range, in descending
  order, and \<open>intersects\<close> answers whether there is one, although both stop at the first entry from
  the right that does not overlap.
\<close>

theorem intersection_spec:
  assumes "rm_wf rm"
  shows "rm_intersection rm rng = rev (filter (rm_overlaps rng) (rm_iter rm))
    \<and> (rm_intersects rm rng \<longleftrightarrow> \<not> rm_free rm rng)"
  by (simp add: rm_intersection_eq [OF assms] rm_intersects_iff [OF assms])

theorem intersection_spec_witness:
  "rm_intersection rm_example (15, 51) = [((50, 60), 3), ((30, 50), 2), ((10, 20), 1)]
   \<and> \<not> rm_intersects rm_example (20, 30)"
proof -
  have wf: "rm_wf rm_example" by (simp add: rm_example_def rm_wf_def)
  show ?thesis
    using intersection_spec [OF wf, of "(15, 51)"] intersection_spec [OF wf, of "(20, 30)"]
    by (simp add: rm_example_def rm_iter_def rm_item_def rm_overlaps_def rm_free_def)
qed

text \<open>
  C3: \<open>drain\<close> returns, in order, the entries that lie inside the range and removes exactly them:
  an entry that only overlaps the range stays, on either side, and the invariant is kept.
\<close>

theorem drain_spec:
  assumes "rm_wf rm" and "rm_drain rm rng = (removed, rm')"
  shows "removed = filter (rm_inside rng) (rm_iter rm)
    \<and> rm_iter rm' = filter (\<lambda>it. \<not> rm_inside rng it) (rm_iter rm)
    \<and> rm_range rm' = rm_range rm \<and> rm_wf rm'"
  using assms(2) rm_wf_filter [OF assms(1)]
  by (auto simp: rm_drain_eq [OF assms(1)] rm_range_iter_eq [OF assms(1)] rm_iter_def filter_map comp_def)

theorem drain_spec_witness:
  "\<exists>rm'. rm_drain rm_example (15, 55) = ([((30, 50), 2)], rm')
    \<and> rm_iter rm' = [((10, 20), 1), ((50, 60), 3)] \<and> rm_wf rm'"
proof -
  have wf: "rm_wf rm_example" by (simp add: rm_example_def rm_wf_def)
  obtain d rm' where "rm_drain rm_example (15, 55) = (d, rm')" by (cases "rm_drain rm_example (15, 55)")
  with drain_spec [OF wf this] show ?thesis
    by (simp add: rm_example_def rm_iter_def rm_item_def rm_inside_def)
qed

text \<open>
  C4: \<open>split_entry\<close> finds the entry that has the key strictly inside and returns its value. When
  both halves are set, dropping the guard leaves a map that satisfies the invariant, in which the
  points below the key map to the former half, the points from the key to the latter half, and
  every other point as before. Without such an entry the map is unchanged.
\<close>

theorem split_entry_spec:
  assumes "rm_wf rm"
  shows "case rm_split_entry rm key of
      (None, rm') \<Rightarrow> rm' = rm \<and> (\<forall>it \<in> set (rm_iter rm). key \<le> fst (fst it) \<or> snd (fst it) \<le> key)
    | (Some (v, se), rm') \<Rightarrow>
        \<exists>s f. rm_at rm key = Some ((s, f), v) \<and> s < key \<and> key < f \<and>
          (\<forall>v0 v1. let rm'' = split_entry_drop (set_latter (set_former se v0) v1) rm' in
             rm_wf rm'' \<and>
             (\<forall>x. rm_at rm'' x = (if s \<le> x \<and> x < key then Some ((s, key), v0)
                                 else if key \<le> x \<and> x < f then Some ((key, f), v1)
                                 else rm_at rm x)))"
proof (cases "\<forall>it \<in> set (rm_iter rm). \<not> (fst (fst it) < key \<and> key < snd (fst it))")
  case True
  then show ?thesis by (auto simp: rm_split_entry_None [OF assms True] not_less)
next
  case False
  then obtain s f v where it: "((s, f), v) \<in> set (rm_iter rm)" and key: "s < key" "key < f" by auto
  then have "rm_at rm key = Some ((s, f), v)" by (simp add: rm_at_Some [OF assms])
  with split_write_back(2,3) [OF assms it key rm_split_entry_Some [OF assms it key] refl] key
  show ?thesis by (simp add: rm_split_entry_Some [OF assms it key] Let_def)
qed

theorem split_entry_spec_witness:
  "\<exists>se rm'. rm_split_entry rm_example 40 = (Some (2, se), rm')
    \<and> rm_at (split_entry_drop (set_latter (set_former se 8) 9) rm') 45 = Some ((40, 50), 9)
    \<and> fst (rm_split_entry rm_example 50) = None"
proof -
  have wf: "rm_wf rm_example" by (simp add: rm_example_def rm_wf_def)
  have "rm_at rm_example 40 = Some ((30, 50), 2)" "rm_at rm_example 50 = Some ((50, 60), 3)"
    "((30, 50), 2) \<in> set (rm_iter rm_example)"
    by (simp_all add: rm_example_def rm_at_def rm_iter_def rm_item_def)
  with split_entry_spec [OF wf, of 40] split_entry_spec [OF wf, of 50] show ?thesis
    by (fastforce simp: Let_def split: prod.splits option.splits)
qed

end
