(* ===== verification/Aslr.thy ===== *)
theory Aslr
  imports RangeMap_Spec
begin

text \<open>
  \<^verbatim>\<open>mizu/lib/range-map/src/lib.rs\<close>: \<open>AslrKey\<close> and the allocation of a range at a random position.

  The random number generator is a parameter: \<open>next_u64\<close> maps its state to the number drawn and
  the next state. Keys are \<open>usize\<close>; for the kernel's \<open>LAddr\<close> keys the conversions \<open>convert\<close> and
  \<open>From<usize>\<close> are the parameters \<open>conv\<close> and \<open>from\<close>.
\<close>

section \<open>Definitions\<close>

record layout =
  lay_size :: usize
  lay_align :: usize

record 'r aslr_key =
  ak_rng :: 'r
  ak_retried :: bool
  ak_entropy :: usize
  ak_count :: usize
  ak_layout :: layout

definition aslr_key_new :: "('r \<Rightarrow> u64 \<times> 'r) \<Rightarrow> u32 \<Rightarrow> 'r \<Rightarrow> layout \<Rightarrow> 'r aslr_key" where
  "aslr_key_new next_u64 aslr_bit rng layout =
     (let mask = push_bit (unat aslr_bit mod 64) 1 - 1;
          (x, rng) = next_u64 rng
      in \<lparr>ak_rng = rng, ak_retried = False, ak_entropy = x AND mask, ak_count = 0, ak_layout = layout\<rparr>)"

definition saturating_sub :: "usize \<Rightarrow> usize \<Rightarrow> usize" where
  "saturating_sub a b = (if a < b then 0 else a - b)"

definition find_key_usize ::
    "('r \<Rightarrow> u64 \<times> 'r) \<Rightarrow> 'r aslr_key \<Rightarrow> usize range option \<Rightarrow> usize find_result \<times> 'r aslr_key" where
  "find_key_usize next_u64 ak key =
     (case key of
        None \<Rightarrow>
          if ak_retried ak \<or> ak_count ak = 0 then (NotFound, ak)
          else (let (x, rng) = next_u64 (ak_rng ak) in
                (Next, ak\<lparr>ak_rng := rng, ak_retried := True, ak_entropy := x mod ak_count ak, ak_count := 0\<rparr>))
      | Some (key_start, key_end) \<Rightarrow>
          (let shift = trailing_zeros (lay_align (ak_layout ak));
               mask = lay_align (ak_layout ak) - 1;
               base = (key_start + mask) AND NOT mask;
               fin = key_end AND NOT mask;
               size = lay_size (ak_layout ak)
           in
           if size \<le> saturating_sub fin base
           then (let nr_positions = drop_bit shift (fin - base - size) + 1;
                     ak = ak\<lparr>ak_count := ak_count ak + nr_positions\<rparr>
                 in
                 if ak_entropy ak < nr_positions
                 then (let base = base + push_bit shift (ak_entropy ak) in
                       (Found (base, base + size), ak))
                 else (Next, ak\<lparr>ak_entropy := ak_entropy ak - nr_positions\<rparr>))
           else (Next, ak)))"

definition aslr_predicate ::
    "('r \<Rightarrow> u64 \<times> 'r) \<Rightarrow> ('k \<Rightarrow> usize) \<Rightarrow> (usize \<Rightarrow> 'k) \<Rightarrow> ('r aslr_key, 'k) gap_pred" where
  "aslr_predicate next_u64 conv from ak key =
     (let key = map_option (\<lambda>k. (conv (fst k), conv (snd k))) key;
          (ret, ak) = find_key_usize next_u64 ak key
      in (find_result_map from ret, ak))"

definition find_free_with_aslr ::
    "('r \<Rightarrow> u64 \<times> 'r) \<Rightarrow> ('k :: linorder \<Rightarrow> usize) \<Rightarrow> (usize \<Rightarrow> 'k) \<Rightarrow> ('k, 'v) range_map \<Rightarrow> 'r aslr_key
     \<Rightarrow> ('k range option \<times> 'r aslr_key) option" where
  "find_free_with_aslr next_u64 conv from rm ak = find_free (aslr_predicate next_u64 conv from) rm ak"

definition allocate_with_aslr ::
    "('r \<Rightarrow> u64 \<times> 'r) \<Rightarrow> ('k :: linorder \<Rightarrow> usize) \<Rightarrow> (usize \<Rightarrow> 'k) \<Rightarrow> ('k, 'v) range_map \<Rightarrow> 'r aslr_key
     \<Rightarrow> ('k rm_entry option outcome \<times> 'r aslr_key) option" where
  "allocate_with_aslr next_u64 conv from rm ak = allocate_with (aslr_predicate next_u64 conv from) rm ak"

section \<open>Gaps\<close>

text \<open>The gaps of a map, in order, and a round of \<open>find_gap\<close> as a walk over them.\<close>

fun gaps_from :: "'k :: linorder \<Rightarrow> 'k \<Rightarrow> ('k, 'k \<times> 'v) btree \<Rightarrow> 'k range list" where
  "gaps_from range_end start [] = (if start < range_end then [(start, range_end)] else [])"
| "gaps_from range_end start ((base, (fin, v)) # m) =
     (if start < base then [(start, base)] else []) @ gaps_from range_end fin m"

fun walk_gaps :: "('s, 'k) gap_pred \<Rightarrow> 'k range list \<Rightarrow> 's \<Rightarrow> 'k find_result \<times> 's" where
  "walk_gaps p [] s = p s None"
| "walk_gaps p (g # gs) s = (case p s (Some g) of (Next, s') \<Rightarrow> walk_gaps p gs s' | ret \<Rightarrow> ret)"

definition rm_gaps :: "('k :: linorder, 'v) range_map \<Rightarrow> 'k range list" where
  "rm_gaps rm = gaps_from (snd (rm_range rm)) (fst (rm_range rm)) (rm_map rm)"

lemma find_gap_walk: "find_gap p rm s = walk_gaps p (rm_gaps rm) s"
proof -
  have "find_gap_from p b a m s = walk_gaps p (gaps_from b a m) s" for b a m
    by (induction p b a m s rule: find_gap_from.induct)
      (auto split: prod.splits find_result.splits)
  then show ?thesis by (simp add: find_gap_def rm_gaps_def)
qed

lemma gaps_from_bounds:
  "ranges_ok a b m \<Longrightarrow> g \<in> set (gaps_from b a m) \<Longrightarrow> a \<le> fst g \<and> fst g < snd g \<and> snd g \<le> b"
  by (induction a b m rule: ranges_ok.induct) (fastforce split: if_splits)+

lemma gaps_from_free:
  "ranges_ok a b m \<Longrightarrow> g \<in> set (gaps_from b a m)
   \<Longrightarrow> \<forall>e \<in> set m. fst (snd e) \<le> fst g \<or> snd g \<le> fst e"
proof (induction a b m rule: ranges_ok.induct)
  case (2 a b base fin v m)
  then have ok: "ranges_ok fin b m" and order: "a \<le> base" "base < fin" by simp_all
  from 2(3) consider "g = (a, base)" | "g \<in> set (gaps_from b fin m)" by (auto split: if_splits)
  then show ?case
  proof cases
    case 1
    have "\<forall>e \<in> set m. base \<le> fst e"
      using ranges_ok_lower [OF ok] order(2) by (meson less_imp_le order_trans)
    with 1 show ?thesis by simp
  next
    case 2
    with "2.IH" [OF ok] gaps_from_bounds [OF ok 2] show ?thesis by simp
  qed
qed simp

lemma gaps_from_complete:
  "ranges_ok a b m \<Longrightarrow> a \<le> x \<Longrightarrow> x < y \<Longrightarrow> y \<le> b
   \<Longrightarrow> \<forall>e \<in> set m. fst (snd e) \<le> x \<or> y \<le> fst e
   \<Longrightarrow> \<exists>g \<in> set (gaps_from b a m). fst g \<le> x \<and> y \<le> snd g"
proof (induction a b m rule: ranges_ok.induct)
  case (2 a b base fin v m)
  show ?case
  proof (cases "fin \<le> x")
    case True
    with 2 show ?thesis by auto
  next
    case False
    with 2 have "y \<le> base" by simp
    moreover from this 2 have "a < base" by (meson le_less_trans less_le_trans)
    ultimately show ?thesis using 2 by (intro bexI [of _ "(a, base)"]) simp_all
  qed
qed auto

section \<open>One gap\<close>

text \<open>
  How many aligned positions a gap offers, on natural numbers, and the position chosen.
\<close>

definition nr_positions :: "nat \<Rightarrow> nat \<Rightarrow> nat \<Rightarrow> nat \<Rightarrow> nat" where
  "nr_positions k sz a b =
     (let base = (a + 2 ^ k - 1) div 2 ^ k * 2 ^ k; fin = b div 2 ^ k * 2 ^ k in
      if sz \<le> fin - base then (fin - base - sz) div 2 ^ k + 1 else 0)"

definition layout_ok :: "nat \<Rightarrow> layout \<Rightarrow> bool" where
  "layout_ok k l \<longleftrightarrow> k < 64 \<and> lay_align l = 2 ^ k \<and> 0 < lay_size l"

lemma trailing_zeros_power: "k < 64 \<Longrightarrow> trailing_zeros (2 ^ k) = k"
proof -
  assume k: "k < 64"
  have "[0..<64] = [0..<k] @ k # [Suc k..<64]"
    using k by (metis upt_add_eq_append upt_conv_Cons le_add_diff_inverse less_imp_le zero_le)
  moreover have "takeWhile (\<lambda>i. \<not> bit (2 ^ k :: usize) i) ([0..<k] @ k # [Suc k..<64]) = [0..<k]"
    using k by (subst takeWhile_append2) (auto simp: bit_simps)
  ultimately show ?thesis by (simp add: trailing_zeros_def)
qed

lemma unat_size_pos: "0 < (w :: usize) \<Longrightarrow> 0 < unat w"
  by (simp add: word_less_nat_alt)

lemma nr_positions_le: "0 < sz \<Longrightarrow> nr_positions k sz a b \<le> b - a"
proof -
  assume sz: "0 < sz"
  let ?base = "(a + 2 ^ k - 1) div 2 ^ k * 2 ^ k" and ?fin = "b div 2 ^ k * 2 ^ k"
  have "a \<le> ?base"
    by (rule round_up_ge) simp
  moreover have "?fin \<le> b" by (simp add: div_times_less_eq_dividend)
  moreover have "(?fin - ?base - sz) div 2 ^ k + 1 \<le> ?fin - ?base" if "sz \<le> ?fin - ?base"
    using that sz div_le_dividend [of "?fin - ?base - sz" "2 ^ k"] by linarith
  ultimately show ?thesis
    unfolding nr_positions_def Let_def by (split if_split) linarith
qed

lemma find_key_usize_None:
  "find_key_usize next_u64 ak None =
     (if ak_retried ak \<or> ak_count ak = 0 then (NotFound, ak)
      else (Next, ak\<lparr>ak_rng := snd (next_u64 (ak_rng ak)), ak_retried := True,
                     ak_entropy := fst (next_u64 (ak_rng ak)) mod ak_count ak, ak_count := 0\<rparr>))"
  by (simp add: find_key_usize_def split_beta)

lemma find_key_usize_Some:
  assumes lay: "layout_ok k (ak_layout ak)" and wrap: "unat a + 2 ^ k - 1 < 2 ^ 64"
    and n: "n = nr_positions k (unat (lay_size (ak_layout ak))) (unat a) (unat b)"
    and pos: "pos = ((a + mask k) AND NOT (mask k)) + push_bit k (ak_entropy ak)"
  shows "find_key_usize next_u64 ak (Some (a, b)) =
     (if unat (ak_entropy ak) < n
      then (Found (pos, pos + lay_size (ak_layout ak)), ak\<lparr>ak_count := ak_count ak + of_nat n\<rparr>)
      else (Next, ak\<lparr>ak_count := ak_count ak + of_nat n, ak_entropy := ak_entropy ak - of_nat n\<rparr>))"
proof -
  let ?m = "mask k :: usize" and ?sz = "lay_size (ak_layout ak)"
  define base where "base = (a + ?m) AND NOT ?m"
  define fin where "fin = b AND NOT ?m"
  have k: "k < 64" and al: "lay_align (ak_layout ak) = 2 ^ k" and sz: "0 < unat ?sz"
    using lay by (simp_all add: layout_ok_def unat_size_pos)
  have "unat (a + ?m) = unat a + 2 ^ k - 1"
    using k wrap by (subst unat_add_no_overflow) (simp_all add: mask_unat)
  then have ubase: "unat base = (unat a + 2 ^ k - 1) div 2 ^ k * 2 ^ k"
    by (simp add: base_def mask_unat)
  have ufin: "unat fin = unat b div 2 ^ k * 2 ^ k" by (simp add: fin_def mask_unat)
  have n': "n = (if unat ?sz \<le> unat fin - unat base
      then (unat fin - unat base - unat ?sz) div 2 ^ k + 1 else 0)"
    by (simp add: n nr_positions_def ubase ufin Let_def)
  have us: "unat (saturating_sub fin base) = unat fin - unat base"
    by (simp add: saturating_sub_def word_less_nat_alt unat_sub_no_underflow word_le_nat_alt)
  show ?thesis
  proof (cases "unat ?sz \<le> unat fin - unat base")
    case False
    then have "\<not> ?sz \<le> saturating_sub fin base" by (simp add: word_le_nat_alt us)
    with False n' show ?thesis
      by (simp add: find_key_usize_def al mask_eq_exp_minus_1 base_def [unfolded mask_eq_exp_minus_1, symmetric]
          fin_def [unfolded mask_eq_exp_minus_1, symmetric] Let_def)
  next
    case True
    let ?nr = "drop_bit k (fin - base - ?sz) + 1"
    have le: "base \<le> fin" "?sz \<le> fin - base"
      using True sz by (simp_all add: word_le_nat_alt unat_sub_no_underflow)
    have "unat (drop_bit k (fin - base - ?sz)) = (unat fin - unat base - unat ?sz) div 2 ^ k"
      using le by (simp add: mask_unat unat_sub_no_underflow)
    moreover have "n \<le> unat b - unat a" unfolding n by (rule nr_positions_le [OF sz])
    then have "n < 2 ^ 64" using usize_lt [of b] by simp
    ultimately have unr: "unat ?nr = n"
      using True n' by (subst unat_add_no_overflow) simp_all
    have nr: "?nr = of_nat n" unfolding unr [symmetric] by simp
    have "?sz \<le> saturating_sub fin base" using True by (simp add: word_le_nat_alt us)
    then show ?thesis
      by (simp add: find_key_usize_def al trailing_zeros_power k Let_def nr unr [unfolded nr]
          word_less_nat_alt pos mask_eq_exp_minus_1
          base_def [unfolded mask_eq_exp_minus_1, symmetric] fin_def [unfolded mask_eq_exp_minus_1, symmetric])
  qed
qed

text \<open>The position chosen in a gap is aligned and leaves room for the whole range.\<close>

definition aslr_good :: "nat \<Rightarrow> usize \<Rightarrow> usize range \<Rightarrow> usize range \<Rightarrow> bool" where
  "aslr_good k sz g r \<longleftrightarrow> fst g \<le> fst r \<and> 2 ^ k dvd unat (fst r) \<and> snd r = fst r + sz
     \<and> unat (fst r) + unat sz \<le> unat (snd g)"

lemma nr_positions_room:
  assumes "e < nr_positions k sz a b" "0 < sz"
  shows "(a + 2 ^ k - 1) div 2 ^ k * 2 ^ k + e * 2 ^ k + sz \<le> b"
proof -
  let ?base = "(a + 2 ^ k - 1) div 2 ^ k * 2 ^ k" and ?fin = "b div 2 ^ k * 2 ^ k"
  have le: "sz \<le> ?fin - ?base" and e: "e \<le> (?fin - ?base - sz) div 2 ^ k"
    using assms by (auto simp: nr_positions_def Let_def split: if_splits)
  have "e * 2 ^ k \<le> (?fin - ?base - sz) div 2 ^ k * 2 ^ k" by (rule mult_le_mono1 [OF e])
  also have "\<dots> \<le> ?fin - ?base - sz" by (rule div_times_less_eq_dividend)
  finally have *: "e * 2 ^ k \<le> ?fin - ?base - sz" .
  have fb: "?fin \<le> b" by (rule div_times_less_eq_dividend)
  with * le assms(2) show ?thesis by linarith
qed

lemma aslr_good_position:
  assumes lay: "layout_ok k l" and wrap: "unat a + 2 ^ k - 1 < 2 ^ 64"
    and e: "unat ent < nr_positions k (unat (lay_size l)) (unat a) (unat b)"
    and pos: "pos = ((a + mask k) AND NOT (mask k)) + push_bit k ent"
  shows "aslr_good k (lay_size l) (a, b) (pos, pos + lay_size l)"
proof -
  let ?base = "(a + mask k) AND NOT (mask k)"
  let ?nb = "(unat a + 2 ^ k - 1) div 2 ^ k * 2 ^ k"
  have k: "k < 64" and sz: "0 < unat (lay_size l)" using lay by (simp_all add: layout_ok_def unat_size_pos)
  have "unat (a + mask k) = unat a + 2 ^ k - 1"
    using k wrap by (subst unat_add_no_overflow) (simp_all add: mask_unat)
  then have ub: "unat ?base = ?nb" by (simp add: mask_unat)
  note room = nr_positions_room [OF e sz]
  then have lt: "?nb + unat ent * 2 ^ k < 2 ^ 64" using usize_lt [of b] sz by simp
  then have up: "unat (push_bit k ent) = unat ent * 2 ^ k" by (simp add: mask_unat)
  have upos: "unat pos = ?nb + unat ent * 2 ^ k"
    unfolding pos using lt by (subst unat_add_no_overflow) (simp_all add: ub up)
  have "unat a \<le> ?nb" by (rule round_up_ge) simp
  with upos room show ?thesis
    by (simp add: aslr_good_def word_le_nat_alt)
qed

section \<open>One round over the gaps\<close>

definition total_positions :: "nat \<Rightarrow> usize \<Rightarrow> usize range list \<Rightarrow> nat" where
  "total_positions k sz gs =
     (\<Sum>g\<leftarrow>gs. nr_positions k (unat sz) (unat (fst g)) (unat (snd g)))"

lemma aslr_predicate_id: "aslr_predicate next_u64 (\<lambda>x. x) (\<lambda>x. x) = find_key_usize next_u64"
proof (intro ext)
  fix ak key
  have "find_result_map (\<lambda>x. x) r = r" for r :: "usize find_result" by (cases r) simp_all
  then show "aslr_predicate next_u64 (\<lambda>x. x) (\<lambda>x. x) ak key = find_key_usize next_u64 ak key"
    by (simp add: aslr_predicate_def option.map_ident)
qed

lemma total_positions_bound:
  assumes "0 < sz"
  shows "ranges_ok a b m \<Longrightarrow> a \<le> b \<Longrightarrow> total_positions k sz (gaps_from b a m) \<le> unat b - unat a"
proof (induction a b m rule: ranges_ok.induct)
  case (1 a b)
  then show ?case
    using nr_positions_le [of "unat sz" k "unat a" "unat b"] assms
    by (simp add: total_positions_def unat_size_pos)
next
  case (2 a b base fin v m)
  then have "unat a \<le> unat base" "unat base \<le> unat fin" "unat fin \<le> unat b"
    and IH: "total_positions k sz (gaps_from b fin m) \<le> unat b - unat fin"
    by (simp_all add: word_le_nat_alt word_less_nat_alt)
  then show ?case
    using nr_positions_le [of "unat sz" k "unat a" "unat base"] assms
    by (auto simp: total_positions_def unat_size_pos)
qed

lemma walk_aslr:
  assumes "layout_ok k (ak_layout ak)" and "\<forall>g \<in> set gs. unat (fst g) + 2 ^ k - 1 < 2 ^ 64"
    and "total_positions k (lay_size (ak_layout ak)) gs < 2 ^ 64"
  shows "if unat (ak_entropy ak) < total_positions k (lay_size (ak_layout ak)) gs
    then (\<exists>g \<in> set gs. \<exists>r ak'. walk_gaps (find_key_usize next_u64) gs ak = (Found r, ak')
            \<and> aslr_good k (lay_size (ak_layout ak)) g r)
    else walk_gaps (find_key_usize next_u64) gs ak = find_key_usize next_u64
      (ak\<lparr>ak_count := ak_count ak + of_nat (total_positions k (lay_size (ak_layout ak)) gs),
          ak_entropy := ak_entropy ak - of_nat (total_positions k (lay_size (ak_layout ak)) gs)\<rparr>) None"
  using assms
proof (induction gs arbitrary: ak)
  case Nil
  then show ?case by (simp add: total_positions_def)
next
  case (Cons g gs)
  obtain a b where g: "g = (a, b)" by (cases g)
  let ?l = "ak_layout ak"
  define n where "n = nr_positions k (unat (lay_size ?l)) (unat a) (unat b)"
  have tot: "total_positions k (lay_size ?l) (g # gs) = n + total_positions k (lay_size ?l) gs"
    by (simp add: total_positions_def n_def g)
  have wrap: "unat a + 2 ^ k - 1 < 2 ^ 64" using Cons.prems(2) g by simp
  note step = find_key_usize_Some [OF Cons.prems(1) wrap n_def refl, of next_u64]
  show ?case
  proof (cases "unat (ak_entropy ak) < n")
    case True
    with aslr_good_position [OF Cons.prems(1) wrap _ refl, of "ak_entropy ak" b] show ?thesis
      by (simp add: tot [unfolded g] g step n_def)
  next
    case False
    let ?ak = "ak\<lparr>ak_count := ak_count ak + of_nat n, ak_entropy := ak_entropy ak - of_nat n\<rparr>"
    have n64: "n < 2 ^ 64" using Cons.prems(3) tot by simp
    then have un: "unat (of_nat n :: usize) = n" by (simp add: unat_of_nat)
    then have ue: "unat (ak_entropy ?ak) = unat (ak_entropy ak) - n"
      using False by (simp add: unat_sub_no_underflow word_le_nat_alt)
    have w: "walk_gaps (find_key_usize next_u64) (g # gs) ak = walk_gaps (find_key_usize next_u64) gs ?ak"
      by (simp add: g step False)
    have lt: "unat (ak_entropy ak) < n + total_positions k (lay_size ?l) gs
      \<longleftrightarrow> unat (ak_entropy ?ak) < total_positions k (lay_size ?l) gs"
      using False ue by linarith
    have lay: "layout_ok k (ak_layout ?ak)" and gw: "\<forall>g \<in> set gs. unat (fst g) + 2 ^ k - 1 < 2 ^ 64"
      and t64: "total_positions k (lay_size (ak_layout ?ak)) gs < 2 ^ 64"
      using Cons.prems tot by simp_all
    have l: "ak_layout ?ak = ?l" by simp
    note IH = Cons.IH [OF lay gw t64, unfolded l]
    show ?thesis
    proof (cases "unat (ak_entropy ?ak) < total_positions k (lay_size ?l) gs")
      case True
      then show ?thesis using IH unfolding w tot lt by (simp only: if_True) auto
    next
      case False
      then show ?thesis using IH unfolding w tot lt
        by (simp only: if_False) (simp add: add.assoc diff_diff_eq)
    qed
  qed
qed

section \<open>The search\<close>

lemma rm_fits_in_gap:
  assumes wf: "rm_wf rm" and g: "g \<in> set (rm_gaps rm)" and good: "aslr_good k sz g r" and sz: "0 < sz"
  shows "rm_fits rm r"
proof -
  have ok: "ranges_ok (fst (rm_range rm)) (snd (rm_range rm)) (rm_map rm)" using wf by (simp add: rm_wf_def)
  have g': "g \<in> set (gaps_from (snd (rm_range rm)) (fst (rm_range rm)) (rm_map rm))"
    using g by (simp add: rm_gaps_def)
  note bd = gaps_from_bounds [OF ok g']
  have "unat (fst r) + unat sz < 2 ^ 64"
    using good usize_lt [of "snd g"] by (simp add: aslr_good_def)
  then have u: "unat (snd r) = unat (fst r) + unat sz"
    using good by (simp add: aslr_good_def unat_add_no_overflow)
  then have "fst r < snd r" using unat_size_pos [OF sz] by (simp add: word_less_nat_alt)
  moreover have le: "fst g \<le> fst r" "snd r \<le> snd g" using good u by (simp_all add: aslr_good_def word_le_nat_alt)
  moreover have "rm_free rm r"
    unfolding rm_free_iff
  proof
    fix e assume "e \<in> set (rm_map rm)"
    with gaps_from_free [OF ok g'] have "fst (snd e) \<le> fst g \<or> snd g \<le> fst e" by blast
    with le show "fst (snd e) \<le> fst r \<or> snd r \<le> fst e" by auto
  qed
  ultimately show ?thesis using bd by (auto simp: rm_fits_def)
qed

lemma no_position_no_fit:
  assumes wf: "rm_wf rm" and tot: "total_positions k sz (rm_gaps rm) = 0"
    and al: "2 ^ k dvd unat x" "2 ^ k dvd unat sz" and fit: "rm_fits rm (x, x + sz)"
  shows False
proof -
  have ok: "ranges_ok (fst (rm_range rm)) (snd (rm_range rm)) (rm_map rm)" using wf by (simp add: rm_wf_def)
  have x: "fst (rm_range rm) \<le> x" "x < x + sz" "x + sz \<le> snd (rm_range rm)" "rm_free rm (x, x + sz)"
    using fit by (simp_all add: rm_fits_def)
  have fr: "\<forall>e \<in> set (rm_map rm). fst (snd e) \<le> x \<or> x + sz \<le> fst e"
    using x(4) by (simp add: rm_free_iff)
  obtain g where g: "g \<in> set (rm_gaps rm)" "fst g \<le> x" "x + sz \<le> snd g"
    using gaps_from_complete [OF ok x(1,2,3) fr] by (auto simp: rm_gaps_def)
  let ?a = "unat (fst g)" and ?b = "unat (snd g)"
  have n0: "nr_positions k (unat sz) ?a ?b = 0"
    using tot g(1) by (simp add: total_positions_def)
  have u: "unat (x + sz) = unat x + unat sz"
    using x(2) by (metis unat_add_no_overflow unat_lt not_le word_less_nat_alt unat_word_ariths(1)
        add_less_same_cancel1 no_olen_add_nat word_le_nat_alt le_add1 less_imp_le)
  have "(?a + 2 ^ k - 1) div 2 ^ k * 2 ^ k \<le> unat x"
    using g(2) al(1) by (intro round_up_least) (simp_all add: word_le_nat_alt)
  moreover have "unat x + unat sz \<le> ?b div 2 ^ k * 2 ^ k"
    using g(3) al u by (intro round_down_greatest) (simp_all add: word_le_nat_alt)
  ultimately show False using n0 by (auto simp: nr_positions_def Let_def split: if_splits)
qed

lemma total_positions_rm_gaps:
  assumes "rm_wf rm" "fst (rm_range rm) \<le> snd (rm_range rm)" "0 < sz"
  shows "total_positions k sz (rm_gaps rm) < 2 ^ 64"
  using total_positions_bound [OF assms(3), of "fst (rm_range rm)" "snd (rm_range rm)" "rm_map rm" k]
    assms(1,2) usize_lt [of "snd (rm_range rm)"]
  by (simp add: rm_wf_def rm_gaps_def)

lemma find_free_aslr:
  assumes wf: "rm_wf rm" and rng: "fst (rm_range rm) \<le> snd (rm_range rm)"
    and lay: "layout_ok k (ak_layout ak)" and wrap: "unat (snd (rm_range rm)) + 2 ^ k - 1 < 2 ^ 64"
    and init: "\<not> ak_retried ak" "ak_count ak = 0"
  shows "\<exists>r ak'. find_free (find_key_usize next_u64) rm ak = Some (r, ak')
    \<and> (case r of
         Some rng \<Rightarrow> \<exists>g \<in> set (rm_gaps rm). aslr_good k (lay_size (ak_layout ak)) g rng
       | None \<Rightarrow> total_positions k (lay_size (ak_layout ak)) (rm_gaps rm) = 0)"
proof -
  let ?sz = "lay_size (ak_layout ak)" and ?gs = "rm_gaps rm" and ?p = "find_key_usize next_u64"
  define N where "N = total_positions k ?sz ?gs"
  have sz: "0 < ?sz" using lay by (simp add: layout_ok_def)
  have N64: "N < 2 ^ 64" unfolding N_def by (rule total_positions_rm_gaps [OF wf rng sz])
  have ok: "ranges_ok (fst (rm_range rm)) (snd (rm_range rm)) (rm_map rm)" using wf by (simp add: rm_wf_def)
  have gwrap: "\<forall>g \<in> set ?gs. unat (fst g) + 2 ^ k - 1 < 2 ^ 64"
  proof
    fix g assume "g \<in> set ?gs"
    then have "fst g \<le> snd (rm_range rm)"
      using gaps_from_bounds [OF ok] unfolding rm_gaps_def by fastforce
    then show "unat (fst g) + 2 ^ k - 1 < 2 ^ 64" using wrap by (simp add: word_le_nat_alt)
  qed
  note walk = walk_aslr [OF _ gwrap, of _ next_u64]
  show ?thesis
  proof (cases "unat (ak_entropy ak) < N")
    case True
    with walk [OF lay] N64 obtain g r ak' where "g \<in> set ?gs" "walk_gaps ?p ?gs ak = (Found r, ak')"
      "aslr_good k ?sz g r"
      by (auto simp: N_def)
    then show ?thesis
      by (intro exI [of _ "Some r"] exI [of _ ak']) (auto simp: find_free.simps find_gap_walk)
  next
    case False
    let ?ak = "ak\<lparr>ak_count := of_nat N, ak_entropy := ak_entropy ak - of_nat N\<rparr>"
    have w1: "walk_gaps ?p ?gs ak = ?p ?ak None"
      using walk [OF lay] N64 False init by (simp add: N_def)
    show ?thesis
    proof (cases "N = 0")
      case True
      with w1 show ?thesis
        by (intro exI [of _ None] exI [of _ ?ak])
          (simp add: find_free.simps find_gap_walk find_key_usize_None N_def)
    next
      case N0: False
      define x where "x = next_u64 (ak_rng ak)"
      let ?ak2 = "?ak\<lparr>ak_rng := snd x, ak_retried := True, ak_entropy := fst x mod of_nat N, ak_count := 0\<rparr>"
      have uN: "unat (of_nat N :: usize) = N" using N64 by (simp add: unat_of_nat)
      then have "(of_nat N :: usize) \<noteq> 0" using N0 by (metis unat_0)
      with w1 init have f1: "find_free ?p rm ak = find_free ?p rm ?ak2"
        by (subst find_free.simps) (simp add: find_gap_walk find_key_usize_None x_def)
      have "unat (ak_entropy ?ak2) < N" using uN N0 by (simp add: unat_mod)
      with walk [of ?ak2] lay N64 obtain g r ak' where "g \<in> set ?gs" "walk_gaps ?p ?gs ?ak2 = (Found r, ak')"
        "aslr_good k ?sz g r"
        by (auto simp: N_def)
      then show ?thesis
        unfolding f1 by (intro exI [of _ "Some r"] exI [of _ ak']) (auto simp: find_free.simps find_gap_walk)
    qed
  qed
qed

section \<open>Properties\<close>

text \<open>
  C5: \<open>allocate_with_aslr\<close> always returns, after at most one retry, and never reaches its
  \<open>unreachable!()\<close>, whatever the random numbers are. A range it returns is free, aligned and of
  the requested size; and, for a size that is a multiple of the alignment, it returns nothing only
  when no aligned free range of that size exists.
\<close>

theorem allocate_with_aslr_spec:
  assumes wf: "rm_wf rm" and rng: "fst (rm_range rm) \<le> snd (rm_range rm)"
    and lay: "layout_ok k layout" and wrap: "unat (snd (rm_range rm)) + 2 ^ k - 1 < 2 ^ 64"
    and size: "2 ^ k dvd unat (lay_size layout)"
  shows "\<exists>res ak'. allocate_with_aslr next_u64 (\<lambda>x. x) (\<lambda>x. x) rm
        (aslr_key_new next_u64 aslr_bit rng0 layout) = Some (Returns res, ak')
    \<and> (case res of
         Some (x, y) \<Rightarrow> rm_fits rm (x, y) \<and> y = x + lay_size layout \<and> 2 ^ k dvd unat x
       | None \<Rightarrow> \<forall>x. 2 ^ k dvd unat x \<longrightarrow> \<not> rm_fits rm (x, x + lay_size layout))"
proof -
  let ?ak = "aslr_key_new next_u64 aslr_bit rng0 layout"
  have ak: "\<not> ak_retried ?ak" "ak_count ?ak = 0" "ak_layout ?ak = layout"
    by (simp_all add: aslr_key_new_def split_beta Let_def)
  have sz: "0 < lay_size layout" using lay by (simp add: layout_ok_def)
  from find_free_aslr [OF wf rng _ wrap ak(1,2), unfolded ak(3), OF lay, of next_u64]
  obtain r ak' where ff: "find_free (find_key_usize next_u64) rm ?ak = Some (r, ak')"
    and r: "case r of Some rng \<Rightarrow> \<exists>g \<in> set (rm_gaps rm). aslr_good k (lay_size layout) g rng
       | None \<Rightarrow> total_positions k (lay_size layout) (rm_gaps rm) = 0"
    by blast
  show ?thesis
  proof (cases r)
    case None
    with r have "\<forall>x. 2 ^ k dvd unat x \<longrightarrow> \<not> rm_fits rm (x, x + lay_size layout)"
      using no_position_no_fit [OF wf _ _ size] by auto
    with None ff show ?thesis
      by (simp add: allocate_with_aslr_def aslr_predicate_id allocate_with_def)
  next
    case (Some rg)
    obtain x y where xy: "rg = (x, y)" by (cases rg)
    from r Some obtain g where g: "g \<in> set (rm_gaps rm)" "aslr_good k (lay_size layout) g rg" by auto
    have fit: "rm_fits rm (x, y)" using rm_fits_in_gap [OF wf g sz] xy by simp
    then have "bt_get (rm_map rm) x = None"
      using rm_free_get_None [OF wf, of x y] by (simp add: rm_fits_def)
    with Some ff fit g(2) xy show ?thesis
      by (simp add: allocate_with_aslr_def aslr_predicate_id allocate_with_def aslr_good_def)
  qed
qed

definition aslr_example :: "(usize, nat) range_map" where
  "aslr_example = \<lparr>rm_range = (0x1000, 0x8000), rm_map = [(0x2000, 0x5000, 1)]\<rparr>"

theorem allocate_with_aslr_spec_witness:
  "\<exists>res ak'. allocate_with_aslr (\<lambda>n. (n, n + 1)) (\<lambda>x. x) (\<lambda>x. x) aslr_example
       (aslr_key_new (\<lambda>n. (n, n + 1)) 8 7 \<lparr>lay_size = 0x2000, lay_align = 0x1000\<rparr>) = Some (Returns res, ak')
    \<and> (case res of
         Some (x, y) \<Rightarrow> rm_fits aslr_example (x, y) \<and> y = x + 0x2000 \<and> 4096 dvd unat x
       | None \<Rightarrow> \<forall>x. 4096 dvd unat x \<longrightarrow> \<not> rm_fits aslr_example (x, x + 0x2000))"
proof -
  have eqs: "(2 :: nat) ^ 12 = 4096" "lay_size \<lparr>lay_size = 0x2000, lay_align = 0x1000\<rparr> = 0x2000"
    by simp_all
  have "rm_wf aslr_example" "fst (rm_range aslr_example) \<le> snd (rm_range aslr_example)"
    "layout_ok 12 \<lparr>lay_size = 0x2000, lay_align = 0x1000\<rparr>"
    "unat (snd (rm_range aslr_example)) + 2 ^ 12 - 1 < 2 ^ 64"
    "2 ^ 12 dvd unat (lay_size \<lparr>lay_size = 0x2000, lay_align = 0x1000\<rparr>)"
    by (simp_all add: aslr_example_def rm_wf_def layout_ok_def)
  from allocate_with_aslr_spec [OF this, of "\<lambda>n. (n, n + 1)" 8 7] show ?thesis
    unfolding eqs .
qed

end
