(* ===== verification/Paging.thy ===== *)
theory Paging
  imports Prelude
begin

text \<open>
  \<^verbatim>\<open>mizu/lib/paging/src/\<close>, the Sv39 address arithmetic: \<open>consts.rs\<close>, \<open>level.rs\<close>, \<open>addr.rs\<close> and the
  entries of \<open>entry.rs\<close>. A level is the number it wraps (0 is the leaf table, 2 the root); addresses
  and entries are the \<open>usize\<close> they wrap. The attributes are those of the build without the
  \<open>cv1811h\<close> feature.
\<close>

section \<open>Constants and errors\<close>

abbreviation PAGE_SHIFT :: nat where "PAGE_SHIFT \<equiv> 12"

definition PAGE_SIZE :: usize where "PAGE_SIZE = push_bit PAGE_SHIFT 1"

definition PAGE_MASK :: usize where "PAGE_MASK = PAGE_SIZE - 1"

abbreviation NR_ENTRIES_SHIFT :: nat where "NR_ENTRIES_SHIFT \<equiv> 9"

definition NR_ENTRIES :: nat where "NR_ENTRIES = 2 ^ NR_ENTRIES_SHIFT"

definition CANONICAL_PREFIX :: usize where "CANONICAL_PREFIX = 0xffffffc000000000"

definition ID_OFFSET :: usize where "ID_OFFSET = CANONICAL_PREFIX"

definition BLANK_BEGIN :: usize where "BLANK_BEGIN = push_bit 38 1 - 1"

definition BLANK_END :: usize where "BLANK_END = CANONICAL_PREFIX - 1"

type_synonym paddr = usize
type_synonym laddr = usize

datatype pt_error =
    OutOfMemory
  | AddrMisaligned "laddr option" "laddr option" "paddr option"
  | RangeEmpty
  | EntryExistent bool
  | PermissionDenied

section \<open>Levels\<close>

type_synonym level = nat

definition page_shift :: "level \<Rightarrow> nat" where
  "page_shift l = PAGE_SHIFT + l * NR_ENTRIES_SHIFT"

definition page_size :: "level \<Rightarrow> usize" where
  "page_size l = push_bit (page_shift l) 1"

definition page_mask :: "level \<Rightarrow> usize" where
  "page_mask l = page_size l - 1"

definition paddr_mask :: "level \<Rightarrow> usize" where
  "paddr_mask l = (push_bit 56 1 - 1) AND NOT (page_mask l)"

definition laddr_mask :: "level \<Rightarrow> usize" where
  "laddr_mask l = page_mask 3 AND NOT (page_mask l)"

definition addr_idx :: "level \<Rightarrow> laddr \<Rightarrow> bool \<Rightarrow> nat" where
  "addr_idx l laddr end =
     (let ret = unat (drop_bit (page_shift l) (laddr AND laddr_mask l) AND of_nat (NR_ENTRIES - 1)) in
      if end \<and> ret = 0 then NR_ENTRIES else ret)"

definition level_decrease :: "level \<Rightarrow> level option" where
  "level_decrease l = (if l = 0 then None else Some (l - 1))"

definition round_down :: "usize \<Rightarrow> level \<Rightarrow> usize" where
  "round_down a l = a AND NOT (page_mask l)"

definition round_up :: "usize \<Rightarrow> level \<Rightarrow> usize" where
  "round_up a l = (a + page_mask l) AND NOT (page_mask l)"

section \<open>Addresses\<close>

definition to_laddr :: "paddr \<Rightarrow> usize \<Rightarrow> laddr" where
  "to_laddr p id_off = p + id_off"

definition to_paddr :: "laddr \<Rightarrow> usize \<Rightarrow> paddr" where
  "to_paddr la id_off = la - id_off"

definition in_page_offset :: "usize \<Rightarrow> usize" where
  "in_page_offset a = a AND PAGE_MASK"

definition range_to_laddr :: "paddr range \<Rightarrow> usize \<Rightarrow> laddr range" where
  "range_to_laddr r id_off = (to_laddr (fst r) id_off, to_laddr (snd r) id_off)"

section \<open>Attributes\<close>

type_synonym attr = usize

definition VALID :: attr where "VALID = push_bit 0 1"
definition READABLE :: attr where "READABLE = push_bit 1 1"
definition WRITABLE :: attr where "WRITABLE = push_bit 2 1"
definition EXECUTABLE :: attr where "EXECUTABLE = push_bit 3 1"
definition USER_ACCESS :: attr where "USER_ACCESS = push_bit 4 1"
definition GLOBAL :: attr where "GLOBAL = push_bit 5 1"
definition ACCESSED :: attr where "ACCESSED = push_bit 6 1"
definition DIRTY :: attr where "DIRTY = push_bit 7 1"

definition attr_all :: attr where
  "attr_all = VALID OR READABLE OR WRITABLE OR EXECUTABLE OR USER_ACCESS OR GLOBAL OR ACCESSED OR DIRTY"

definition KERNEL_R :: attr where "KERNEL_R = VALID OR READABLE OR GLOBAL"
definition KERNEL_RW :: attr where "KERNEL_RW = KERNEL_R OR WRITABLE"
definition KERNEL_RWX :: attr where "KERNEL_RWX = KERNEL_RW OR EXECUTABLE"
definition USER_R :: attr where "USER_R = VALID OR READABLE OR USER_ACCESS"
definition USER_RW :: attr where "USER_RW = USER_R OR WRITABLE"
definition USER_RX :: attr where "USER_RX = USER_R OR EXECUTABLE"
definition USER_RWX :: attr where "USER_RWX = USER_RW OR EXECUTABLE"

text \<open>\<open>contains\<close>, \<open>intersects\<close> and \<open>from_bits_truncate\<close> of the \<open>bitflags\<close> crate.\<close>

definition attr_contains :: "attr \<Rightarrow> attr \<Rightarrow> bool" where
  "attr_contains a b \<longleftrightarrow> a AND b = b"

definition attr_intersects :: "attr \<Rightarrow> attr \<Rightarrow> bool" where
  "attr_intersects a b \<longleftrightarrow> a AND b \<noteq> 0"

definition attr_from_bits_truncate :: "usize \<Rightarrow> attr" where
  "attr_from_bits_truncate w = w AND attr_all"

definition has_table :: "attr \<Rightarrow> bool" where
  "has_table a \<longleftrightarrow> \<not> attr_intersects a (READABLE OR WRITABLE OR EXECUTABLE)"

definition builder_new :: attr where
  "builder_new = 0"

definition builder_readable :: "attr \<Rightarrow> bool \<Rightarrow> attr" where
  "builder_readable a readable = (if readable then a OR READABLE else a)"

definition builder_writable :: "attr \<Rightarrow> bool \<Rightarrow> attr" where
  "builder_writable a writable = (if writable then a OR WRITABLE else a)"

definition builder_user_access :: "attr \<Rightarrow> bool \<Rightarrow> attr" where
  "builder_user_access a user_access = (if user_access then a OR USER_ACCESS else a)"

definition builder_executable :: "attr \<Rightarrow> bool \<Rightarrow> attr" where
  "builder_executable a executable = (if executable then a OR EXECUTABLE else a)"

section \<open>Entries\<close>

type_synonym pt_entry = usize

definition entry_get :: "pt_entry \<Rightarrow> level \<Rightarrow> paddr \<times> attr" where
  "entry_get e l = (push_bit 2 e AND paddr_mask l, attr_from_bits_truncate e)"

definition entry_addr :: "pt_entry \<Rightarrow> level \<Rightarrow> paddr" where
  "entry_addr e l = fst (entry_get e l)"

definition entry_new :: "paddr \<Rightarrow> attr \<Rightarrow> level \<Rightarrow> pt_entry" where
  "entry_new addr attr l = drop_bit 2 (addr AND paddr_mask l) OR attr"

definition is_set :: "pt_entry \<Rightarrow> bool" where
  "is_set e \<longleftrightarrow> attr_contains (snd (entry_get e 0)) VALID"

text \<open>\<open>table\<close> and \<open>table_mut\<close>: the linear address of the table the entry points to.\<close>

definition entry_table :: "pt_entry \<Rightarrow> level \<Rightarrow> usize \<Rightarrow> laddr option" where
  "entry_table e l id_off =
     (let (addr, attr) = entry_get e 0 in
      if attr_contains attr VALID \<and> has_table attr \<and> l \<noteq> 0 then Some (to_laddr addr id_off) else None)"

section \<open>Readings on natural numbers\<close>

lemma page_shift_lt: "l \<le> 3 \<Longrightarrow> page_shift l \<le> 39"
  by (simp add: page_shift_def)

lemma page_mask_eq: "page_mask l = mask (page_shift l)"
  by (simp add: page_mask_def page_size_def mask_eq_exp_minus_1)

lemma PAGE_MASK_eq: "PAGE_MASK = mask 12"
  by (simp add: PAGE_MASK_def PAGE_SIZE_def mask_eq_exp_minus_1)

lemma paddr_mask_eq: "paddr_mask l = mask 56 AND NOT (mask (page_shift l))"
  by (simp add: paddr_mask_def page_mask_eq mask_eq_exp_minus_1)

lemma laddr_mask_eq: "laddr_mask l = mask 39 AND NOT (mask (page_shift l))"
  by (simp add: laddr_mask_def page_mask_eq page_shift_def)

lemma addr_idx_word:
  "l < 3 \<Longrightarrow> drop_bit (page_shift l) (la AND laddr_mask l) AND mask 9 = drop_bit (page_shift l) la AND mask 9"
  by (rule bit_word_eqI) (auto simp: laddr_mask_eq bit_simps page_shift_def)

lemma addr_idx_eq:
  assumes "l < 3"
  shows "addr_idx l la False = unat la div 2 ^ page_shift l mod 512"
proof -
  have "(of_nat (NR_ENTRIES - 1) :: usize) = mask 9" by (simp add: NR_ENTRIES_def mask_eq_exp_minus_1)
  then show ?thesis
    by (simp only: addr_idx_def addr_idx_word [OF assms] Let_def) (simp add: mask_unat)
qed

lemma addr_idx_lt: "l < 3 \<Longrightarrow> addr_idx l la False < 512"
  by (simp add: addr_idx_eq)

lemma unat_round_down: "unat (round_down a l) = unat a div 2 ^ page_shift l * 2 ^ page_shift l"
  by (simp add: round_down_def page_mask_eq mask_unat)

lemma unat_round_up:
  assumes "l \<le> 3" "unat a + 2 ^ page_shift l - 1 < 2 ^ 64"
  shows "unat (round_up a l) = (unat a + 2 ^ page_shift l - 1) div 2 ^ page_shift l * 2 ^ page_shift l"
proof -
  have "unat (a + mask (page_shift l)) = unat a + 2 ^ page_shift l - 1"
    using assms page_shift_lt [OF assms(1)]
    by (subst unat_add_no_overflow) (simp_all add: mask_unat min_def)
  then show ?thesis by (simp add: round_up_def page_mask_eq mask_unat)
qed

section \<open>Entries round trip\<close>

lemma attr_all_eq: "attr_all = mask 8"
  by (simp add: attr_all_def VALID_def READABLE_def WRITABLE_def EXECUTABLE_def USER_ACCESS_def
      GLOBAL_def ACCESSED_def DIRTY_def mask_eq_exp_minus_1)

lemma entry_new_get:
  assumes "l \<le> 3" and attr: "attr AND attr_all = attr"
  shows "entry_get (entry_new pa attr l) l = (pa AND paddr_mask l, attr)"
proof -
  have hi: "\<not> bit attr n" if "8 \<le> n" for n
    using that arg_cong [OF attr, of "\<lambda>w. bit w n"] by (simp add: attr_all_eq bit_simps)
  have "push_bit 2 (entry_new pa attr l) AND paddr_mask l = pa AND paddr_mask l"
  proof (rule bit_word_eqI)
    fix n assume "n < LENGTH(64)"
    show "bit (push_bit 2 (entry_new pa attr l) AND paddr_mask l) n = bit (pa AND paddr_mask l) n"
    proof (cases "n < 12")
      case True
      then show ?thesis by (auto simp: paddr_mask_eq page_shift_def bit_simps)
    next
      case False
      then have "n = (n - 2) + 2" "8 \<le> n - 2" by simp_all
      then obtain m where "n = m + 2" "8 \<le> m" by blast
      then show ?thesis
        using hi [of m] by (auto simp: entry_new_def paddr_mask_eq page_shift_def bit_simps)
    qed
  qed
  moreover have "entry_new pa attr l AND attr_all = attr"
  proof (rule bit_word_eqI)
    fix n assume "n < LENGTH(64)"
    then show "bit (entry_new pa attr l AND attr_all) n = bit attr n"
      using hi [of n] by (cases "n < 8") (auto simp: entry_new_def attr_all_eq paddr_mask_eq page_shift_def bit_simps)
  qed
  ultimately show ?thesis by (simp add: entry_get_def attr_from_bits_truncate_def)
qed

lemma attr_contains_VALID: "attr_contains a VALID \<longleftrightarrow> bit a 0"
proof
  assume "bit a 0"
  then show "attr_contains a VALID"
    unfolding attr_contains_def VALID_def
    by (intro bit_word_eqI) (auto simp: bit_simps)
next
  assume "attr_contains a VALID"
  then have "bit (a AND VALID) 0 = bit VALID 0" by (simp add: attr_contains_def)
  then show "bit a 0" by (simp add: VALID_def bit_simps)
qed

lemma is_set_iff: "is_set e \<longleftrightarrow> bit e 0"
  by (simp add: is_set_def entry_get_def attr_from_bits_truncate_def attr_contains_VALID attr_all_eq bit_simps)

lemma has_table_iff: "has_table a \<longleftrightarrow> \<not> bit a 1 \<and> \<not> bit a 2 \<and> \<not> bit a 3"
proof -
  have "bit (a AND (READABLE OR WRITABLE OR EXECUTABLE)) n \<longleftrightarrow> bit a n \<and> (n = 1 \<or> n = 2 \<or> n = 3)" for n
    by (simp only: READABLE_def WRITABLE_def EXECUTABLE_def bit_and_iff bit_or_iff bit_flag) auto
  then have "a AND (READABLE OR WRITABLE OR EXECUTABLE) = 0 \<longleftrightarrow> \<not> bit a 1 \<and> \<not> bit a 2 \<and> \<not> bit a 3"
    unfolding word_zero_iff_bits by auto
  then show ?thesis by (simp add: has_table_def attr_intersects_def)
qed

lemma entry_table_iff:
  "entry_table e l id_off =
    (if bit e 0 \<and> \<not> bit e 1 \<and> \<not> bit e 2 \<and> \<not> bit e 3 \<and> l \<noteq> 0
     then Some (to_laddr (entry_addr e 0) id_off) else None)"
  by (simp add: entry_table_def entry_addr_def entry_get_def attr_contains_VALID has_table_iff
      attr_from_bits_truncate_def attr_all_eq bit_simps)

lemma VALID_in_all: "VALID AND attr_all = VALID"
  by (simp add: VALID_def attr_all_eq) (simp add: mask_eq_exp_minus_1)

text \<open>
  An address is representable in an entry when it is page aligned and has at most 56 bits.
\<close>

definition paddr_ok :: "paddr \<Rightarrow> bool" where
  "paddr_ok p \<longleftrightarrow> p AND paddr_mask 0 = p"

lemma entry_new_table:
  assumes "paddr_ok (to_paddr t id_off)" "l \<noteq> 0"
  shows "entry_table (entry_new (to_paddr t id_off) VALID 0) l id_off = Some t"
proof -
  have g: "entry_get (entry_new (to_paddr t id_off) VALID 0) 0 = (to_paddr t id_off, VALID)"
    using entry_new_get [OF _ VALID_in_all, of 0] assms(1) by (simp add: paddr_ok_def)
  have "attr_contains VALID VALID" "has_table VALID"
    by (simp_all add: attr_contains_def has_table_iff) (simp_all add: VALID_def bit_simps)
  with g assms(2) show ?thesis
    by (simp add: entry_table_def to_laddr_def to_paddr_def)
qed

end
