(* ===== verification/Frame.thy ===== *)
theory Frame
  imports Paging
begin

text \<open>
  \<^verbatim>\<open>mizu/lib/kmem/src/frame.rs\<close>: \<open>Arena\<close>, the physical frame allocator. Freed blocks form a list
  whose nodes live in the freed pages themselves, so the operations read and write memory: a memory
  maps the linear address of a page and a word index to the word there. \<open>Node.next\<close> is word 0 and
  \<open>Node.count\<close> is word 1 of the page.

  The compare-and-exchange loops are modelled as the iteration that succeeds: one operation at a time.
\<close>

section \<open>Definitions\<close>

type_synonym mem = "laddr \<Rightarrow> nat \<Rightarrow> usize"

abbreviation COUNT_SHIFT :: nat where "COUNT_SHIFT \<equiv> 5"

definition MAX_COUNT :: usize where "MAX_COUNT = push_bit (PAGE_SHIFT - COUNT_SHIFT) 1"
definition COUNT_MASK :: usize where "COUNT_MASK = push_bit COUNT_SHIFT (MAX_COUNT - 1)"
definition ID_MASK :: usize where "ID_MASK = push_bit COUNT_SHIFT 1 - 1"

definition compose :: "laddr \<Rightarrow> usize \<Rightarrow> u16 \<Rightarrow> usize" where
  "compose addr count ident = (addr AND NOT PAGE_MASK) OR push_bit COUNT_SHIFT count OR (ucast ident AND ID_MASK)"

definition decompose :: "usize \<Rightarrow> laddr \<times> usize \<times> u16" where
  "decompose head =
     (let addr = head AND NOT PAGE_MASK;
          count = drop_bit COUNT_SHIFT (head AND COUNT_MASK);
          ident = ucast (head AND ID_MASK)
      in (addr, count, ident))"

record arena =
  ar_head :: usize
  ar_top :: usize
  ar_base :: laddr
  ar_end :: laddr
  ar_count :: usize

definition arena_new :: "laddr range \<Rightarrow> arena" where
  "arena_new rng = \<lparr>ar_head = 0, ar_top = fst rng, ar_base = fst rng, ar_end = snd rng, ar_count = 0\<rparr>"

definition allocate_fresh :: "arena \<Rightarrow> usize \<Rightarrow> (laddr \<times> arena) option" where
  "allocate_fresh ar count =
     (let top = ar_top ar; fin = top + (count - 1) * PAGE_SIZE in
      if \<not> (ar_base ar \<le> fin \<and> fin < ar_end ar) then None
      else Some (top, ar\<lparr>ar_top := top + count * PAGE_SIZE\<rparr>))"

definition deallocate_list :: "arena \<Rightarrow> mem \<Rightarrow> laddr \<Rightarrow> usize \<Rightarrow> arena \<times> mem" where
  "deallocate_list ar m addr count =
     (let (next_addr, _, ident) = decompose (ar_head ar);
          m = m(addr := (m addr)(0 := next_addr, 1 := count));
          head = compose addr 0 (ident + 1)
      in (ar\<lparr>ar_head := head\<rparr>, m))"

definition allocate_list :: "arena \<Rightarrow> mem \<Rightarrow> usize \<Rightarrow> (laddr \<times> arena \<times> mem) option" where
  "allocate_list ar m count =
     (let (addr, _, ident) = decompose (ar_head ar) in
      if addr = 0 then None
      else if m addr 1 < count then None
      else
        (let rest = m addr 1 - count;
             next = m addr 0;
             nn = addr + count * PAGE_SIZE;
             ar = ar\<lparr>ar_head := compose next 0 (ident + 1)\<rparr>;
             (ar, m) = (if rest \<noteq> 0 then deallocate_list ar m nn rest else (ar, m))
         in Some (addr, ar, m)))"

definition zero_page :: "mem \<Rightarrow> laddr \<Rightarrow> mem" where
  "zero_page m addr = m(addr := (\<lambda>i. if i < NR_ENTRIES then 0 else m addr i))"

definition arena_allocate :: "arena \<Rightarrow> mem \<Rightarrow> usize \<Rightarrow> (laddr \<times> arena \<times> mem) option" where
  "arena_allocate ar m count =
     (case (case allocate_list ar m count of
              Some r \<Rightarrow> Some r
            | None \<Rightarrow> map_option (\<lambda>(addr, ar). (addr, ar, m)) (allocate_fresh ar count)) of
        None \<Rightarrow> None
      | Some (addr, ar, m) \<Rightarrow> Some (addr, ar\<lparr>ar_count := ar_count ar + count\<rparr>, zero_page m addr))"

definition arena_deallocate :: "arena \<Rightarrow> mem \<Rightarrow> laddr \<Rightarrow> usize \<Rightarrow> arena \<times> mem" where
  "arena_deallocate ar m addr count =
     (let (ar, m) = deallocate_list ar m addr count in (ar\<lparr>ar_count := ar_count ar - count\<rparr>, m))"

definition used_count :: "arena \<Rightarrow> usize" where
  "used_count ar = ar_count ar"

definition total_count :: "arena \<Rightarrow> usize" where
  "total_count ar = drop_bit PAGE_SHIFT (ar_end ar - ar_base ar)"

text \<open>\<open>PageAlloc for Arena\<close>: \<open>alloc\<close> unwraps the address as a non-null pointer.\<close>

definition arena_alloc :: "arena \<Rightarrow> mem \<Rightarrow> (laddr \<times> arena \<times> mem) option" where
  "arena_alloc ar m = arena_allocate ar m 1"

definition arena_dealloc :: "arena \<Rightarrow> mem \<Rightarrow> laddr \<Rightarrow> arena \<times> mem" where
  "arena_dealloc ar m ptr = arena_deallocate ar m ptr 1"

section \<open>The tagged head\<close>

definition page_aligned :: "laddr \<Rightarrow> bool" where
  "page_aligned a \<longleftrightarrow> a AND PAGE_MASK = 0"

lemma page_aligned_iff: "page_aligned a \<longleftrightarrow> 4096 dvd unat a"
proof -
  have "page_aligned a \<longleftrightarrow> unat (a AND mask 12) = 0" by (simp add: page_aligned_def PAGE_MASK_eq unat_zero_iff)
  then show ?thesis by (simp add: mask_unat mod_eq_0_iff_dvd)
qed

lemma page_aligned_low: "page_aligned a \<Longrightarrow> n < 12 \<Longrightarrow> \<not> bit a n"
  using bit_and_iff [of a "mask 12" n]
  by (simp add: page_aligned_def PAGE_MASK_eq bit_simps)

lemma COUNT_MASK_bit: "bit COUNT_MASK n \<longleftrightarrow> 5 \<le> n \<and> n < 12"
proof -
  have "COUNT_MASK = push_bit 5 (mask 7)"
    by (simp add: COUNT_MASK_def MAX_COUNT_def mask_eq_exp_minus_1)
  show ?thesis
    unfolding \<open>COUNT_MASK = push_bit 5 (mask 7)\<close> by (auto simp: bit_simps)
qed

lemma ID_MASK_eq: "ID_MASK = mask 5"
  by (simp add: ID_MASK_def mask_eq_exp_minus_1)

lemma decompose_compose:
  assumes "page_aligned addr" and "count < 128" and "ident < 32"
  shows "decompose (compose addr count ident) = (addr, count, ident)"
proof -
  have cnt: "\<not> bit count n" if "7 \<le> n" for n
    using that assms(2) by (intro small_word_no_bit [of _ 7]) (simp_all add: word_less_nat_alt)
  have idb: "\<not> bit ident n" if "5 \<le> n" for n
    using that assms(3) by (intro small_word_no_bit [of _ 5]) (simp_all add: word_less_nat_alt)
  note low = page_aligned_low [OF assms(1)]
  have c: "bit (compose addr count ident) n \<longleftrightarrow>
      (bit addr n \<and> 12 \<le> n) \<or> (5 \<le> n \<and> n < 12 \<and> bit count (n - 5)) \<or> (n < 5 \<and> bit ident n)"
    if "n < 64" for n
    using that cnt [of "n - 5"] idb [of n] low [of n]
    by (cases "n < 12") (auto simp: compose_def PAGE_MASK_eq ID_MASK_eq bit_simps)
  have "compose addr count ident AND NOT PAGE_MASK = addr"
    using low by (intro bit_word_eqI) (auto simp: bit_simps PAGE_MASK_eq c)
  moreover have "drop_bit 5 (compose addr count ident AND COUNT_MASK) = count"
  proof (rule bit_word_eqI)
    fix n assume "n < LENGTH(64)"
    then show "bit (drop_bit 5 (compose addr count ident AND COUNT_MASK)) n = bit count n"
      using cnt [of n] c [of "5 + n"] by (cases "n < 7") (auto simp: bit_simps COUNT_MASK_bit)
  qed
  moreover have "ucast (compose addr count ident AND ID_MASK) = ident"
  proof (rule bit_word_eqI)
    fix n assume "n < LENGTH(16)"
    then show "bit (ucast (compose addr count ident AND ID_MASK) :: u16) n = bit ident n"
      using idb [of n] c [of n] by (cases "n < 5") (auto simp: bit_simps ID_MASK_eq)
  qed
  ultimately show ?thesis by (simp add: decompose_def)
qed

lemma decompose_compose_addr: "page_aligned addr \<Longrightarrow> fst (decompose (compose addr 0 ident)) = addr"
proof -
  assume al: "page_aligned addr"
  have "compose addr 0 ident AND NOT PAGE_MASK = addr"
    using page_aligned_low [OF al]
    by (intro bit_word_eqI) (auto simp: compose_def PAGE_MASK_eq ID_MASK_eq bit_simps)
  then show ?thesis by (simp add: decompose_def)
qed

section \<open>The invariant\<close>

text \<open>
  Pages are numbered by \<open>pn\<close>. The free list is a list of blocks (address, number of pages); the
  pages the arena owns are those of the blocks and those from \<open>top\<close> on.
\<close>

definition pn :: "laddr \<Rightarrow> nat" where
  "pn a = unat a div 4096"

definition block_pages :: "laddr \<times> nat \<Rightarrow> nat list" where
  "block_pages b = [pn (fst b)..<pn (fst b) + snd b]"

fun chain :: "mem \<Rightarrow> laddr \<Rightarrow> (laddr \<times> nat) list \<Rightarrow> bool" where
  "chain m a [] = (a = 0)"
| "chain m a ((p, n) # bs) = (a = p \<and> p \<noteq> 0 \<and> page_aligned p \<and> n = unat (m p 1) \<and> 0 < n \<and> chain m (m p 0) bs)"

definition free_list :: "(laddr \<times> nat) list \<Rightarrow> nat list" where
  "free_list bs = concat (map block_pages bs)"

definition free_pages :: "arena \<Rightarrow> (laddr \<times> nat) list \<Rightarrow> nat set" where
  "free_pages ar bs = set (free_list bs) \<union> {pn (ar_top ar)..<pn (ar_end ar)}"

definition arena_ok :: "arena \<Rightarrow> mem \<Rightarrow> (laddr \<times> nat) list \<Rightarrow> bool" where
  "arena_ok ar m bs \<longleftrightarrow>
     page_aligned (ar_base ar) \<and> page_aligned (ar_top ar) \<and> page_aligned (ar_end ar)
     \<and> 0 < ar_base ar \<and> ar_base ar \<le> ar_top ar \<and> ar_top ar \<le> ar_end ar
     \<and> chain m (fst (decompose (ar_head ar))) bs
     \<and> set (free_list bs) \<subseteq> {pn (ar_base ar)..<pn (ar_top ar)}
     \<and> distinct (free_list bs)"

lemma free_list_simps [simp]:
  "free_list [] = []"
  "free_list ((p, n) # bs) = [pn p..<pn p + n] @ free_list bs"
  by (simp_all add: free_list_def block_pages_def)

lemma page_aligned_unat: "page_aligned a \<Longrightarrow> unat a = pn a * 4096"
  by (auto simp: page_aligned_iff pn_def)

lemma pn_inj: "page_aligned a \<Longrightarrow> page_aligned b \<Longrightarrow> pn a = pn b \<Longrightarrow> a = b"
  by (simp add: word_unat_eq_iff page_aligned_unat)

lemma pn_lt: "pn a < 2 ^ 52"
  using usize_lt [of a] by (simp add: pn_def)

lemma pn_0 [simp]: "pn 0 = 0"
  by (simp add: pn_def)

text \<open>Address arithmetic in pages, when it does not wrap.\<close>

lemma unat_page_mult:
  "n < 2 ^ 52 \<Longrightarrow> unat (of_nat n * PAGE_SIZE) = n * 4096"
  by (simp add: PAGE_SIZE_def unat_word_ariths unat_of_nat)

lemma page_add:
  assumes "page_aligned a" "pn a + n < 2 ^ 52"
  shows "page_aligned (a + of_nat n * PAGE_SIZE)" "pn (a + of_nat n * PAGE_SIZE) = pn a + n"
    "unat (a + of_nat n * PAGE_SIZE) = (pn a + n) * 4096"
proof -
  have u: "unat (of_nat n * PAGE_SIZE) = n * 4096" using assms(2) by (intro unat_page_mult) simp
  show s: "unat (a + of_nat n * PAGE_SIZE) = (pn a + n) * 4096"
    using unat_add_no_overflow [of a "of_nat n * PAGE_SIZE"] assms(2)
    unfolding u page_aligned_unat [OF assms(1)] by simp
  show "page_aligned (a + of_nat n * PAGE_SIZE)" unfolding page_aligned_iff s by simp
  show "pn (a + of_nat n * PAGE_SIZE) = pn a + n" unfolding pn_def s by simp
qed

text \<open>The chain reads only the pages that start a block.\<close>

lemma chain_frame:
  "chain m a bs \<Longrightarrow> (\<forall>p. page_aligned p \<and> pn p \<in> set (free_list bs) \<longrightarrow> m' p = m p) \<Longrightarrow> chain m' a bs"
  by (induction m a bs rule: chain.induct) auto

lemma chain_unique: "chain m a bs \<Longrightarrow> chain m a bs' \<Longrightarrow> bs = bs'"
proof (induction m a bs arbitrary: bs' rule: chain.induct)
  case (1 m a)
  then show ?case by (cases bs') auto
next
  case (2 m a p n bs)
  from 2(2) have p: "a = p" "p \<noteq> 0" "n = unat (m p 1)" "chain m (m p 0) bs" by simp_all
  with 2(3) obtain n' bs'' where bs': "bs' = (p, n') # bs''" by (cases bs') auto
  with 2(3) p have "n' = n" "chain m (m p 0) bs''" by simp_all
  with 2(1) p(4) bs' show ?case by blast
qed

section \<open>The operations\<close>

lemma arena_ok_base_pos: "arena_ok ar m bs \<Longrightarrow> 0 < pn (ar_base ar)"
  by (cases "pn (ar_base ar) = 0")
    (auto simp: arena_ok_def word_less_nat_alt page_aligned_unat)

lemma deallocate_list_ok:
  assumes ok: "arena_ok ar m bs" and al: "page_aligned p" and n: "0 < count"
    and rng: "{pn p..<pn p + unat count} \<subseteq> {pn (ar_base ar)..<pn (ar_top ar)}"
    and dj: "{pn p..<pn p + unat count} \<inter> set (free_list bs) = {}"
    and eq: "deallocate_list ar m p count = (ar', m')"
  shows "arena_ok ar' m' ((p, unat count) # bs)" and "\<exists>h. ar' = ar\<lparr>ar_head := h\<rparr>"
    and "q \<noteq> p \<Longrightarrow> m' q = m q"
proof -
  let ?nx = "fst (decompose (ar_head ar))"
  have un: "0 < unat count" using n by (simp add: word_less_nat_alt)
  have m': "m' = m(p := (m p)(0 := ?nx, 1 := count))"
    and ar': "ar' = ar\<lparr>ar_head := compose p 0 (snd (snd (decompose (ar_head ar))) + 1)\<rparr>"
    using eq by (simp_all add: deallocate_list_def split_beta Let_def)
  show "\<exists>h. ar' = ar\<lparr>ar_head := h\<rparr>" using ar' by blast
  show "q \<noteq> p \<Longrightarrow> m' q = m q" by (simp add: m')
  have ppos: "p \<noteq> 0"
    using rng un arena_ok_base_pos [OF ok] by (auto simp: subset_iff)
  have "pn p \<in> {pn p..<pn p + unat count}" using un by simp
  with dj have "pn p \<notin> set (free_list bs)" by blast
  then have "\<forall>q. page_aligned q \<and> pn q \<in> set (free_list bs) \<longrightarrow> m' q = m q" by (auto simp: m')
  moreover have "chain m ?nx bs" using ok by (simp add: arena_ok_def)
  ultimately have "chain m' ?nx bs" by (blast intro: chain_frame)
  with ppos al un have "chain m' p ((p, unat count) # bs)" by (simp add: m')
  with ok rng dj al show "arena_ok ar' m' ((p, unat count) # bs)"
    by (auto simp: arena_ok_def ar' decompose_compose_addr)
qed

lemma allocate_list_ok:
  assumes ok: "arena_ok ar m bs" and n: "0 < count" and eq: "allocate_list ar m count = Some (p, ar', m')"
  shows "page_aligned p" and "{pn p..<pn p + unat count} \<subseteq> set (free_list bs)"
    and "\<exists>bs'. arena_ok ar' m' bs' \<and> set (free_list bs') = set (free_list bs) - {pn p..<pn p + unat count}"
    and "\<exists>h. ar' = ar\<lparr>ar_head := h\<rparr>"
    and "page_aligned q \<Longrightarrow> pn q \<notin> set (free_list bs) \<Longrightarrow> m' q = m q"
proof -
  have head: "fst (decompose (ar_head ar)) = p" and p0: "p \<noteq> 0" and le: "count \<le> m p 1"
    using eq by (auto simp: allocate_list_def split_beta Let_def split: if_splits)
  have ch: "chain m p bs" using ok head by (simp add: arena_ok_def)
  obtain n bs0 where bs: "bs = (p, n) # bs0" and nn: "n = unat (m p 1)" and ch0: "chain m (m p 0) bs0"
    and al: "page_aligned p"
    using ch p0 by (cases bs) auto
  have len: "unat count \<le> n" using le nn by (simp add: word_le_nat_alt)
  show "page_aligned p" by (rule al)
  show "{pn p..<pn p + unat count} \<subseteq> set (free_list bs)" using len bs by auto
  define ar1 where "ar1 = ar\<lparr>ar_head := compose (m p 0) 0 (snd (snd (decompose (ar_head ar))) + 1)\<rparr>"
  have "page_aligned (m p 0)" using ch0 by (cases bs0) (auto simp: page_aligned_def)
  then have ok1: "arena_ok ar1 m bs0"
    using ok ch0 bs by (auto simp: arena_ok_def ar1_def decompose_compose_addr)
  have dist: "distinct ([pn p..<pn p + n] @ free_list bs0)" using ok unfolding bs arena_ok_def free_list_simps by blast
  have urest: "unat (m p 1 - count) = n - unat count" using le nn by (simp add: unat_sub_no_underflow)
  have eq1: "(if m p 1 - count \<noteq> 0 then deallocate_list ar1 m (p + count * PAGE_SIZE) (m p 1 - count) else (ar1, m)) = (ar', m')"
    using eq head p0 le by (auto simp: allocate_list_def split_beta Let_def ar1_def not_less prod_eq_iff split: if_splits)
  show "\<exists>bs'. arena_ok ar' m' bs' \<and> set (free_list bs') = set (free_list bs) - {pn p..<pn p + unat count}"
    and "\<exists>h. ar' = ar\<lparr>ar_head := h\<rparr>"
    and "page_aligned q \<Longrightarrow> pn q \<notin> set (free_list bs) \<Longrightarrow> m' q = m q"
  proof -
    consider "m p 1 - count = 0" "n = unat count" | "m p 1 - count \<noteq> 0" "unat count < n"
      using urest len by (cases "m p 1 - count = 0") (auto simp: unat_zero_iff [symmetric])
    then have "(\<exists>bs'. arena_ok ar' m' bs' \<and> set (free_list bs') = set (free_list bs) - {pn p..<pn p + unat count})
      \<and> (\<exists>h. ar' = ar\<lparr>ar_head := h\<rparr>)
      \<and> (page_aligned q \<longrightarrow> pn q \<notin> set (free_list bs) \<longrightarrow> m' q = m q)"
    proof cases
      case 1
      with eq1 have "ar' = ar1" "m' = m" by simp_all
      moreover have "set (free_list bs0) = set (free_list bs) - {pn p..<pn p + unat count}"
        using dist bs 1(2) by auto
      ultimately show ?thesis using ok1 by (auto simp: ar1_def)
    next
      case 2
      have rngn: "{pn p..<pn p + n} \<subseteq> {pn (ar_base ar)..<pn (ar_top ar)}"
        using ok bs by (auto simp: arena_ok_def)
      then have "pn p + n - 1 < pn (ar_top ar)" using 2 by (auto simp: subset_iff)
      then have lt: "pn p + unat count < 2 ^ 52" using pn_lt [of "ar_top ar"] 2 by linarith
      note nb = page_add [OF al lt, simplified]
      have pages: "{pn p + unat count..<pn p + unat count + unat (m p 1 - count)} = {pn p + unat count..<pn p + n}"
        using urest 2 by simp
      have eq2: "deallocate_list ar1 m (p + count * PAGE_SIZE) (m p 1 - count) = (ar', m')"
        using eq1 2 by simp
      have rng1: "{pn (p + count * PAGE_SIZE)..<pn (p + count * PAGE_SIZE) + unat (m p 1 - count)}
          \<subseteq> {pn (ar_base ar1)..<pn (ar_top ar1)}"
        unfolding nb pages using rngn by (auto simp: ar1_def)
      have dj1: "{pn (p + count * PAGE_SIZE)..<pn (p + count * PAGE_SIZE) + unat (m p 1 - count)}
          \<inter> set (free_list bs0) = {}"
        unfolding nb pages using dist by (fastforce simp: disjoint_iff)
      have cnt: "0 < m p 1 - count" 
        unfolding word_less_nat_alt urest using 2(2) by simp
      note d = deallocate_list_ok [OF ok1 nb(1) cnt rng1 dj1 eq2]
      have "set (free_list ((p + count * PAGE_SIZE, unat (m p 1 - count)) # bs0))
          = set (free_list bs) - {pn p..<pn p + unat count}"
        unfolding free_list_simps bs set_append set_upt nb pages using dist len
        by (fastforce simp: disjoint_iff)
      moreover have "q \<noteq> p + count * PAGE_SIZE" if "pn q \<notin> set (free_list bs)"
        using that nb 2 bs by auto
      ultimately show ?thesis using d ar1_def by auto
    qed
    then show "\<exists>bs'. arena_ok ar' m' bs' \<and> set (free_list bs') = set (free_list bs) - {pn p..<pn p + unat count}"
      and "\<exists>h. ar' = ar\<lparr>ar_head := h\<rparr>"
      and "page_aligned q \<Longrightarrow> pn q \<notin> set (free_list bs) \<Longrightarrow> m' q = m q"
      by blast+
  qed
qed

lemma allocate_fresh_ok:
  assumes ok: "arena_ok ar m bs" and n: "0 < count" and lim: "pn (ar_top ar) + unat count \<le> 2 ^ 52"
    and eq: "allocate_fresh ar count = Some (p, ar')"
  shows "page_aligned p" and "{pn p..<pn p + unat count} \<subseteq> {pn (ar_top ar)..<pn (ar_end ar)}"
    and "arena_ok ar' m bs"
    and "{pn (ar_top ar')..<pn (ar_end ar')} = {pn (ar_top ar)..<pn (ar_end ar)} - {pn p..<pn p + unat count}"
    and "\<exists>t. ar' = ar\<lparr>ar_top := t\<rparr>" and "pn (ar_base ar) \<le> pn p"
proof -
  let ?fin = "ar_top ar + (count - 1) * PAGE_SIZE"
  have p: "p = ar_top ar" and ar': "ar' = ar\<lparr>ar_top := ar_top ar + count * PAGE_SIZE\<rparr>" and lt: "?fin < ar_end ar"
    using eq by (auto simp: allocate_fresh_def Let_def split: if_splits)
  have al: "page_aligned (ar_top ar)" "page_aligned (ar_end ar)" "page_aligned (ar_base ar)"
    and le: "ar_base ar \<le> ar_top ar" "ar_top ar \<le> ar_end ar"
    using ok by (simp_all add: arena_ok_def)
  have un: "unat (count - 1) = unat count - 1" "0 < unat count"
    using n by (simp_all add: unat_sub_no_underflow word_less_nat_alt word_le_nat_alt)
  have "pn (ar_top ar) + unat (count - 1) < 2 ^ 52" using lim un by linarith
  from page_add [OF al(1) this] have fin: "unat ?fin = (pn (ar_top ar) + unat (count - 1)) * 4096" by simp
  have "unat ?fin < pn (ar_end ar) * 4096"
    using lt page_aligned_unat [OF al(2)] by (simp add: word_less_nat_alt)
  with fin un have le2: "pn (ar_top ar) + unat count \<le> pn (ar_end ar)" by simp
  then have "pn (ar_top ar) + unat count < 2 ^ 52" using pn_lt [of "ar_end ar"] by linarith
  note nx = page_add [OF al(1) this, simplified]
  show "page_aligned p" using al p by simp
  show "{pn p..<pn p + unat count} \<subseteq> {pn (ar_top ar)..<pn (ar_end ar)}" using le2 p by auto
  show "{pn (ar_top ar')..<pn (ar_end ar')} = {pn (ar_top ar)..<pn (ar_end ar)} - {pn p..<pn p + unat count}"
    using nx le2 by (auto simp: ar' p)
  show "\<exists>t. ar' = ar\<lparr>ar_top := t\<rparr>" using ar' by blast
  show b: "pn (ar_base ar) \<le> pn p" using le(1) p by (simp add: pn_def word_le_nat_alt div_le_mono)
  have "ar_base ar \<le> ar_top ar'" "ar_top ar' \<le> ar_end ar"
    using nx le2 le by (simp_all add: ar' word_le_nat_alt page_aligned_unat al)
  then show "arena_ok ar' m bs"
    using ok nx by (fastforce simp: arena_ok_def ar')
qed

lemma zero_page_other: "q \<noteq> p \<Longrightarrow> zero_page m p q = m q"
  by (simp add: zero_page_def)

lemma zero_page_same: "i < 512 \<Longrightarrow> zero_page m p p i = 0"
  by (simp add: zero_page_def NR_ENTRIES_def)

lemma arena_ok_frame:
  "arena_ok ar m bs \<Longrightarrow> (\<forall>p. page_aligned p \<and> pn p \<in> set (free_list bs) \<longrightarrow> m' p = m p) \<Longrightarrow> arena_ok ar m' bs"
  using chain_frame by (auto simp: arena_ok_def)

lemma arena_ok_count: "arena_ok (ar\<lparr>ar_count := c\<rparr>) m bs \<longleftrightarrow> arena_ok ar m bs"
  by (simp add: arena_ok_def)

lemma free_pages_count: "free_pages (ar\<lparr>ar_count := c\<rparr>) bs = free_pages ar bs"
  by (simp add: free_pages_def)

lemma arena_ok_lists_below_top:
  "arena_ok ar m bs \<Longrightarrow> set (free_list bs) \<inter> {pn (ar_top ar)..<pn (ar_end ar)} = {}"
  by (auto simp: arena_ok_def)

lemma arena_allocate_ok:
  assumes ok: "arena_ok ar m bs" and n: "0 < count" and lim: "pn (ar_top ar) + unat count \<le> 2 ^ 52"
    and eq: "arena_allocate ar m count = Some (p, ar', m')"
  shows "page_aligned p" and "{pn p..<pn p + unat count} \<subseteq> free_pages ar bs"
    and "\<exists>bs'. arena_ok ar' m' bs' \<and> free_pages ar' bs' = free_pages ar bs - {pn p..<pn p + unat count}"
    and "i < 512 \<Longrightarrow> m' p i = 0"
    and "page_aligned q \<Longrightarrow> pn q \<notin> free_pages ar bs \<Longrightarrow> m' q = m q"
    and "ar_base ar' = ar_base ar" and "ar_end ar' = ar_end ar"
proof -
  obtain ar1 m1 where
    cases: "allocate_list ar m count = Some (p, ar1, m1)
      \<or> (allocate_fresh ar count = Some (p, ar1) \<and> m1 = m)"
    and ar': "ar' = ar1\<lparr>ar_count := ar_count ar1 + count\<rparr>" and m': "m' = zero_page m1 p"
    using eq by (auto simp: arena_allocate_def split: option.splits)
  have pin: "pn p \<in> {pn p..<pn p + unat count}" using n by (simp add: word_less_nat_alt)
  have main: "page_aligned p \<and> {pn p..<pn p + unat count} \<subseteq> free_pages ar bs
    \<and> (\<exists>bs'. arena_ok ar1 m1 bs' \<and> free_pages ar1 bs' = free_pages ar bs - {pn p..<pn p + unat count})
    \<and> (page_aligned q \<longrightarrow> pn q \<notin> free_pages ar bs \<longrightarrow> m1 q = m q)
    \<and> ar_base ar1 = ar_base ar \<and> ar_end ar1 = ar_end ar"
    using cases
  proof
    assume al: "allocate_list ar m count = Some (p, ar1, m1)"
    note l = allocate_list_ok [OF ok n al]
    have "{pn p..<pn p + unat count} \<inter> {pn (ar_top ar)..<pn (ar_end ar)} = {}"
      using l(2) arena_ok_lists_below_top [OF ok] by blast
    with l show ?thesis by (fastforce simp: free_pages_def)
  next
    assume "allocate_fresh ar count = Some (p, ar1) \<and> m1 = m"
    then have fr: "allocate_fresh ar count = Some (p, ar1)" and m1: "m1 = m" by simp_all
    note f = allocate_fresh_ok [OF ok n lim fr]
    have "{pn p..<pn p + unat count} \<inter> set (free_list bs) = {}"
      using f(2) arena_ok_lists_below_top [OF ok] by blast
    moreover have "ar_base ar1 = ar_base ar" "ar_end ar1 = ar_end ar" using f(5) by auto
    ultimately show ?thesis
      using f m1 by (intro conjI exI [of _ bs]) (auto simp: free_pages_def)
  qed
  then obtain bs' where bs': "arena_ok ar1 m1 bs'" "free_pages ar1 bs' = free_pages ar bs - {pn p..<pn p + unat count}"
    by blast
  show "page_aligned p" "{pn p..<pn p + unat count} \<subseteq> free_pages ar bs" using main by auto
  have "pn p \<notin> free_pages ar1 bs'" using bs'(2) pin by blast
  then have "\<forall>q. page_aligned q \<and> pn q \<in> set (free_list bs') \<longrightarrow> m' q = m1 q"
    by (auto simp: m' zero_page_def free_pages_def)
  with bs'(1) have "arena_ok ar1 m' bs'" by (rule arena_ok_frame)
  with bs'(2) show "\<exists>bs'. arena_ok ar' m' bs' \<and> free_pages ar' bs' = free_pages ar bs - {pn p..<pn p + unat count}"
    by (auto simp: ar' arena_ok_count free_pages_count)
  show "i < 512 \<Longrightarrow> m' p i = 0" by (simp add: m' zero_page_same)
  show "ar_base ar' = ar_base ar" "ar_end ar' = ar_end ar" using main by (simp_all add: ar')
  show "m' q = m q" if "page_aligned q" "pn q \<notin> free_pages ar bs"
  proof -
    have "q \<noteq> p" using that(2) main pin by blast
    then show ?thesis using main that by (simp add: m' zero_page_other)
  qed
qed

lemma arena_deallocate_ok:
  assumes ok: "arena_ok ar m bs" and al: "page_aligned p" and n: "0 < count"
    and rng: "{pn p..<pn p + unat count} \<subseteq> {pn (ar_base ar)..<pn (ar_top ar)}"
    and dj: "{pn p..<pn p + unat count} \<inter> free_pages ar bs = {}"
    and eq: "arena_deallocate ar m p count = (ar', m')"
  shows "arena_ok ar' m' ((p, unat count) # bs)"
    and "free_pages ar' ((p, unat count) # bs) = free_pages ar bs \<union> {pn p..<pn p + unat count}"
    and "q \<noteq> p \<Longrightarrow> m' q = m q" and "ar_base ar' = ar_base ar" and "ar_end ar' = ar_end ar"
    and "ar_top ar' = ar_top ar"
proof -
  obtain ar1 where d: "deallocate_list ar m p count = (ar1, m')" and ar': "ar' = ar1\<lparr>ar_count := ar_count ar1 - count\<rparr>"
    using eq by (auto simp: arena_deallocate_def split_beta Let_def prod_eq_iff)
  have dj': "{pn p..<pn p + unat count} \<inter> set (free_list bs) = {}" using dj by (auto simp: free_pages_def)
  note dl = deallocate_list_ok [OF ok al n rng dj' d]
  show "arena_ok ar' m' ((p, unat count) # bs)" using dl(1) by (simp add: ar' arena_ok_count)
  show "q \<noteq> p \<Longrightarrow> m' q = m q" by (rule dl(3))
  from dl(2) show "ar_base ar' = ar_base ar" "ar_end ar' = ar_end ar" "ar_top ar' = ar_top ar"
    by (auto simp: ar')
  then show "free_pages ar' ((p, unat count) # bs) = free_pages ar bs \<union> {pn p..<pn p + unat count}"
    by (auto simp: free_pages_def)
qed

text \<open>The list and the fresh pages together are exhausted exactly when a single page is refused.\<close>

lemma arena_alloc_None_iff:
  assumes ok: "arena_ok ar m bs"
  shows "arena_alloc ar m = None \<longleftrightarrow> free_pages ar bs = {}"
proof -
  have al: "page_aligned (ar_top ar)" "page_aligned (ar_end ar)" and le: "ar_base ar \<le> ar_top ar" "ar_top ar \<le> ar_end ar"
    and ch: "chain m (fst (decompose (ar_head ar))) bs"
    using ok by (simp_all add: arena_ok_def)
  have fresh: "allocate_fresh ar 1 = None \<longleftrightarrow> {pn (ar_top ar)..<pn (ar_end ar)} = {}"
  proof -
    have "ar_top ar < ar_end ar \<longleftrightarrow> pn (ar_top ar) < pn (ar_end ar)"
      by (simp add: word_less_nat_alt page_aligned_unat al)
    then show ?thesis using le(1) by (auto simp: allocate_fresh_def Let_def)
  qed
  show ?thesis
  proof (cases bs)
    case Nil
    then have "allocate_list ar m 1 = None" using ch by (simp add: allocate_list_def split_beta Let_def)
    with Nil fresh show ?thesis
      by (cases "allocate_fresh ar 1") (simp_all add: arena_alloc_def arena_allocate_def free_pages_def split_beta)
  next
    case (Cons b bs0)
    obtain p n where b: "b = (p, n)" by (cases b)
    with ch Cons have p: "fst (decompose (ar_head ar)) = p" "p \<noteq> 0" and n: "0 < n" "n = unat (m p 1)" by auto
    have "m p 1 \<noteq> 0" using n by auto
    then have "allocate_list ar m 1 \<noteq> None"
      using p by (simp add: allocate_list_def split_beta Let_def not_less)
    moreover have "free_pages ar bs \<noteq> {}" using n by (simp add: free_pages_def Cons b)
    ultimately show ?thesis
      by (auto simp: arena_alloc_def arena_allocate_def split: option.splits)
  qed
qed

section \<open>Properties\<close>

text \<open>
  C7: \<open>alloc\<close> hands out a page exactly when the arena still owns one. The page is aligned and
  zeroed, it leaves the set of free pages, the invariant of the list threaded through the free pages
  is kept, and no page outside the arena is written.
\<close>

theorem arena_alloc_spec:
  assumes ok: "arena_ok ar m bs"
  shows "case arena_alloc ar m of
      None \<Rightarrow> free_pages ar bs = {}
    | Some (p, ar', m') \<Rightarrow> page_aligned p \<and> pn p \<in> free_pages ar bs \<and> (\<forall>i < 512. m' p i = 0)
        \<and> (\<exists>bs'. arena_ok ar' m' bs' \<and> free_pages ar' bs' = free_pages ar bs - {pn p})
        \<and> (\<forall>q. page_aligned q \<and> pn q \<notin> free_pages ar bs \<longrightarrow> m' q = m q)"
proof (cases "arena_alloc ar m")
  case None
  then show ?thesis using arena_alloc_None_iff [OF ok] by simp
next
  case (Some r)
  obtain p ar' m' where r: "r = (p, ar', m')" by (cases r)
  have lim: "pn (ar_top ar) + unat (1 :: usize) \<le> 2 ^ 52" using pn_lt [of "ar_top ar"] by simp
  have n: "0 < (1 :: usize)" by simp
  have one: "{pn p..<pn p + unat (1 :: usize)} = {pn p}" by auto
  have "arena_allocate ar m 1 = Some (p, ar', m')" using Some r by (simp add: arena_alloc_def)
  note a = arena_allocate_ok [OF ok n lim this, unfolded one]
  from a(2) have "pn p \<in> free_pages ar bs" by simp
  moreover have "\<exists>bs'. arena_ok ar' m' bs' \<and> free_pages ar' bs' = free_pages ar bs - {pn p}"
    by (rule a(3))
  ultimately show ?thesis unfolding Some r using a(1,4,5) by simp
qed

text \<open>An arena of three pages of which the second is on the free list.\<close>

definition arena_example :: arena where
  "arena_example = \<lparr>ar_head = 0x2000, ar_top = 0x3000, ar_base = 0x1000, ar_end = 0x4000, ar_count = 1\<rparr>"

definition arena_example_mem :: mem where
  "arena_example_mem = (\<lambda>p i. if i = 1 then 1 else 0)"

lemma arena_example_ok: "arena_ok arena_example arena_example_mem [(0x2000, 1)]"
  by (simp add: arena_ok_def arena_example_def arena_example_mem_def decompose_def page_aligned_def
      PAGE_MASK_def PAGE_SIZE_def pn_def)

theorem arena_alloc_spec_witness:
  "case arena_alloc arena_example arena_example_mem of
      None \<Rightarrow> False
    | Some (p, ar', m') \<Rightarrow> page_aligned p \<and> pn p \<in> {2, 3} \<and> (\<forall>i < 512. m' p i = 0)"
proof -
  have fp: "free_pages arena_example [(0x2000, 1)] = {2, 3}"
    by (auto simp: free_pages_def arena_example_def pn_def)
  show ?thesis
    using arena_alloc_spec [OF arena_example_ok] unfolding fp by (auto split: option.splits)
qed

text \<open>
  A block given back to the arena joins the free pages and nothing else does; the only page
  written is the first page of the block, which holds its list node.
\<close>

theorem arena_deallocate_spec:
  assumes "arena_ok ar m bs" and "page_aligned p" and "0 < count"
    and "{pn p..<pn p + unat count} \<subseteq> {pn (ar_base ar)..<pn (ar_top ar)}"
    and "{pn p..<pn p + unat count} \<inter> free_pages ar bs = {}"
    and "arena_deallocate ar m p count = (ar', m')"
  shows "\<exists>bs'. arena_ok ar' m' bs' \<and> free_pages ar' bs' = free_pages ar bs \<union> {pn p..<pn p + unat count}
    \<and> (\<forall>q. q \<noteq> p \<longrightarrow> m' q = m q)"
  using arena_deallocate_ok [OF assms] by blast

theorem arena_deallocate_spec_witness:
  "\<exists>ar' m' bs'. arena_deallocate arena_example arena_example_mem 0x1000 1 = (ar', m')
     \<and> arena_ok ar' m' bs' \<and> free_pages ar' bs' = {1, 2, 3}"
proof -
  have fp: "free_pages arena_example [(0x2000, 1)] = {2, 3}"
    by (auto simp: free_pages_def arena_example_def pn_def)
  obtain ar' m' where eq: "arena_deallocate arena_example arena_example_mem 0x1000 1 = (ar', m')"
    by (cases "arena_deallocate arena_example arena_example_mem 0x1000 1")
  have "page_aligned 0x1000" "0 < (1 :: usize)" by (simp_all add: page_aligned_def PAGE_MASK_def PAGE_SIZE_def)
  moreover have "{pn 0x1000..<pn 0x1000 + unat (1 :: usize)} = {1}" by (auto simp: pn_def)
  moreover have "{pn (ar_base arena_example)..<pn (ar_top arena_example)} = {1, 2}"
    by (auto simp: arena_example_def pn_def)
  ultimately have "\<exists>bs'. arena_ok ar' m' bs' \<and> free_pages ar' bs' = {2, 3} \<union> {1} \<and> (\<forall>q. q \<noteq> 0x1000 \<longrightarrow> m' q = arena_example_mem q)"
    using arena_deallocate_spec [OF arena_example_ok, of "0x1000" 1 ar' m'] eq fp by simp
  then show ?thesis using eq by (metis insert_is_Un Un_commute)
qed

end
