(* ===== verification/PageTable.thy ===== *)
theory PageTable
  imports Frame
begin

text \<open>
  \<^verbatim>\<open>mizu/lib/paging/src/entry.rs\<close>: the operations of \<open>Entry\<close> and \<open>Table\<close> that follow pointers. A table
  is a page of memory and a \<open>&mut Entry\<close> is the pair of the linear address of its table and an index
  below 512. The \<open>PageAlloc\<close> is a pair of parameters, \<open>alloc\<close> and \<open>dealloc\<close>, on a state \<open>'a\<close>; both
  receive the memory, since an allocator may keep its data in the free pages.
\<close>

section \<open>Entries that point to tables\<close>

type_synonym pte_ptr = "laddr \<times> nat"

type_synonym 'a alloc_fn = "'a \<Rightarrow> mem \<Rightarrow> (laddr \<times> 'a \<times> mem) option"
type_synonym 'a dealloc_fn = "'a \<Rightarrow> mem \<Rightarrow> laddr \<Rightarrow> 'a \<times> mem"

definition read_pte :: "mem \<Rightarrow> pte_ptr \<Rightarrow> pt_entry" where
  "read_pte m p = m (fst p) (snd p)"

definition write_pte :: "mem \<Rightarrow> pte_ptr \<Rightarrow> pt_entry \<Rightarrow> mem" where
  "write_pte m p e = m(fst p := (m (fst p))(snd p := e))"

definition entry_reset :: "mem \<Rightarrow> pte_ptr \<Rightarrow> mem" where
  "entry_reset m p = write_pte m p 0"

definition table_or_create ::
    "'a alloc_fn \<Rightarrow> usize \<Rightarrow> pte_ptr \<Rightarrow> level \<Rightarrow> 'a \<Rightarrow> mem \<Rightarrow> (pt_error + laddr) \<times> 'a \<times> mem" where
  "table_or_create alloc id_off p l a m =
     (let (addr, attr) = entry_get (read_pte m p) 0 in
      if \<not> has_table attr \<or> l = 0 then (Inl (EntryExistent True), a, m)
      else if attr_contains attr VALID then (Inr (to_laddr addr id_off), a, m)
      else (case alloc a m of
          None \<Rightarrow> (Inl OutOfMemory, a, m)
        | Some (ptr, a, m) \<Rightarrow>
            (Inr ptr, a, write_pte m p (entry_new (to_paddr ptr id_off) VALID 0))))"

definition table_or_split ::
    "'a alloc_fn \<Rightarrow> pte_ptr \<Rightarrow> level \<Rightarrow> 'a \<Rightarrow> mem \<Rightarrow> (pt_error + laddr) \<times> 'a \<times> mem" where
  "table_or_split alloc p l a m =
     (let (addr, attr) = entry_get (read_pte m p) 0 in
      if \<not> attr_contains attr VALID \<or> l = 0 then (Inl (EntryExistent False), a, m)
      else if has_table attr then (Inr (to_laddr addr ID_OFFSET), a, m)
      else (case alloc a m of
          None \<Rightarrow> (Inl OutOfMemory, a, m)
        | Some (ptr, a, m) \<Rightarrow>
            (let m = m(ptr := (\<lambda>n. if n < NR_ENTRIES
                               then entry_new (addr + of_nat n * PAGE_SIZE) attr (l - 1) else m ptr n))
             in (Inr ptr, a, write_pte m p (entry_new (to_paddr ptr ID_OFFSET) VALID 0)))))"

text \<open>\<open>drop_fn\<close> is the closure \<open>drop\<close> that destroys the contents of the next table.\<close>

definition entry_destroy ::
    "'a dealloc_fn \<Rightarrow> usize \<Rightarrow> (laddr \<Rightarrow> 'a \<Rightarrow> mem \<Rightarrow> bool \<times> 'a \<times> mem) \<Rightarrow> pte_ptr \<Rightarrow> level \<Rightarrow> 'a \<Rightarrow> mem
     \<Rightarrow> bool \<times> 'a \<times> mem" where
  "entry_destroy dealloc id_off drop_fn p l a m =
     (let (addr, attr) = entry_get (read_pte m p) 0 in
      if attr_contains attr VALID then
        (if l \<noteq> 0 \<and> has_table attr then
           (let table = to_laddr addr id_off;
                (is_empty, a, m) = drop_fn table a m
            in if is_empty
               then (let (a, m) = dealloc a (entry_reset m p) table in (is_empty, a, m))
               else (is_empty, a, m))
         else (True, a, entry_reset m p))
      else (True, a, m))"

section \<open>Walking\<close>

fun la2pte_from :: "mem \<Rightarrow> usize \<Rightarrow> laddr \<Rightarrow> level list \<Rightarrow> laddr \<Rightarrow> pt_error + pte_ptr" where
  "la2pte_from m id_off la [] t = Inr (t, addr_idx 0 la False)"
| "la2pte_from m id_off la (l # ls) t =
     (case entry_table (read_pte m (t, addr_idx l la False)) l id_off of
        None \<Rightarrow> Inl (EntryExistent False)
      | Some tb \<Rightarrow> la2pte_from m id_off la ls tb)"

definition la2pte :: "mem \<Rightarrow> laddr \<Rightarrow> laddr \<Rightarrow> usize \<Rightarrow> pt_error + pte_ptr" where
  "la2pte m table la id_off = la2pte_from m id_off la [2, 1] table"

fun la2pte_alloc_from ::
    "'a alloc_fn \<Rightarrow> usize \<Rightarrow> laddr \<Rightarrow> level list \<Rightarrow> laddr \<Rightarrow> 'a \<Rightarrow> mem \<Rightarrow> (pt_error + pte_ptr) \<times> 'a \<times> mem" where
  "la2pte_alloc_from alloc id_off la [] t a m = (Inr (t, addr_idx 0 la False), a, m)"
| "la2pte_alloc_from alloc id_off la (l # ls) t a m =
     (case table_or_create alloc id_off (t, addr_idx l la False) l a m of
        (Inl e, a, m) \<Rightarrow> (Inl e, a, m)
      | (Inr tb, a, m) \<Rightarrow> la2pte_alloc_from alloc id_off la ls tb a m)"

definition la2pte_alloc ::
    "'a alloc_fn \<Rightarrow> laddr \<Rightarrow> laddr \<Rightarrow> usize \<Rightarrow> 'a \<Rightarrow> mem \<Rightarrow> (pt_error + pte_ptr) \<times> 'a \<times> mem" where
  "la2pte_alloc alloc table la id_off a m = la2pte_alloc_from alloc id_off la [2, 1] table a m"

definition la2pa :: "mem \<Rightarrow> laddr \<Rightarrow> laddr \<Rightarrow> bool \<Rightarrow> usize \<Rightarrow> pt_error + paddr" where
  "la2pa m table la is_kernel id_off =
     (if la \<ge> BLANK_BEGIN \<and> la \<le> BLANK_END then Inl PermissionDenied
      else (case la2pte m table la id_off of
          Inl e \<Rightarrow> Inl e
        | Inr p \<Rightarrow>
            (let (pa, attr) = entry_get (read_pte m p) 0 in
             if attr_contains attr VALID
             then (if attr_contains attr USER_ACCESS \<or> is_kernel then Inr pa else Inl PermissionDenied)
             else Inl (EntryExistent False))))"

section \<open>Changing mappings\<close>

fun reprotect_pages ::
    "laddr \<Rightarrow> attr \<Rightarrow> usize \<Rightarrow> nat \<Rightarrow> laddr \<Rightarrow> pt_entry \<Rightarrow> mem \<Rightarrow> (pt_error + pt_entry) \<times> mem" where
  "reprotect_pages table flag id_off 0 la pte m = (Inr pte, m)"
| "reprotect_pages table flag id_off (Suc n) la pte m =
     (case la2pte m table la id_off of
        Inl e \<Rightarrow> (Inl e, m)
      | Inr p \<Rightarrow>
          (let (pa, _) = entry_get (read_pte m p) 0;
               pte = entry_new pa (flag OR VALID) 0
           in reprotect_pages table flag id_off n (la + PAGE_SIZE) pte (write_pte m p pte)))"

definition reprotect ::
    "laddr \<Rightarrow> laddr \<Rightarrow> usize \<Rightarrow> attr \<Rightarrow> usize \<Rightarrow> mem \<Rightarrow> (pt_error + pt_entry) \<times> mem" where
  "reprotect table la npages flag id_off m =
     (if in_page_offset la \<noteq> 0
      then (Inl (AddrMisaligned (Some la) (Some (la + npages + PAGE_SIZE)) None), m)
      else reprotect_pages table flag id_off (unat npages) la 0 m)"

fun unmap_impl ::
    "'a dealloc_fn \<Rightarrow> usize \<Rightarrow> laddr range \<Rightarrow> laddr \<Rightarrow> level \<Rightarrow> laddr \<Rightarrow> 'a \<Rightarrow> mem \<Rightarrow> bool \<times> 'a \<times> mem" where
  "unmap_impl dealloc id_off rng base l table a m =
     (let page_size = page_size l;
          first = addr_idx l (max (fst rng) base) False;
          past = addr_idx l (min (snd rng) (base + page_size * of_nat NR_ENTRIES)) True;
          (count, a, m) =
            foldl (\<lambda>(count, a, m) index.
               (let (is_empty, a, m) =
                  (if first \<le> index \<and> index < past
                   then entry_destroy dealloc id_off
                     (\<lambda>t a m. case l of
                        0 \<Rightarrow> (True, a, m)
                      | Suc l' \<Rightarrow> unmap_impl dealloc id_off rng (base + of_nat index * page_size) l' t a m)
                     (table, index) l a m
                   else (\<not> is_set (read_pte m (table, index)), a, m))
                in (of_bool is_empty + count, a, m)))
              (0 :: nat, a, m) [0..<NR_ENTRIES]
      in (count \<ge> NR_ENTRIES, a, m))"

declare unmap_impl.simps [simp del]

definition unmap ::
    "'a dealloc_fn \<Rightarrow> laddr \<Rightarrow> laddr range \<Rightarrow> usize \<Rightarrow> 'a \<Rightarrow> mem \<Rightarrow> 'a \<times> mem" where
  "unmap dealloc table rng id_off a m = snd (unmap_impl dealloc id_off rng 0 2 table a m)"

fun map_pages ::
    "'a alloc_fn \<Rightarrow> 'a dealloc_fn \<Rightarrow> laddr \<Rightarrow> laddr \<Rightarrow> attr \<Rightarrow> usize \<Rightarrow> nat \<Rightarrow> nat \<Rightarrow> laddr \<Rightarrow> paddr \<Rightarrow> pt_entry
     \<Rightarrow> 'a \<Rightarrow> mem \<Rightarrow> (pt_error + pt_entry) \<times> 'a \<times> mem" where
  "map_pages alloc dealloc table la flags id_off i 0 latmp patmp pte a m = (Inr pte, a, m)"
| "map_pages alloc dealloc table la flags id_off i (Suc n) latmp patmp pte a m =
     (case la2pte_alloc alloc table latmp id_off a m of
        (Inl e, a, m) \<Rightarrow>
          (let (a, m) = unmap dealloc table (la, la + of_nat i * PAGE_SIZE) id_off a m in (Inl e, a, m))
      | (Inr p, a, m) \<Rightarrow>
          (let (_, attr) = entry_get (read_pte m p) 0 in
           if attr_contains attr VALID then (Inl (EntryExistent True), a, m)
           else (let pte = entry_new patmp (flags OR VALID) 0 in
                 map_pages alloc dealloc table la flags id_off (Suc i) n (latmp + PAGE_SIZE)
                   (patmp + PAGE_SIZE) pte a (write_pte m p pte))))"

definition mappages ::
    "'a alloc_fn \<Rightarrow> 'a dealloc_fn \<Rightarrow> laddr \<Rightarrow> laddr \<Rightarrow> paddr \<Rightarrow> attr \<Rightarrow> usize \<Rightarrow> usize \<Rightarrow> 'a \<Rightarrow> mem
     \<Rightarrow> (pt_error + pt_entry) \<times> 'a \<times> mem" where
  "mappages alloc dealloc table la pa flags npages id_off a m =
     (if in_page_offset la \<noteq> 0 \<or> in_page_offset pa \<noteq> 0
      then (Inl (AddrMisaligned (Some la) (Some (la + npages + PAGE_SIZE)) (Some pa)), a, m)
      else if npages = 0 then (Inl RangeEmpty, a, m)
      else map_pages alloc dealloc table la flags id_off 1 (unat npages) la pa 0 a m)"

definition table_1g_item :: "mem \<Rightarrow> laddr \<Rightarrow> laddr \<Rightarrow> paddr \<Rightarrow> attr \<Rightarrow> mem" where
  "table_1g_item m table virt phys attr = write_pte m (table, addr_idx 2 virt False) (entry_new phys attr 0)"

end
