(* ===== verification/PageTable_Spec.thy ===== *)
theory PageTable_Spec
  imports PageTable
begin

text \<open>
  The page table as a tree of tables and as a function from virtual page numbers to entries, and what
  the operations of \<open>Table\<close> do to both.
\<close>

section \<open>The tree\<close>

definition child :: "mem \<Rightarrow> usize \<Rightarrow> laddr \<Rightarrow> nat \<Rightarrow> laddr option" where
  "child m id_off t i = entry_table (m t i) 1 id_off"

definition l1_tables :: "mem \<Rightarrow> usize \<Rightarrow> laddr \<Rightarrow> laddr set" where
  "l1_tables m id_off root = {t. \<exists>i < 512. child m id_off root i = Some t}"

definition l0_tables :: "mem \<Rightarrow> usize \<Rightarrow> laddr \<Rightarrow> laddr set" where
  "l0_tables m id_off root = {t. \<exists>s \<in> l1_tables m id_off root. \<exists>i < 512. child m id_off s i = Some t}"

definition pt_pages :: "mem \<Rightarrow> usize \<Rightarrow> laddr \<Rightarrow> laddr set" where
  "pt_pages m id_off root = {root} \<union> l1_tables m id_off root \<union> l0_tables m id_off root"

text \<open>
  No table is reached twice and tables of different levels are different pages.
\<close>

definition pt_wf :: "mem \<Rightarrow> usize \<Rightarrow> laddr \<Rightarrow> bool" where
  "pt_wf m id_off root \<longleftrightarrow>
     (\<forall>t \<in> pt_pages m id_off root. page_aligned t)
     \<and> (\<forall>i < 512. \<forall>j < 512. \<forall>t. child m id_off root i = Some t \<longrightarrow> child m id_off root j = Some t \<longrightarrow> i = j)
     \<and> (\<forall>s \<in> l1_tables m id_off root. \<forall>s' \<in> l1_tables m id_off root. \<forall>i < 512. \<forall>j < 512. \<forall>t.
          child m id_off s i = Some t \<longrightarrow> child m id_off s' j = Some t \<longrightarrow> s = s' \<and> i = j)
     \<and> root \<notin> l1_tables m id_off root \<and> root \<notin> l0_tables m id_off root
     \<and> l1_tables m id_off root \<inter> l0_tables m id_off root = {}"

text \<open>Virtual page numbers, split into the three indices.\<close>

type_synonym vpn = "nat \<times> nat \<times> nat"

definition vpn :: "laddr \<Rightarrow> vpn" where
  "vpn la = (addr_idx 2 la False, addr_idx 1 la False, addr_idx 0 la False)"

fun vpn_ok :: "vpn \<Rightarrow> bool" where
  "vpn_ok (i, j, k) \<longleftrightarrow> i < 512 \<and> j < 512 \<and> k < 512"

fun slot :: "mem \<Rightarrow> usize \<Rightarrow> laddr \<Rightarrow> vpn \<Rightarrow> pte_ptr option" where
  "slot m id_off root (i, j, k) =
     (case child m id_off root i of
        None \<Rightarrow> None
      | Some s \<Rightarrow> (case child m id_off s j of None \<Rightarrow> None | Some t \<Rightarrow> Some (t, k)))"

definition pt_leaf :: "mem \<Rightarrow> usize \<Rightarrow> laddr \<Rightarrow> vpn \<Rightarrow> pt_entry option" where
  "pt_leaf m id_off root v =
     (case slot m id_off root v of
        None \<Rightarrow> None
      | Some p \<Rightarrow> if is_set (read_pte m p) then Some (read_pte m p) else None)"

lemma l1_tablesI: "i < 512 \<Longrightarrow> child m id_off root i = Some t \<Longrightarrow> t \<in> l1_tables m id_off root"
  by (auto simp: l1_tables_def)

lemma l1_tablesE:
  assumes "t \<in> l1_tables m id_off root"
  obtains i where "i < 512" "child m id_off root i = Some t"
  using assms by (auto simp: l1_tables_def)

lemma l0_tablesI:
  "s \<in> l1_tables m id_off root \<Longrightarrow> i < 512 \<Longrightarrow> child m id_off s i = Some t \<Longrightarrow> t \<in> l0_tables m id_off root"
  by (auto simp: l0_tables_def)

lemma l0_tablesE:
  assumes "t \<in> l0_tables m id_off root"
  obtains s i where "s \<in> l1_tables m id_off root" "i < 512" "child m id_off s i = Some t"
  using assms by (auto simp: l0_tables_def)

lemma vpn_ok_vpn [simp]: "vpn_ok (vpn la)"
  by (simp add: vpn_def addr_idx_lt)

lemma entry_table_level: "l \<noteq> 0 \<Longrightarrow> entry_table e l id_off = entry_table e 1 id_off"
  by (simp add: entry_table_def)

lemma la2pte_slot:
  "la2pte m root la id_off =
     (case slot m id_off root (vpn la) of None \<Rightarrow> Inl (EntryExistent False) | Some p \<Rightarrow> Inr p)"
  by (simp add: la2pte_def child_def vpn_def read_pte_def entry_table_level [of 2] split: option.splits)

section \<open>Changing memory elsewhere\<close>

lemma child_cong: "m' t = m t \<Longrightarrow> child m' id_off t i = child m id_off t i"
  by (simp add: child_def)

lemma pt_frame:
  assumes "\<forall>q \<in> {root} \<union> l1_tables m id_off root. m' q = m q"
  shows "l1_tables m' id_off root = l1_tables m id_off root"
    and "l0_tables m' id_off root = l0_tables m id_off root"
    and "pt_pages m' id_off root = pt_pages m id_off root"
    and "pt_wf m' id_off root \<longleftrightarrow> pt_wf m id_off root"
    and "vpn_ok v \<Longrightarrow> slot m' id_off root v = slot m id_off root v"
proof -
  have c: "child m' id_off q i = child m id_off q i" if "q \<in> {root} \<union> l1_tables m id_off root" for q i
    using assms that by (intro child_cong) blast
  show l1: "l1_tables m' id_off root = l1_tables m id_off root"
    by (simp add: l1_tables_def c)
  show l0: "l0_tables m' id_off root = l0_tables m id_off root"
    unfolding l0_tables_def l1 using c by auto
  show pp: "pt_pages m' id_off root = pt_pages m id_off root" by (simp add: pt_pages_def l1 l0)
  show "pt_wf m' id_off root \<longleftrightarrow> pt_wf m id_off root"
    unfolding pt_wf_def l1 l0 pp using c by (simp cong: ball_cong)
  show "slot m' id_off root v = slot m id_off root v" if ok: "vpn_ok v"
  proof -
    obtain i j k where v: "v = (i, j, k)" by (cases v)
    have "child m' id_off s j = child m id_off s j" if "child m id_off root i = Some s" for s
      using that ok v by (intro c) (auto simp: l1_tables_def)
    then show ?thesis using c [of root i] by (simp add: v split: option.split)
  qed
qed

lemma slot_l0:
  assumes "slot m id_off root v = Some (t, k)" "vpn_ok v"
  shows "t \<in> l0_tables m id_off root"
  using assms by (cases v) (auto simp: l0_tables_def l1_tables_def split: option.splits)

lemma pt_leaf_frame:
  assumes "\<forall>q \<in> pt_pages m id_off root. m' q = m q" and "vpn_ok v"
  shows "pt_leaf m' id_off root v = pt_leaf m id_off root v"
proof -
  have "slot m' id_off root v = slot m id_off root v"
    using assms by (intro pt_frame) (auto simp: pt_pages_def)
  moreover have "read_pte m' p = read_pte m p" if "slot m id_off root v = Some p" for p
  proof -
    have "fst p \<in> pt_pages m id_off root"
      using slot_l0 [of m id_off root v "fst p" "snd p"] that assms(2) by (simp add: pt_pages_def)
    then show ?thesis using assms(1) by (simp add: read_pte_def)
  qed
  ultimately show ?thesis by (simp add: pt_leaf_def split: option.splits)
qed

section \<open>Writing a leaf\<close>

lemma slot_inj:
  assumes "pt_wf m id_off root" "slot m id_off root v = Some p" "slot m id_off root v' = Some p" "vpn_ok v" "vpn_ok v'"
  shows "v = v'"
proof -
  obtain i j k where v: "v = (i, j, k)" by (cases v)
  obtain i' j' k' where v': "v' = (i', j', k')" by (cases v')
  obtain s t where s: "child m id_off root i = Some s" "child m id_off s j = Some t" "p = (t, k)"
    using assms(2) v by (auto split: option.splits)
  obtain s' where s': "child m id_off root i' = Some s'" "child m id_off s' j' = Some t" "k' = k"
    using assms(3) v' s(3) by (auto split: option.splits)
  have "s \<in> l1_tables m id_off root" "s' \<in> l1_tables m id_off root"
    using s s' assms(4,5) v v' by (auto simp: l1_tables_def)
  with s s' assms(1,4,5) v v' have "s = s'" "j = j'" by (auto simp: pt_wf_def)
  moreover from this s s' assms(1,4,5) v v' have "i = i'" by (auto simp: pt_wf_def)
  ultimately show ?thesis using v v' s' by simp
qed

lemma leaf_write:
  assumes wf: "pt_wf m id_off root" and sl: "slot m id_off root v = Some p" and v: "vpn_ok v"
  shows "pt_wf (write_pte m p e) id_off root"
    and "pt_pages (write_pte m p e) id_off root = pt_pages m id_off root"
    and "slot (write_pte m p e) id_off root v = Some p"
    and "vpn_ok v' \<Longrightarrow> pt_leaf (write_pte m p e) id_off root v' =
           (if v' = v then if is_set e then Some e else None else pt_leaf m id_off root v')"
    and "vpn_ok v' \<Longrightarrow> slot (write_pte m p e) id_off root v' = slot m id_off root v'"
proof -
  obtain t k where p: "p = (t, k)" by (cases p)
  have "t \<in> l0_tables m id_off root" using slot_l0 sl v p by blast
  then have "t \<noteq> root" "t \<notin> l1_tables m id_off root" using wf by (auto simp: pt_wf_def)
  then have same: "\<forall>q \<in> {root} \<union> l1_tables m id_off root. write_pte m p e q = m q"
    by (auto simp: write_pte_def p)
  note fr = pt_frame [OF same]
  show "pt_wf (write_pte m p e) id_off root" using fr(4) wf by simp
  show "pt_pages (write_pte m p e) id_off root = pt_pages m id_off root" by (rule fr(3))
  show "slot (write_pte m p e) id_off root v = Some p" using fr(5) [OF v] sl by simp
  show "vpn_ok v' \<Longrightarrow> slot (write_pte m p e) id_off root v' = slot m id_off root v'" by (rule fr(5))
  show "pt_leaf (write_pte m p e) id_off root v' =
           (if v' = v then if is_set e then Some e else None else pt_leaf m id_off root v')" if v': "vpn_ok v'"
  proof (cases "v' = v")
    case True
    have "read_pte (write_pte m p e) p = e" by (simp add: read_pte_def write_pte_def)
    with True show ?thesis using fr(5) [OF v] sl by (simp add: pt_leaf_def)
  next
    case False
    have "read_pte (write_pte m p e) p' = read_pte m p'" if "slot m id_off root v' = Some p'" for p'
    proof -
      have "p' \<noteq> p" using slot_inj [OF wf sl _ v v'] that False by blast
      then show ?thesis by (cases p') (auto simp: read_pte_def write_pte_def p)
    qed
    with False show ?thesis using fr(5) [OF v'] by (simp add: pt_leaf_def split: option.splits)
  qed
qed

section \<open>Adding a table\<close>

text \<open>
  A table is added by pointing an entry of \<open>s\<close> that has no table at an unused zeroed page \<open>p\<close>.
\<close>

lemma child_zero: "(\<forall>j < 512. m p j = 0) \<Longrightarrow> i < 512 \<Longrightarrow> child m id_off p i = None"
  by (simp add: child_def entry_table_iff)

lemma add_l1_table:
  assumes wf: "pt_wf m id_off root" and p: "p \<notin> pt_pages m id_off root" "page_aligned p"
    and i: "i < 512" "child m id_off root i = None" "child m' id_off root i = Some p"
    and z: "\<forall>j < 512. m' p j = 0"
    and r: "\<And>j. j < 512 \<Longrightarrow> j \<noteq> i \<Longrightarrow> m' root j = m root j"
    and f: "\<And>q. q \<in> l1_tables m id_off root \<union> l0_tables m id_off root \<Longrightarrow> m' q = m q"
  shows "l1_tables m' id_off root = insert p (l1_tables m id_off root)"
    and "l0_tables m' id_off root = l0_tables m id_off root"
    and "pt_pages m' id_off root = insert p (pt_pages m id_off root)"
    and "pt_wf m' id_off root"
    and "vpn_ok v \<Longrightarrow> pt_leaf m' id_off root v = pt_leaf m id_off root v"
proof -
  have cr: "child m' id_off root j = (if j = i then Some p else child m id_off root j)" if "j < 512" for j
    using i(3) r [OF that] by (simp add: child_def)
  have c1: "child m' id_off q j = child m id_off q j" if "q \<in> l1_tables m id_off root" for q j
    using f that by (intro child_cong) blast
  have cp: "child m' id_off p j = None" if "j < 512" for j
    using z that by (intro child_zero)
  show l1: "l1_tables m' id_off root = insert p (l1_tables m id_off root)"
  proof (intro set_eqI iffI)
    fix t assume "t \<in> insert p (l1_tables m id_off root)"
    then show "t \<in> l1_tables m' id_off root"
    proof
      assume "t \<in> l1_tables m id_off root"
      then obtain j where j: "j < 512" "child m id_off root j = Some t" by (rule l1_tablesE)
      with i(2) have "child m' id_off root j = Some t" using cr [of j] by auto
      with j(1) show ?thesis by (rule l1_tablesI)
    qed (use i in \<open>auto intro: l1_tablesI\<close>)
  next
    fix t assume "t \<in> l1_tables m' id_off root"
    then obtain j where "j < 512" "child m' id_off root j = Some t" by (rule l1_tablesE)
    then show "t \<in> insert p (l1_tables m id_off root)"
      using cr [of j] by (auto split: if_splits intro: l1_tablesI)
  qed
  show l0: "l0_tables m' id_off root = l0_tables m id_off root"
    unfolding l0_tables_def l1 using c1 cp by auto
  show pp: "pt_pages m' id_off root = insert p (pt_pages m id_off root)"
    by (auto simp: pt_pages_def l1 l0)
  have new: "p \<noteq> root" "p \<notin> l1_tables m id_off root" "p \<notin> l0_tables m id_off root"
    using p(1) by (auto simp: pt_pages_def)
  have inj1: "a = b" if "a < 512" "b < 512" "child m' id_off root a = Some t" "child m' id_off root b = Some t" for a b t
  proof -
    have "child m id_off root j \<noteq> Some p" if "j < 512" for j using new that by (auto simp: l1_tables_def)
    then show ?thesis using that wf by (auto simp: cr pt_wf_def split: if_splits)
  qed
  have inj0: "s = s' \<and> a = b" if "s \<in> insert p (l1_tables m id_off root)" "s' \<in> insert p (l1_tables m id_off root)"
    "a < 512" "b < 512" "child m' id_off s a = Some t" "child m' id_off s' b = Some t" for s s' a b t
    using that wf cp c1 by (auto simp: pt_wf_def)
  have al: "\<forall>t \<in> insert p (pt_pages m id_off root). page_aligned t" using wf p by (simp add: pt_wf_def)
  show "pt_wf m' id_off root"
    unfolding pt_wf_def l1 l0 pp using al inj1 inj0 new wf by (auto simp: pt_wf_def)
  show "pt_leaf m' id_off root v = pt_leaf m id_off root v" if v: "vpn_ok v"
  proof -
    obtain a b c where abc: "v = (a, b, c)" by (cases v)
    show ?thesis
    proof (cases "child m id_off root a")
      case None
      then show ?thesis using v abc cr [of a] cp [of b] by (simp add: pt_leaf_def split: option.split)
    next
      case (Some s)
      then have "s \<in> l1_tables m id_off root" "a \<noteq> i" using v abc i by (auto simp: l1_tables_def)
      moreover have "m' t = m t" if "child m id_off s b = Some t" for t
        using that calculation v abc by (intro f) (auto simp: l0_tables_def)
      ultimately show ?thesis
        using v abc cr [of a] c1 [of s b] Some by (auto simp: pt_leaf_def read_pte_def split: option.split)
    qed
  qed
qed

lemma add_l0_table:
  assumes wf: "pt_wf m id_off root" and p: "p \<notin> pt_pages m id_off root" "page_aligned p"
    and s: "s \<in> l1_tables m id_off root"
    and i: "i < 512" "child m id_off s i = None" "child m' id_off s i = Some p"
    and z: "\<forall>j < 512. m' p j = 0"
    and r: "\<And>j. j < 512 \<Longrightarrow> j \<noteq> i \<Longrightarrow> m' s j = m s j"
    and f: "\<And>q. q \<in> pt_pages m id_off root \<Longrightarrow> q \<noteq> s \<Longrightarrow> m' q = m q"
  shows "l1_tables m' id_off root = l1_tables m id_off root"
    and "pt_pages m' id_off root = insert p (pt_pages m id_off root)"
    and "pt_wf m' id_off root"
    and "vpn_ok v \<Longrightarrow> pt_leaf m' id_off root v = pt_leaf m id_off root v"
proof -
  have sr: "s \<noteq> root" "s \<notin> l0_tables m id_off root" using wf s by (auto simp: pt_wf_def)
  have cr: "child m' id_off root j = child m id_off root j" for j
    using f [of root] sr by (intro child_cong) (auto simp: pt_pages_def)
  have cs: "child m' id_off s j = (if j = i then Some p else child m id_off s j)" if "j < 512" for j
    using i(3) r [OF that] by (simp add: child_def)
  have c1: "child m' id_off q j = child m id_off q j" if "q \<in> l1_tables m id_off root" "q \<noteq> s" for q j
    using f that by (intro child_cong) (auto simp: pt_pages_def)
  show l1: "l1_tables m' id_off root = l1_tables m id_off root"
    unfolding l1_tables_def cr ..
  have l0: "l0_tables m' id_off root = insert p (l0_tables m id_off root)"
  proof (intro set_eqI iffI)
    fix t assume "t \<in> l0_tables m' id_off root"
    then obtain q j where "q \<in> l1_tables m id_off root" "j < 512" "child m' id_off q j = Some t"
      by (auto simp: l0_tables_def l1)
    then show "t \<in> insert p (l0_tables m id_off root)"
      using cs c1 by (cases "q = s") (auto simp: l0_tables_def split: if_splits)
  next
    fix t assume "t \<in> insert p (l0_tables m id_off root)"
    then consider "t = p" | q j where "q \<in> l1_tables m id_off root" "j < 512" "child m id_off q j = Some t"
      by (auto simp: l0_tables_def)
    then show "t \<in> l0_tables m' id_off root"
    proof cases
      case 1
      then show ?thesis using s i by (auto simp: l0_tables_def l1)
    next
      case 2
      then have "child m' id_off q j = Some t" using cs [of j] c1 [of q j] i by (cases "q = s") auto
      with 2 show ?thesis by (auto simp: l0_tables_def l1)
    qed
  qed
  show pp: "pt_pages m' id_off root = insert p (pt_pages m id_off root)"
    by (auto simp: pt_pages_def l1 l0)
  have new: "p \<noteq> root" "p \<notin> l1_tables m id_off root" "p \<notin> l0_tables m id_off root"
    using p(1) by (auto simp: pt_pages_def)
  have inj0: "q = q' \<and> a = b" if "q \<in> l1_tables m id_off root" "q' \<in> l1_tables m id_off root"
    "a < 512" "b < 512" "child m' id_off q a = Some t" "child m' id_off q' b = Some t" for q q' a b t
  proof -
    have np: "child m id_off q j \<noteq> Some p" if "q \<in> l1_tables m id_off root" "j < 512" for q j
      using new that by (auto simp: l0_tables_def)
    have old: "child m id_off q j = Some t" if "q \<in> l1_tables m id_off root" "j < 512" "child m' id_off q j = Some t" "t \<noteq> p"
      for q j t using that cs [of j] c1 [of q j] by (cases "q = s") (auto split: if_splits)
    have oldp: "q = s \<and> j = i" if "q \<in> l1_tables m id_off root" "j < 512" "child m' id_off q j = Some p" for q j
      using that cs [of j] c1 [of q j] np [of q j] by (cases "q = s") (auto split: if_splits)
    show ?thesis
    proof (cases "t = p")
      case True
      then show ?thesis using oldp that by blast
    next
      case False
      then have "child m id_off q a = Some t" "child m id_off q' b = Some t" using old that by blast+
      then show ?thesis using wf that by (auto simp: pt_wf_def)
    qed
  qed
  have al: "\<forall>t \<in> insert p (pt_pages m id_off root). page_aligned t" using wf p by (simp add: pt_wf_def)
  show "pt_wf m' id_off root"
    unfolding pt_wf_def l1 l0 pp cr using al inj0 new wf by (auto simp: pt_wf_def)
  show "pt_leaf m' id_off root v = pt_leaf m id_off root v" if v: "vpn_ok v"
  proof -
    obtain a b c where abc: "v = (a, b, c)" by (cases v)
    show ?thesis
    proof (cases "child m id_off root a")
      case None
      then show ?thesis using v abc cr [of a] by (simp add: pt_leaf_def)
    next
      case (Some q)
      then have q: "q \<in> l1_tables m id_off root" using v abc by (auto simp: l1_tables_def)
      have mt: "m' t = m t" if "child m id_off q b = Some t" for t
      proof -
        have "t \<in> l0_tables m id_off root" using that q v abc by (auto simp: l0_tables_def)
        then show ?thesis using sr by (intro f) (auto simp: pt_pages_def)
      qed
      show ?thesis
      proof (cases "q = s \<and> b = i")
        case True
        have "\<not> is_set (m' p c)" using z v abc by (simp add: is_set_iff)
        with True show ?thesis using v abc cr [of a] cs [of b] i Some by (simp add: pt_leaf_def read_pte_def)
      next
        case False
        then have "child m' id_off q b = child m id_off q b" using cs [of b] c1 [OF q, of b] v abc
          by (cases "q = s") auto
        with mt show ?thesis using abc cr [of a] Some
          by (auto simp: pt_leaf_def read_pte_def split: option.split)
      qed
    qed
  qed
qed

end
