(* ===== verification/PageTable_Map.thy ===== *)
theory PageTable_Map
  imports PageTable_Spec
begin

text \<open>
  The contract of the \<open>PageAlloc\<close> trait, what creating tables and mapping pages do under it, and the
  interpretation on the kernel's frame allocator.
\<close>

section \<open>The contract of a page allocator\<close>

text \<open>
  \<open>free a m\<close> is the set of pages the allocator owns. It hands out an owned, zeroed page, writes only
  pages it owns, and does not look at any other page. The pages have addresses an entry can hold.
\<close>

locale page_allocator =
  fixes alloc :: "'a alloc_fn"
    and dealloc :: "'a dealloc_fn"
    and inv :: "'a \<Rightarrow> mem \<Rightarrow> bool"
    and free :: "'a \<Rightarrow> mem \<Rightarrow> laddr set"
    and id_off :: usize
  assumes alloc_inv: "inv a m \<Longrightarrow> alloc a m = Some (p, a', m') \<Longrightarrow> inv a' m'"
    and alloc_owned: "inv a m \<Longrightarrow> alloc a m = Some (p, a', m') \<Longrightarrow> p \<in> free a m"
    and alloc_free: "inv a m \<Longrightarrow> alloc a m = Some (p, a', m') \<Longrightarrow> free a' m' = free a m - {p}"
    and alloc_zero: "inv a m \<Longrightarrow> alloc a m = Some (p, a', m') \<Longrightarrow> i < 512 \<Longrightarrow> m' p i = 0"
    and alloc_frame: "inv a m \<Longrightarrow> alloc a m = Some (p, a', m') \<Longrightarrow> page_aligned q \<Longrightarrow> q \<notin> free a m \<Longrightarrow> m' q = m q"
    and free_aligned: "inv a m \<Longrightarrow> p \<in> free a m \<Longrightarrow> page_aligned p"
    and free_paddr: "inv a m \<Longrightarrow> p \<in> free a m \<Longrightarrow> paddr_ok (to_paddr p id_off)"
    and mem_inv: "inv a m \<Longrightarrow> \<forall>q \<in> free a m. m' q = m q \<Longrightarrow> inv a m'"
    and mem_free: "inv a m \<Longrightarrow> \<forall>q \<in> free a m. m' q = m q \<Longrightarrow> free a m' = free a m"
begin

text \<open>The state the operations keep: a tree of tables, none of which the allocator owns.\<close>

definition pt_state :: "laddr \<Rightarrow> 'a \<Rightarrow> mem \<Rightarrow> bool" where
  "pt_state root a m \<longleftrightarrow> inv a m \<and> pt_wf m id_off root \<and> pt_pages m id_off root \<inter> free a m = {}"

lemma pt_state_write:
  assumes "pt_state root a m" "slot m id_off root v = Some p" "vpn_ok v"
  shows "pt_state root a (write_pte m p e)"
proof -
  have "fst p \<in> pt_pages m id_off root"
    using slot_l0 [of m id_off root v "fst p" "snd p"] assms(2,3) by (simp add: pt_pages_def)
  then have eq: "\<forall>q \<in> free a m. write_pte m p e q = m q"
    using assms(1) by (auto simp: pt_state_def write_pte_def)
  have inv: "inv a m" and wf: "pt_wf m id_off root" and dj: "pt_pages m id_off root \<inter> free a m = {}"
    using assms(1) by (simp_all add: pt_state_def)
  show ?thesis
    unfolding pt_state_def mem_free [OF inv eq] leaf_write(2) [OF wf assms(2,3)]
    using mem_inv [OF inv eq] leaf_write(1) [OF wf assms(2,3)] dj by blast
qed

lemma alloc_step:
  assumes st: "pt_state root a m" and al: "alloc a m = Some (p, a1, m1)"
    and t: "t \<in> pt_pages m id_off root" and m2_def: "m2 = write_pte m1 (t, i) (entry_new (to_paddr p id_off) VALID 0)"
  shows "p \<notin> pt_pages m id_off root" and "page_aligned p"
    and "child m2 id_off t i = Some p" and "\<forall>j < 512. m2 p j = 0"
    and "j \<noteq> i \<Longrightarrow> m2 t j = m t j"
    and "q \<in> pt_pages m id_off root \<Longrightarrow> q \<noteq> t \<Longrightarrow> m2 q = m q"
    and "inv a1 m2" and "free a1 m2 = free a m - {p}"
proof -
  have inv: "inv a m" and wf: "pt_wf m id_off root" and dj: "pt_pages m id_off root \<inter> free a m = {}"
    using st by (simp_all add: pt_state_def)
  have own: "p \<in> free a m" by (rule alloc_owned [OF inv al])
  show np: "p \<notin> pt_pages m id_off root" using own dj by blast
  show "page_aligned p" by (rule free_aligned [OF inv own])
  have same: "m1 q = m q" if "q \<in> pt_pages m id_off root" for q
    using that dj wf by (intro alloc_frame [OF inv al]) (auto simp: pt_wf_def)
  have pt: "p \<noteq> t" using np t by blast
  show "child m2 id_off t i = Some p"
    using entry_new_table [OF free_paddr [OF inv own]] by (simp add: m2_def child_def write_pte_def)
  show "\<forall>j < 512. m2 p j = 0" using alloc_zero [OF inv al] pt by (simp add: m2_def write_pte_def)
  show "j \<noteq> i \<Longrightarrow> m2 t j = m t j" using same [OF t] by (simp add: m2_def write_pte_def)
  show "m2 q = m q" if "q \<in> pt_pages m id_off root" "q \<noteq> t"
    using that same by (simp add: m2_def write_pte_def)
  have f1: "free a1 m1 = free a m - {p}" by (rule alloc_free [OF inv al])
  have eq: "\<forall>q \<in> free a1 m1. m2 q = m1 q" using t dj f1 by (auto simp: m2_def write_pte_def)
  show "inv a1 m2" by (rule mem_inv [OF alloc_inv [OF inv al] eq])
  show "free a1 m2 = free a m - {p}" using mem_free [OF alloc_inv [OF inv al] eq] f1 by simp
qed

text \<open>\<open>table_or_create\<close> either fails, or finds a table, or adds one.\<close>

lemma table_or_create_cases:
  assumes "table_or_create alloc id_off (t, i) l a m = (r, a', m')" and "l \<noteq> 0"
  obtains (fails) err where "r = Inl err" "a' = a" "m' = m"
    | (found) tb where "r = Inr tb" "a' = a" "m' = m" "child m id_off t i = Some tb"
    | (created) p m1 where "r = Inr p" "alloc a m = Some (p, a', m1)" "child m id_off t i = None"
        "m' = write_pte m1 (t, i) (entry_new (to_paddr p id_off) VALID 0)"
  using assms
  by (auto simp: table_or_create_def child_def entry_table_def read_pte_def split_beta Let_def
      split: if_splits option.splits)

lemma table_or_create_root:
  assumes st: "pt_state root a m" and i: "i < 512"
    and eq: "table_or_create alloc id_off (root, i) 2 a m = (r, a', m')"
  shows "pt_state root a' m'" and "vpn_ok v \<Longrightarrow> pt_leaf m' id_off root v = pt_leaf m id_off root v"
    and "r = Inr tb \<Longrightarrow> child m' id_off root i = Some tb"
proof -
  have two: "(2 :: nat) \<noteq> 0" by simp
  have "pt_state root a' m' \<and> (vpn_ok v \<longrightarrow> pt_leaf m' id_off root v = pt_leaf m id_off root v)
    \<and> (r = Inr tb \<longrightarrow> child m' id_off root i = Some tb)"
    using eq two
  proof (cases rule: table_or_create_cases)
    case (created p m1)
    have root: "root \<in> pt_pages m id_off root" by (simp add: pt_pages_def)
    note a = alloc_step [OF st created(2) root created(4)]
    have wf: "pt_wf m id_off root" using st by (simp add: pt_state_def)
    have q: "m' q = m q" if "q \<in> l1_tables m id_off root \<union> l0_tables m id_off root" for q
      using that wf a(6) [of q] by (auto simp: pt_wf_def pt_pages_def)
    note l = add_l1_table [OF wf a(1,2) i created(3) a(3,4) a(5) q]
    show ?thesis using a(1,3,7,8) l st created(1) by (auto simp: pt_state_def)
  qed (use st in auto)
  then show "pt_state root a' m'" "vpn_ok v \<Longrightarrow> pt_leaf m' id_off root v = pt_leaf m id_off root v"
    "r = Inr tb \<Longrightarrow> child m' id_off root i = Some tb" by blast+
qed

lemma table_or_create_l1:
  assumes st: "pt_state root a m" and i: "i < 512" and s: "s \<in> l1_tables m id_off root"
    and eq: "table_or_create alloc id_off (s, i) 1 a m = (r, a', m')"
  shows "pt_state root a' m'" and "vpn_ok v \<Longrightarrow> pt_leaf m' id_off root v = pt_leaf m id_off root v"
    and "r = Inr tb \<Longrightarrow> child m' id_off s i = Some tb" and "child m' id_off root j = child m id_off root j"
proof -
  have one: "(1 :: nat) \<noteq> 0" by simp
  have "pt_state root a' m' \<and> (vpn_ok v \<longrightarrow> pt_leaf m' id_off root v = pt_leaf m id_off root v)
    \<and> (r = Inr tb \<longrightarrow> child m' id_off s i = Some tb) \<and> child m' id_off root j = child m id_off root j"
    using eq one
  proof (cases rule: table_or_create_cases)
    case (created p m1)
    have sp: "s \<in> pt_pages m id_off root" using s by (simp add: pt_pages_def)
    note a = alloc_step [OF st created(2) sp created(4)]
    have wf: "pt_wf m id_off root" using st by (simp add: pt_state_def)
    note l = add_l0_table [OF wf a(1,2) s i created(3) a(3,4) a(5) a(6)]
    have "m' root = m root" using a(6) [of root] s wf by (auto simp: pt_wf_def pt_pages_def)
    then have "child m' id_off root j = child m id_off root j" by (rule child_cong)
    then show ?thesis using a(1,3,7,8) l st created(1) by (auto simp: pt_state_def)
  qed (use st in auto)
  then show "pt_state root a' m'" "vpn_ok v \<Longrightarrow> pt_leaf m' id_off root v = pt_leaf m id_off root v"
    "r = Inr tb \<Longrightarrow> child m' id_off s i = Some tb" "child m' id_off root j = child m id_off root j" by blast+
qed

lemma la2pte_alloc_ok:
  assumes st: "pt_state root a m" and eq: "la2pte_alloc alloc root la id_off a m = (r, a', m')"
  shows "pt_state root a' m'" and "vpn_ok v \<Longrightarrow> pt_leaf m' id_off root v = pt_leaf m id_off root v"
    and "r = Inr p \<Longrightarrow> slot m' id_off root (vpn la) = Some p"
proof -
  obtain i j k where v: "vpn la = (i, j, k)" by (cases "vpn la")
  then have ijk: "addr_idx 2 la False = i" "addr_idx 1 la False = j" "addr_idx 0 la False = k" "i < 512" "j < 512"
    using vpn_ok_vpn [of la] by (auto simp: vpn_def)
  obtain r1 a1 m1 where e1: "table_or_create alloc id_off (root, i) 2 a m = (r1, a1, m1)"
    by (cases "table_or_create alloc id_off (root, i) 2 a m")
  note t1 = table_or_create_root [OF st ijk(4) e1]
  have "pt_state root a' m' \<and> (vpn_ok v \<longrightarrow> pt_leaf m' id_off root v = pt_leaf m id_off root v)
    \<and> (r = Inr p \<longrightarrow> slot m' id_off root (vpn la) = Some p)"
  proof (cases r1)
    case (Inl err)
    then show ?thesis using eq t1 ijk e1 by (auto simp: la2pte_alloc_def)
  next
    case (Inr s)
    have s: "s \<in> l1_tables m1 id_off root" using t1(3) [OF Inr] ijk(4) by (rule l1_tablesI [rotated])
    obtain r2 a2 m2 where e2: "table_or_create alloc id_off (s, j) 1 a1 m1 = (r2, a2, m2)"
      by (cases "table_or_create alloc id_off (s, j) 1 a1 m1")
    note t2 = table_or_create_l1 [OF t1(1) ijk(5) s e2]
    have res: "a' = a2" "m' = m2" "r = (case r2 of Inl err \<Rightarrow> Inl err | Inr t \<Rightarrow> Inr (t, k))"
      using eq ijk e1 e2 Inr by (auto simp: la2pte_alloc_def split: sum.splits)
    have "slot m' id_off root (vpn la) = Some p" if "r = Inr p"
      using that t1(3) [OF Inr] t2(3,4) v res by (auto split: sum.splits)
    with t1(2) t2(1,2) res show ?thesis by simp
  qed
  then show "pt_state root a' m'" "vpn_ok v \<Longrightarrow> pt_leaf m' id_off root v = pt_leaf m id_off root v"
    "r = Inr p \<Longrightarrow> slot m' id_off root (vpn la) = Some p" by blast+
qed

lemma map_pages_ok:
  "pt_state root a m \<Longrightarrow>
   map_pages alloc dealloc root la flags id_off i n latmp patmp pte a m = (Inr e, a', m') \<Longrightarrow>
     pt_state root a' m'
     \<and> (\<forall>k < n. pt_leaf m id_off root (vpn (latmp + of_nat k * PAGE_SIZE)) = None)
     \<and> (\<forall>k < n. pt_leaf m' id_off root (vpn (latmp + of_nat k * PAGE_SIZE))
            = Some (entry_new (patmp + of_nat k * PAGE_SIZE) (flags OR VALID) 0))
     \<and> (\<forall>v. vpn_ok v \<longrightarrow> (\<forall>k < n. v \<noteq> vpn (latmp + of_nat k * PAGE_SIZE))
            \<longrightarrow> pt_leaf m' id_off root v = pt_leaf m id_off root v)"
proof (induction n arbitrary: i latmp patmp pte a m)
  case 0
  then show ?case by simp
next
  case (Suc n)
  let ?v = "vpn latmp" and ?e = "entry_new patmp (flags OR VALID) 0"
  obtain r a1 m1 where al: "la2pte_alloc alloc root latmp id_off a m = (r, a1, m1)"
    by (cases "la2pte_alloc alloc root latmp id_off a m")
  note a = la2pte_alloc_ok [OF Suc.prems(1) al]
  obtain p where r: "r = Inr p"
    using Suc.prems(2) al by (cases r) (auto simp: split_beta Let_def)
  have sl: "slot m1 id_off root ?v = Some p" by (rule a(3) [OF r])
  have nv: "\<not> is_set (read_pte m1 p)"
    and rec: "map_pages alloc dealloc root la flags id_off (Suc i) n (latmp + PAGE_SIZE) (patmp + PAGE_SIZE)
        ?e a1 (write_pte m1 p ?e) = (Inr e, a', m')"
    using Suc.prems(2) al r by (auto simp: is_set_def split_beta Let_def split: if_splits)
  have set: "is_set ?e" by (simp add: is_set_iff entry_new_def bit_simps VALID_def)
  have st2: "pt_state root a1 (write_pte m1 p ?e)" by (rule pt_state_write [OF a(1) sl vpn_ok_vpn])
  have wf1: "pt_wf m1 id_off root" using a(1) by (simp add: pt_state_def)
  have lf: "pt_leaf (write_pte m1 p ?e) id_off root v = (if v = ?v then Some ?e else pt_leaf m id_off root v)"
    if "vpn_ok v" for v
    using leaf_write(4) [OF wf1 sl vpn_ok_vpn that, of ?e] a(2) [OF that] set by simp
  have none: "pt_leaf m id_off root ?v = None"
    using a(2) [OF vpn_ok_vpn, of latmp] sl nv by (simp add: pt_leaf_def)
  have sh: "x + PAGE_SIZE + of_nat k * PAGE_SIZE = x + of_nat (Suc k) * PAGE_SIZE" for x k
    by (simp add: algebra_simps)
  note IH = Suc.IH [OF st2 rec, unfolded sh]
  have ne: "vpn (latmp + of_nat (Suc k) * PAGE_SIZE) \<noteq> ?v" if "k < n" for k
    using IH that lf [OF vpn_ok_vpn, of "latmp + of_nat (Suc k) * PAGE_SIZE"] by force
  have all: "(\<forall>k < Suc n. P k) \<longleftrightarrow> P 0 \<and> (\<forall>k < n. P (Suc k))" for P
    by (simp add: All_less_Suc2)
  have first: "pt_leaf m' id_off root ?v = Some ?e"
  proof -
    have "pt_leaf m' id_off root ?v = pt_leaf (write_pte m1 p ?e) id_off root ?v"
      using IH ne by (metis vpn_ok_vpn)
    then show ?thesis using lf [OF vpn_ok_vpn, of latmp] by simp
  qed
  have was: "\<forall>k < n. pt_leaf m id_off root (vpn (latmp + of_nat (Suc k) * PAGE_SIZE)) = None"
    using IH lf [OF vpn_ok_vpn] ne by simp
  show ?case
    unfolding all using IH first none was lf by simp
qed

end

section \<open>The frame allocator as a page allocator\<close>

definition arena_inv :: "arena \<Rightarrow> mem \<Rightarrow> bool" where
  "arena_inv ar m \<longleftrightarrow> (\<exists>bs. arena_ok ar m bs) \<and> ID_OFFSET \<le> ar_base ar"

definition arena_free :: "arena \<Rightarrow> mem \<Rightarrow> laddr set" where
  "arena_free ar m = {q. page_aligned q \<and> (\<exists>bs. arena_ok ar m bs \<and> pn q \<in> free_pages ar bs)}"

lemma arena_ok_unique: "arena_ok ar m bs \<Longrightarrow> arena_ok ar m bs' \<Longrightarrow> bs = bs'"
  by (auto simp: arena_ok_def intro: chain_unique)

lemma arena_free_eq: "arena_ok ar m bs \<Longrightarrow> arena_free ar m = {q. page_aligned q \<and> pn q \<in> free_pages ar bs}"
  by (auto simp: arena_free_def dest: arena_ok_unique)

lemma page_aligned_to_paddr: "page_aligned p \<Longrightarrow> page_aligned (to_paddr p ID_OFFSET)"
proof -
  assume "page_aligned p"
  moreover have "page_aligned ID_OFFSET" by (simp add: page_aligned_iff ID_OFFSET_def CANONICAL_PREFIX_def)
  moreover have "4096 dvd (2 ^ 64 :: nat)" by (simp add: dvd_power_iff_le)
  ultimately show ?thesis
    unfolding page_aligned_iff to_paddr_def unat_sub_if_size
    by (auto simp: word_size intro!: dvd_diff_nat dvd_add)
qed

lemma to_paddr_ok:
  assumes "page_aligned p" "ID_OFFSET \<le> p"
  shows "paddr_ok (to_paddr p ID_OFFSET)"
proof -
  let ?a = "to_paddr p ID_OFFSET"
  have "unat ?a = unat p - unat ID_OFFSET"
    using assms(2) by (simp add: to_paddr_def unat_sub_no_underflow)
  then have "unat ?a < 2 ^ 38" using usize_lt [of p] by (simp add: ID_OFFSET_def CANONICAL_PREFIX_def)
  then have hi: "\<not> bit ?a n" if "38 \<le> n" for n using that by (rule small_word_no_bit)
  note lo = page_aligned_low [OF page_aligned_to_paddr [OF assms(1)]]
  show ?thesis
    unfolding paddr_ok_def
  proof (rule bit_word_eqI)
    fix n assume "n < LENGTH(64)"
    then show "bit (?a AND paddr_mask 0) n = bit ?a n"
      using lo [of n] hi [of n] by (cases "n < 38") (auto simp: paddr_mask_eq page_shift_def bit_simps)
  qed
qed

lemma free_pages_base: "arena_ok ar m bs \<Longrightarrow> pn q \<in> free_pages ar bs \<Longrightarrow> pn (ar_base ar) \<le> pn q"
  by (auto simp: arena_ok_def free_pages_def pn_def word_le_nat_alt dest: div_le_mono [where k = 4096])

interpretation arena: page_allocator arena_alloc arena_dealloc arena_inv arena_free ID_OFFSET
proof unfold_locales
  fix ar m p ar' m'
  assume inv: "arena_inv ar m" and al: "arena_alloc ar m = Some (p, ar', m')"
  obtain bs where ok: "arena_ok ar m bs" and id: "ID_OFFSET \<le> ar_base ar" using inv by (auto simp: arena_inv_def)
  have lim: "pn (ar_top ar) + unat (1 :: usize) \<le> 2 ^ 52" using pn_lt [of "ar_top ar"] by simp
  have one: "{pn p..<pn p + unat (1 :: usize)} = {pn p}" by auto
  note a = arena_allocate_ok [OF ok _ lim al [unfolded arena_alloc_def], unfolded one, simplified]
  from a(3) obtain bs' where ok': "arena_ok ar' m' bs'" and fp: "free_pages ar' bs' = free_pages ar bs - {pn p}"
    by blast
  show "arena_inv ar' m'" using ok' id a(6) by (auto simp: arena_inv_def)
  show "p \<in> arena_free ar m" using a(1,2) by (simp add: arena_free_eq [OF ok])
  show "arena_free ar' m' = arena_free ar m - {p}"
    using a(1) pn_inj by (auto simp: arena_free_eq [OF ok] arena_free_eq [OF ok'] fp)
  show "m' p i = 0" if "i < 512" for i using a(4) that .
  show "m' q = m q" if "page_aligned q" "q \<notin> arena_free ar m" for q
    using a(5) that by (simp add: arena_free_eq [OF ok])
next
  fix ar m p
  assume inv: "arena_inv ar m" and p: "p \<in> arena_free ar m"
  obtain bs where ok: "arena_ok ar m bs" and id: "ID_OFFSET \<le> ar_base ar" using inv by (auto simp: arena_inv_def)
  show al: "page_aligned p" using p by (simp add: arena_free_def)
  have "pn (ar_base ar) \<le> pn p" using p free_pages_base [OF ok] by (simp add: arena_free_eq [OF ok])
  moreover have "page_aligned (ar_base ar)" using ok by (simp add: arena_ok_def)
  ultimately have "ar_base ar \<le> p" by (simp add: word_le_nat_alt page_aligned_unat al)
  with id al show "paddr_ok (to_paddr p ID_OFFSET)" by (intro to_paddr_ok) simp_all
next
  fix ar m m'
  assume inv: "arena_inv ar m" and eq: "\<forall>q \<in> arena_free ar m. m' q = m q"
  obtain bs where ok: "arena_ok ar m bs" using inv by (auto simp: arena_inv_def)
  have "arena_ok ar m' bs"
    using eq by (intro arena_ok_frame [OF ok]) (auto simp: arena_free_eq [OF ok] free_pages_def)
  then show "arena_inv ar m'" "arena_free ar m' = arena_free ar m"
    using inv by (auto simp: arena_inv_def arena_free_eq [OF ok] arena_free_eq)
qed

section \<open>Lookups\<close>

lemma la2pa_leaf:
  "la2pa m root la is_kernel id_off =
     (if la \<ge> BLANK_BEGIN \<and> la \<le> BLANK_END then Inl PermissionDenied
      else (case pt_leaf m id_off root (vpn la) of
          None \<Rightarrow> Inl (EntryExistent False)
        | Some e \<Rightarrow>
            if attr_contains (snd (entry_get e 0)) USER_ACCESS \<or> is_kernel then Inr (entry_addr e 0)
            else Inl PermissionDenied))"
  by (cases "slot m id_off root (vpn la)")
    (simp_all add: la2pa_def la2pte_slot pt_leaf_def is_set_def entry_addr_def split_beta Let_def)

lemma la2pa_cong:
  "pt_leaf m' id_off root (vpn la) = pt_leaf m id_off root (vpn la)
   \<Longrightarrow> la2pa m' root la is_kernel id_off = la2pa m root la is_kernel id_off"
  by (simp only: la2pa_leaf)

lemma attr_or_in_all: "a AND attr_all = a \<Longrightarrow> b AND attr_all = b \<Longrightarrow> (a OR b) AND attr_all = a OR b"
  by (metis bit.conj_disj_distrib2)

section \<open>Properties\<close>

text \<open>
  C6: When \<open>mappages\<close> succeeds, none of the pages was mapped before, each of them now translates to
  its physical page, every other address translates as before, the tables still form a tree and
  the frame allocator owns none of them.
\<close>

theorem mappages_spec:
  assumes inv: "arena_inv ar m" and wf: "pt_wf m ID_OFFSET root"
    and own: "pt_pages m ID_OFFSET root \<inter> arena_free ar m = {}" and flags: "flags AND attr_all = flags"
    and eq: "mappages arena_alloc arena_dealloc root la pa flags npages ID_OFFSET ar m = (Inr e, ar', m')"
  shows "(\<forall>k < unat npages. \<forall>la'. la' = la + of_nat k * PAGE_SIZE \<and> \<not> (la' \<ge> BLANK_BEGIN \<and> la' \<le> BLANK_END) \<longrightarrow>
          la2pa m root la' True ID_OFFSET = Inl (EntryExistent False)
          \<and> la2pa m' root la' True ID_OFFSET = Inr ((pa + of_nat k * PAGE_SIZE) AND paddr_mask 0))
    \<and> (\<forall>la' is_kernel. (\<forall>k < unat npages. vpn la' \<noteq> vpn (la + of_nat k * PAGE_SIZE)) \<longrightarrow>
          la2pa m' root la' is_kernel ID_OFFSET = la2pa m root la' is_kernel ID_OFFSET)
    \<and> pt_wf m' ID_OFFSET root \<and> arena_inv ar' m' \<and> pt_pages m' ID_OFFSET root \<inter> arena_free ar' m' = {}"
proof -
  have st: "arena.pt_state root ar m" using inv wf own by (simp add: arena.pt_state_def)
  have mp: "map_pages arena_alloc arena_dealloc root la flags ID_OFFSET 1 (unat npages) la pa 0 ar m = (Inr e, ar', m')"
    using eq by (auto simp: mappages_def split: if_splits)
  note ok = arena.map_pages_ok [OF st mp]
  have ea: "entry_addr (entry_new x (flags OR VALID) 0) 0 = x AND paddr_mask 0" for x
    using entry_new_get [OF _ attr_or_in_all [OF flags VALID_in_all], of 0 x] by (simp add: entry_addr_def)
  have "la2pa m' root la' is_kernel ID_OFFSET = la2pa m root la' is_kernel ID_OFFSET"
    if "\<forall>k < unat npages. vpn la' \<noteq> vpn (la + of_nat k * PAGE_SIZE)" for la' is_kernel
    using ok that vpn_ok_vpn by (intro la2pa_cong) blast
  then show ?thesis
    using ok unfolding arena.pt_state_def by (auto simp: la2pa_leaf ea)
qed

definition pt_example_arena :: arena where
  "pt_example_arena = \<lparr>ar_head = 0, ar_top = 0xffffffc080000000, ar_base = 0xffffffc080000000,
     ar_end = 0xffffffc080008000, ar_count = 0\<rparr>"

definition pt_example_root :: laddr where
  "pt_example_root = 0xffffffc070000000"

definition pt_example_mem :: mem where
  "pt_example_mem = (\<lambda>p i. 0)"

lemma pt_example_state:
  "arena_inv pt_example_arena pt_example_mem" "pt_wf pt_example_mem ID_OFFSET pt_example_root"
  "pt_pages pt_example_mem ID_OFFSET pt_example_root \<inter> arena_free pt_example_arena pt_example_mem = {}"
proof -
  have ok: "arena_ok pt_example_arena pt_example_mem []"
    by (simp add: arena_ok_def pt_example_arena_def decompose_def page_aligned_def PAGE_MASK_def PAGE_SIZE_def)
  then show "arena_inv pt_example_arena pt_example_mem"
    by (auto simp: arena_inv_def pt_example_arena_def ID_OFFSET_def CANONICAL_PREFIX_def)
  have c: "child pt_example_mem ID_OFFSET t i = None" for t i
    by (simp add: child_def pt_example_mem_def entry_table_iff)
  then have l: "l1_tables pt_example_mem ID_OFFSET pt_example_root = {}" "l0_tables pt_example_mem ID_OFFSET pt_example_root = {}"
    by (simp_all add: l1_tables_def l0_tables_def)
  then show "pt_wf pt_example_mem ID_OFFSET pt_example_root"
    using c by (simp add: pt_wf_def pt_pages_def pt_example_root_def page_aligned_def PAGE_MASK_def PAGE_SIZE_def)
  have "pn pt_example_root \<notin> free_pages pt_example_arena []"
    by (simp add: free_pages_def pt_example_arena_def pt_example_root_def pn_def)
  then show "pt_pages pt_example_mem ID_OFFSET pt_example_root \<inter> arena_free pt_example_arena pt_example_mem = {}"
    by (simp add: pt_pages_def l arena_free_eq [OF ok])
qed

theorem mappages_spec_witness:
  "\<exists>e ar' m'. mappages arena_alloc arena_dealloc pt_example_root 0x40001000 0x80005000 USER_RW 2 ID_OFFSET
      pt_example_arena pt_example_mem = (Inr e, ar', m')
    \<and> la2pa pt_example_mem pt_example_root 0x40002000 True ID_OFFSET = Inl (EntryExistent False)
    \<and> la2pa m' pt_example_root 0x40002000 True ID_OFFSET = Inr 0x80006000"
proof -
  let ?r = "mappages arena_alloc arena_dealloc pt_example_root 0x40001000 0x80005000 USER_RW 2 ID_OFFSET
      pt_example_arena pt_example_mem"
  have "\<not> isl (fst ?r)" by code_simp
  then obtain e ar' m' where eq: "?r = (Inr e, ar', m')"
    by (metis isl_def prod.collapse sum.exhaust)
  have fl: "USER_RW AND attr_all = USER_RW" by code_simp
  have "1 < unat (2 :: usize)" "(0x40002000 :: usize) = 0x40001000 + of_nat 1 * PAGE_SIZE"
    "\<not> ((0x40002000 :: usize) \<ge> BLANK_BEGIN \<and> (0x40002000 :: usize) \<le> BLANK_END)"
    by (simp_all add: PAGE_SIZE_def BLANK_BEGIN_def)
  with mappages_spec [OF pt_example_state fl eq] 
  have "la2pa pt_example_mem pt_example_root 0x40002000 True ID_OFFSET = Inl (EntryExistent False)
    \<and> la2pa m' pt_example_root 0x40002000 True ID_OFFSET = Inr ((0x80005000 + of_nat 1 * PAGE_SIZE) AND paddr_mask 0)"
    by blast
  moreover have "(0x80005000 + of_nat 1 * PAGE_SIZE) AND paddr_mask 0 = 0x80006000"
    by (simp add: PAGE_SIZE_def paddr_mask_eq page_shift_def) (simp add: mask_eq_exp_minus_1)
  ultimately show ?thesis using eq by auto
qed

text \<open>
  C9: The three table indices and the offset in the page recover the 39 translated bits of an address.
\<close>

theorem addr_idx_split:
  "unat la mod 2 ^ 39 = addr_idx 2 la False * 2 ^ 30 + addr_idx 1 la False * 2 ^ 21
     + addr_idx 0 la False * 2 ^ 12 + unat (in_page_offset la)"
proof -
  have a: "x mod (b * 512) = x div b mod 512 * b + x mod b" for x b :: nat
    using mod_mult2_eq [of x b 512] by (simp add: mult.commute)
  have "unat la mod 2 ^ 39 = unat la div 2 ^ 30 mod 512 * 2 ^ 30 + unat la mod 2 ^ 30"
    using a [of "unat la" "2 ^ 30"] by simp
  also have "unat la mod 2 ^ 30 = unat la div 2 ^ 21 mod 512 * 2 ^ 21 + unat la mod 2 ^ 21"
    using a [of "unat la" "2 ^ 21"] by simp
  also have "unat la mod 2 ^ 21 = unat la div 2 ^ 12 mod 512 * 2 ^ 12 + unat la mod 2 ^ 12"
    using a [of "unat la" "2 ^ 12"] by simp
  finally show ?thesis
    by (simp add: addr_idx_eq page_shift_def in_page_offset_def PAGE_MASK_eq mask_unat)
qed

text \<open>
  What is stored in an entry is read back from it: the attributes exactly, and the address up to
  the bits its level has.
\<close>

theorem entry_roundtrip:
  assumes "l < 3" and "attr AND attr_all = attr"
  shows "entry_get (entry_new pa attr l) l = (pa AND paddr_mask l, attr)
    \<and> (paddr_ok pa \<longrightarrow> entry_get (entry_new pa attr 0) 0 = (pa, attr))"
  using assms entry_new_get [of l attr pa] entry_new_get [of 0 attr pa] by (simp add: paddr_ok_def)

theorem entry_roundtrip_witness:
  "entry_get (entry_new 0x80123000 USER_RWX 1) 1 = (0x80000000, USER_RWX)
   \<and> entry_get (entry_new 0x80123000 USER_RWX 0) 0 = (0x80123000, USER_RWX)"
proof -
  have "(1 :: nat) < 3" "USER_RWX AND attr_all = USER_RWX" by (simp, code_simp)
  moreover have "paddr_ok 0x80123000" "0x80123000 AND paddr_mask 1 = 0x80000000" by code_simp+
  ultimately show ?thesis using entry_roundtrip [of 1 USER_RWX "0x80123000"] by simp
qed

section \<open>Reprotecting\<close>

lemma reprotect_pages_ok:
  "pt_wf m id_off root \<Longrightarrow> flag AND attr_all = flag
   \<Longrightarrow> reprotect_pages root flag id_off n la pte m = (Inr e, m')
   \<Longrightarrow> pt_wf m' id_off root \<and> pt_pages m' id_off root = pt_pages m id_off root
     \<and> (\<forall>k < n. \<exists>p. slot m id_off root (vpn (la + of_nat k * PAGE_SIZE)) = Some p
          \<and> pt_leaf m' id_off root (vpn (la + of_nat k * PAGE_SIZE))
              = Some (entry_new (entry_addr (read_pte m p) 0) (flag OR VALID) 0))
     \<and> (\<forall>v. vpn_ok v \<longrightarrow> (\<forall>k < n. v \<noteq> vpn (la + of_nat k * PAGE_SIZE))
          \<longrightarrow> pt_leaf m' id_off root v = pt_leaf m id_off root v)"
proof (induction n arbitrary: la pte m)
  case (Suc n)
  let ?v = "vpn la"
  obtain p where sl: "slot m id_off root ?v = Some p"
    and rec: "reprotect_pages root flag id_off n (la + PAGE_SIZE) (entry_new (entry_addr (read_pte m p) 0) (flag OR VALID) 0)
       (write_pte m p (entry_new (entry_addr (read_pte m p) 0) (flag OR VALID) 0)) = (Inr e, m')"
    using Suc.prems(3) by (auto simp: la2pte_slot entry_addr_def split_beta Let_def split: option.splits)
  define e1 where "e1 = entry_new (entry_addr (read_pte m p) 0) (flag OR VALID) 0"
  define m1 where "m1 = write_pte m p e1"
  have fl: "(flag OR VALID) AND attr_all = flag OR VALID" by (rule attr_or_in_all [OF Suc.prems(2) VALID_in_all])
  have set: "is_set e1" by (simp add: e1_def is_set_iff entry_new_def bit_simps VALID_def)
  have idem: "entry_addr e1 0 = entry_addr (read_pte m p) 0"
    using entry_new_get [OF _ fl, of 0] by (simp add: e1_def entry_addr_def entry_get_def)
  note lw = leaf_write [OF Suc.prems(1) sl vpn_ok_vpn, where e = e1, folded m1_def]
  have sh: "x + PAGE_SIZE + of_nat k * PAGE_SIZE = x + of_nat (Suc k) * PAGE_SIZE" for x k
    by (simp add: algebra_simps)
  note IH = Suc.IH [OF lw(1) Suc.prems(2) rec [folded e1_def, folded m1_def], unfolded sh]
  have addr: "entry_addr (read_pte m1 q) 0 = entry_addr (read_pte m q) 0" for q
    using idem by (cases "q = p") (auto simp: m1_def read_pte_def write_pte_def prod_eq_iff)
  have later: "\<exists>p. slot m id_off root (vpn (la + of_nat (Suc k) * PAGE_SIZE)) = Some p
      \<and> pt_leaf m' id_off root (vpn (la + of_nat (Suc k) * PAGE_SIZE))
          = Some (entry_new (entry_addr (read_pte m p) 0) (flag OR VALID) 0)" if "k < n" for k
    using IH that lw(5) [OF vpn_ok_vpn] addr by fastforce
  have first: "pt_leaf m' id_off root ?v = Some e1"
  proof (cases "\<exists>k < n. ?v = vpn (la + of_nat (Suc k) * PAGE_SIZE)")
    case True
    then obtain k where k: "k < n" "?v = vpn (la + of_nat (Suc k) * PAGE_SIZE)" by blast
    from later [OF k(1), folded k(2)] sl show ?thesis by (auto simp: e1_def)
  next
    case False
    then have "pt_leaf m' id_off root ?v = pt_leaf m1 id_off root ?v" using IH vpn_ok_vpn by blast
    then show ?thesis using lw(4) [OF vpn_ok_vpn] set by simp
  qed
  have other: "pt_leaf m' id_off root v = pt_leaf m id_off root v"
    if "vpn_ok v" "v \<noteq> ?v" "\<forall>k < n. v \<noteq> vpn (la + of_nat (Suc k) * PAGE_SIZE)" for v
  proof -
    have "pt_leaf m' id_off root v = pt_leaf m1 id_off root v" using IH that by blast
    with lw(4) [OF that(1)] that(2) show ?thesis by simp
  qed
  show ?case
    using IH lw(2) first sl later other by (cases p) (simp add: All_less_Suc2 e1_def)
qed simp

text \<open>
  C8: When \<open>reprotect\<close> succeeds, each page of the range has the new attributes and the \<open>VALID\<close> bit,
  and still translates to the address its entry held; the tables and all other pages are unchanged.
\<close>

theorem reprotect_spec:
  assumes "pt_wf m id_off root" and "flag AND attr_all = flag"
    and "reprotect root la npages flag id_off m = (Inr e, m')"
  shows "pt_wf m' id_off root \<and> pt_pages m' id_off root = pt_pages m id_off root
    \<and> (\<forall>k < unat npages. \<exists>p e'. la2pte m root (la + of_nat k * PAGE_SIZE) id_off = Inr p
         \<and> pt_leaf m' id_off root (vpn (la + of_nat k * PAGE_SIZE)) = Some e'
         \<and> entry_get e' 0 = (entry_addr (read_pte m p) 0, flag OR VALID))
    \<and> (\<forall>la' is_kernel. (\<forall>k < unat npages. vpn la' \<noteq> vpn (la + of_nat k * PAGE_SIZE)) \<longrightarrow>
         la2pa m' root la' is_kernel id_off = la2pa m root la' is_kernel id_off)"
proof -
  have rp: "reprotect_pages root flag id_off (unat npages) la 0 m = (Inr e, m')"
    using assms(3) by (auto simp: reprotect_def split: if_splits)
  note ok = reprotect_pages_ok [OF assms(1,2) rp]
  have fl: "(flag OR VALID) AND attr_all = flag OR VALID" by (rule attr_or_in_all [OF assms(2) VALID_in_all])
  have get: "entry_get (entry_new (entry_addr x 0) (flag OR VALID) 0) 0 = (entry_addr x 0, flag OR VALID)" for x
    using entry_new_get [OF _ fl, of 0 "entry_addr x 0"] by (simp add: entry_addr_def entry_get_def)
  have "la2pa m' root la' is_kernel id_off = la2pa m root la' is_kernel id_off"
    if "\<forall>k < unat npages. vpn la' \<noteq> vpn (la + of_nat k * PAGE_SIZE)" for la' is_kernel
    using ok that vpn_ok_vpn by (intro la2pa_cong) blast
  moreover have "\<exists>p e'. la2pte m root (la + of_nat k * PAGE_SIZE) id_off = Inr p
         \<and> pt_leaf m' id_off root (vpn (la + of_nat k * PAGE_SIZE)) = Some e'
         \<and> entry_get e' 0 = (entry_addr (read_pte m p) 0, flag OR VALID)" if "k < unat npages" for k
  proof -
    from ok that obtain p where "slot m id_off root (vpn (la + of_nat k * PAGE_SIZE)) = Some p"
      "pt_leaf m' id_off root (vpn (la + of_nat k * PAGE_SIZE))
         = Some (entry_new (entry_addr (read_pte m p) 0) (flag OR VALID) 0)"
      by blast
    then show ?thesis using get by (simp add: la2pte_slot)
  qed
  ultimately show ?thesis using ok by blast
qed

text \<open>A memory with one table on each level, in which the first page of the 1 GiB slot 1 is mapped.\<close>

definition pt_example_mapped :: mem where
  "pt_example_mapped = snd (snd (mappages arena_alloc arena_dealloc pt_example_root 0x40001000 0x80005000 USER_RW 1
     ID_OFFSET pt_example_arena pt_example_mem))"

lemma pt_example_mapped_wf: "pt_wf pt_example_mapped ID_OFFSET pt_example_root"
proof -
  let ?r = "mappages arena_alloc arena_dealloc pt_example_root 0x40001000 0x80005000 USER_RW 1 ID_OFFSET
      pt_example_arena pt_example_mem"
  have "\<not> isl (fst ?r)" by code_simp
  then obtain e ar' m' where eq: "?r = (Inr e, ar', m')"
    by (metis isl_def prod.collapse sum.exhaust)
  then have mp: "map_pages arena_alloc arena_dealloc pt_example_root 0x40001000 USER_RW ID_OFFSET 1 1 0x40001000 0x80005000 0
      pt_example_arena pt_example_mem = (Inr e, ar', m')"
    by (auto simp: mappages_def split: if_splits)
  have "arena.pt_state pt_example_root pt_example_arena pt_example_mem"
    using pt_example_state by (simp add: arena.pt_state_def)
  from arena.map_pages_ok [OF this mp] eq show ?thesis
    by (simp add: pt_example_mapped_def arena.pt_state_def)
qed

theorem reprotect_spec_witness:
  "\<exists>e m'. reprotect pt_example_root 0x40001000 1 USER_R ID_OFFSET pt_example_mapped = (Inr e, m')
     \<and> (\<exists>e'. pt_leaf m' ID_OFFSET pt_example_root (vpn 0x40001000) = Some e' \<and> snd (entry_get e' 0) = USER_R OR VALID)"
proof -
  let ?r = "reprotect pt_example_root 0x40001000 1 USER_R ID_OFFSET pt_example_mapped"
  have "\<not> isl (fst ?r)" by code_simp
  then obtain e m' where eq: "?r = (Inr e, m')" by (metis isl_def prod.collapse sum.exhaust)
  have "USER_R AND attr_all = USER_R" by code_simp
  from reprotect_spec [OF pt_example_mapped_wf this eq] eq show ?thesis by fastforce
qed

section \<open>Unmapping\<close>

lemma foldl_snd_same: "(\<And>c x. snd (f (c, s) x) = s) \<Longrightarrow> snd (foldl f (c, s) xs) = s"
  by (induction xs arbitrary: c) (simp, metis foldl_Cons prod.collapse)

text \<open>
  C10: \<open>unmap\<close> of a range that starts and ends inside one 1 GiB slot other than the first does
  nothing at all: the end index is rounded down to the slot itself, so that no entry is visited.
\<close>

theorem unmap_inside_slot:
  assumes "addr_idx 2 start False = addr_idx 2 fin False" and "addr_idx 2 start False \<noteq> 0" and "fin \<le> 0x8000000000"
  shows "unmap dealloc root (start, fin) id_off a m = (a, m)"
proof -
  have "min fin (0 + page_size 2 * of_nat NR_ENTRIES) = fin"
    using assms(3) by (simp add: page_size_def page_shift_def NR_ENTRIES_def min_def)
  moreover have "addr_idx 2 fin True = addr_idx 2 fin False"
    using assms(1,2) by (simp add: addr_idx_def Let_def split: if_splits)
  ultimately have empty: "\<not> (addr_idx 2 start False \<le> index
      \<and> index < addr_idx 2 (min fin (0 + page_size 2 * of_nat NR_ENTRIES)) True)" for index
    using assms(1) by simp
  show ?thesis
    unfolding unmap_def unmap_impl.simps [of _ _ _ _ 2] Let_def split_beta
    by (simp only: fst_conv snd_conv prod.collapse) (rule foldl_snd_same, use empty in auto)
qed

theorem unmap_inside_slot_witness:
  "la2pa (snd (unmap arena_dealloc pt_example_root (0x40001000, 0x40002000) ID_OFFSET pt_example_arena pt_example_mapped))
     pt_example_root 0x40001000 True ID_OFFSET = Inr 0x80005000"
proof -
  have "addr_idx 2 0x40001000 False = addr_idx 2 0x40002000 False" "addr_idx 2 0x40001000 False \<noteq> 0"
    "(0x40002000 :: usize) \<le> 0x8000000000"
    by (simp_all add: addr_idx_eq page_shift_def)
  note u = unmap_inside_slot [OF this, of arena_dealloc pt_example_root ID_OFFSET pt_example_arena pt_example_mapped]
  have "la2pa pt_example_mapped pt_example_root 0x40001000 True ID_OFFSET = Inr 0x80005000" by code_simp
  with u show ?thesis by simp
qed

end
