(* ===== verification/Sig.thy ===== *)
theory Sig
  imports Prelude
begin

text \<open>
  \<^verbatim>\<open>mizu/lib/sygnal/src/types.rs\<close>: signal numbers and sets of signals. A \<open>Sig\<close> is the \<open>i32\<close> it wraps and
  a \<open>SigSet\<close> the \<open>u64\<close> it wraps. Shift amounts are taken modulo the width, as in release builds.
\<close>

section \<open>Signal numbers\<close>

type_synonym sig = "32 word"

definition NR_SIGNALS :: nat where "NR_SIGNALS = 64"

definition SIGKILL :: sig where "SIGKILL = 9"
definition SIGCHLD :: sig where "SIGCHLD = 17"
definition SIGCONT :: sig where "SIGCONT = 18"
definition SIGSTOP :: sig where "SIGSTOP = 19"
definition SIGURG :: sig where "SIGURG = 23"
definition SIG_LEGACY_MAX :: sig where "SIG_LEGACY_MAX = 32"
definition SIG_MAX :: sig where "SIG_MAX = 64"

definition sig_from_index :: "usize \<Rightarrow> sig option" where
  "sig_from_index index = (if unat index < NR_SIGNALS then Some (ucast index + 1) else None)"

definition sig_try_from :: "usize \<Rightarrow> usize + sig" where
  "sig_try_from value = (case sig_from_index value of Some s \<Rightarrow> Inr s | None \<Rightarrow> Inl value)"

definition is_legacy :: "sig \<Rightarrow> bool" where
  "is_legacy s \<longleftrightarrow> sint s \<le> sint SIG_LEGACY_MAX"

definition sig_new :: "sig \<Rightarrow> sig option" where
  "sig_new s = (if sint s \<le> sint SIG_MAX then Some s else None)"

definition sig_mask :: "sig \<Rightarrow> u64" where
  "sig_mask s = push_bit (unat (s - 1) mod 64) 1"

definition sig_index :: "sig \<Rightarrow> usize" where
  "sig_index s = scast (s - 1)"

definition should_never_capture :: "sig \<Rightarrow> bool" where
  "should_never_capture s \<longleftrightarrow> s = SIGKILL \<or> s = SIGSTOP"

section \<open>Sets of signals\<close>

type_synonym sig_set = u64

definition sigset_of :: "sig \<Rightarrow> sig_set" where
  "sigset_of s = sig_mask s"

definition sigset_is_empty :: "sig_set \<Rightarrow> bool" where
  "sigset_is_empty ss \<longleftrightarrow> ss = 0"

definition clear_never_capture :: "sig_set \<Rightarrow> sig_set" where
  "clear_never_capture ss = ss AND NOT (sig_mask SIGKILL OR sig_mask SIGSTOP)"

definition sigset_contains :: "sig_set \<Rightarrow> sig_set \<Rightarrow> bool" where
  "sigset_contains ss other \<longleftrightarrow> NOT ss AND other = 0"

definition contains_index :: "sig_set \<Rightarrow> usize \<Rightarrow> bool" where
  "contains_index ss other =
     (case sig_from_index other of
        Some other \<Rightarrow> sigset_contains ss (sigset_of other)
      | None \<Rightarrow> False)"

definition sigset_insert :: "sig_set \<Rightarrow> sig \<Rightarrow> bool \<times> sig_set" where
  "sigset_insert ss s =
     (if sigset_contains ss (sigset_of s) then (False, ss) else (True, ss OR sig_mask s))"

definition sigset_remove :: "sig_set \<Rightarrow> sig \<Rightarrow> bool \<times> sig_set" where
  "sigset_remove ss s =
     (if sigset_contains ss (sigset_of s) then (True, ss AND NOT (sigset_of s)) else (False, ss))"

text \<open>The \<open>Iterator\<close> of a set yields its signals; \<open>sigset_list\<close> runs it to its end.\<close>

definition sigset_next :: "sig_set \<Rightarrow> (sig \<times> sig_set) option" where
  "sigset_next ss =
     (if ss \<noteq> 0
      then (let next = trailing_zeros ss in Some (of_nat (next + 1), ss - push_bit next 1))
      else None)"

lemma sigset_next_less: "sigset_next ss = Some (s, ss') \<Longrightarrow> unat ss' < unat ss"
proof -
  assume "sigset_next ss = Some (s, ss')"
  then have nz: "ss \<noteq> 0" and ss': "ss' = ss - push_bit (trailing_zeros ss) 1"
    by (auto simp: sigset_next_def Let_def split: if_splits)
  note tz = trailing_zeros_least [OF nz]
  let ?b = "push_bit (trailing_zeros ss) 1 :: u64"
  have "ss AND ?b = ?b"
    using tz by (intro bit_word_eqI) (auto simp: bit_simps)
  then have "?b \<le> ss" using word_and_le1 [of ss ?b] by (metis and.commute word_and_le2)
  moreover have "?b \<noteq> 0" using tz(3) by simp
  ultimately show ?thesis
    unfolding ss' by (simp add: unat_sub_no_underflow word_le_nat_alt unat_zero_iff [symmetric])
qed

function sigset_list :: "sig_set \<Rightarrow> sig list" where
  "sigset_list ss = (case sigset_next ss of None \<Rightarrow> [] | Some (s, ss') \<Rightarrow> s # sigset_list ss')"
  by auto
termination
  by (relation "measure unat") (auto dest: sigset_next_less)

declare sigset_list.simps [simp del]

section \<open>The signals 1 to 64\<close>

definition sig_of :: "nat \<Rightarrow> sig" where
  "sig_of i = of_nat (Suc i)"

definition sig_ok :: "sig \<Rightarrow> bool" where
  "sig_ok s \<longleftrightarrow> 1 \<le> sint s \<and> sint s \<le> 64"

lemma sint_small: "n < 2 ^ 31 \<Longrightarrow> sint (of_nat n :: sig) = int n"
  by (simp add: signed_take_bit_int_eq_self signed_of_nat)

lemma sint_sig_of: "i < 64 \<Longrightarrow> sint (sig_of i) = int i + 1"
  using sint_small [of "Suc i"] by (simp add: sig_of_def)

lemma sig_of_minus: "sig_of i - 1 = of_nat i"
  by (simp add: sig_of_def)

lemma sig_ok_iff: "sig_ok s \<longleftrightarrow> (\<exists>i < 64. s = sig_of i)"
proof
  assume "sig_ok s"
  then have b: "1 \<le> sint s" "sint s \<le> 64" by (simp_all add: sig_ok_def)
  then have "s = sig_of (nat (sint s - 1))"
    by (simp add: sig_of_def of_nat_nat)
  then show "\<exists>i < 64. s = sig_of i" using b by (intro exI [of _ "nat (sint s - 1)"]) auto
qed (auto simp: sig_ok_def sint_sig_of)

lemma sig_mask_sig_of: "i < 64 \<Longrightarrow> sig_mask (sig_of i) = push_bit i 1"
  by (simp add: sig_mask_def sig_of_minus unat_of_nat)

lemma sig_index_sig_of: "i < 64 \<Longrightarrow> sig_index (sig_of i) = of_nat i"
  by (simp add: sig_index_def sig_of_minus) (simp add: scast_eq sint_small)

lemma sig_from_index_sig_of: "i < 64 \<Longrightarrow> sig_from_index (of_nat i) = Some (sig_of i)"
proof -
  assume "i < 64"
  then have u: "unat (of_nat i :: usize) = i" by (simp add: unat_of_nat)
  have "(ucast (of_nat i :: usize) :: sig) = of_nat (unat (of_nat i :: usize))" by (rule of_nat_unat [symmetric])
  then have c: "(ucast (of_nat i :: usize) :: sig) = of_nat i" unfolding u .
  show ?thesis
    unfolding sig_from_index_def u c sig_of_def using \<open>i < 64\<close> by (simp add: NR_SIGNALS_def)
qed

lemma is_legacy_sig_of: "i < 64 \<Longrightarrow> is_legacy (sig_of i) \<longleftrightarrow> i < 32"
  by (auto simp: is_legacy_def SIG_LEGACY_MAX_def sint_sig_of)

lemma sigset_contains_sig_of: "i < 64 \<Longrightarrow> sigset_contains ss (sigset_of (sig_of i)) \<longleftrightarrow> bit ss i"
proof -
  assume i: "i < 64"
  have b: "bit (NOT ss AND push_bit i 1) n \<longleftrightarrow> n = i \<and> \<not> bit ss i" for n
    using i by (auto simp: bit_simps)
  have "NOT ss AND push_bit i 1 = 0 \<longleftrightarrow> bit ss i"
    unfolding word_zero_iff_bits b by blast
  then show ?thesis using i by (simp add: sigset_contains_def sigset_of_def sig_mask_sig_of)
qed

section \<open>Sets of signals as sets\<close>

text \<open>The contract of a set with insertion and removal that report whether they changed it.\<close>

locale reporting_set =
  fixes ok :: "'e \<Rightarrow> bool"
    and mem :: "'s \<Rightarrow> 'e \<Rightarrow> bool"
    and ins :: "'s \<Rightarrow> 'e \<Rightarrow> bool \<times> 's"
    and rem :: "'s \<Rightarrow> 'e \<Rightarrow> bool \<times> 's"
  assumes ins_reports: "ok e \<Longrightarrow> fst (ins s e) \<longleftrightarrow> \<not> mem s e"
    and rem_reports: "ok e \<Longrightarrow> fst (rem s e) \<longleftrightarrow> mem s e"
    and mem_ins: "ok e \<Longrightarrow> ok f \<Longrightarrow> mem (snd (ins s e)) f \<longleftrightarrow> f = e \<or> mem s f"
    and mem_rem: "ok e \<Longrightarrow> ok f \<Longrightarrow> mem (snd (rem s e)) f \<longleftrightarrow> f \<noteq> e \<and> mem s f"
begin

lemma ins_twice: "ok e \<Longrightarrow> \<not> fst (ins (snd (ins s e)) e)"
  by (simp add: ins_reports mem_ins)

lemma rem_after_ins: "ok e \<Longrightarrow> fst (rem (snd (ins s e)) e)"
  by (simp add: rem_reports mem_ins)

lemma rem_undoes_ins: "ok e \<Longrightarrow> ok f \<Longrightarrow> \<not> mem s e \<Longrightarrow> mem (snd (rem (snd (ins s e)) e)) f \<longleftrightarrow> mem s f"
  by (auto simp: mem_rem mem_ins)

end

definition sigset_mem :: "sig_set \<Rightarrow> sig \<Rightarrow> bool" where
  "sigset_mem ss s \<longleftrightarrow> sigset_contains ss (sigset_of s)"

lemma sigset_mem_sig_of: "i < 64 \<Longrightarrow> sigset_mem ss (sig_of i) \<longleftrightarrow> bit ss i"
  by (simp add: sigset_mem_def sigset_contains_sig_of)

lemma sig_of_inj: "i < 64 \<Longrightarrow> j < 64 \<Longrightarrow> sig_of i = sig_of j \<longleftrightarrow> i = j"
  by (metis sint_sig_of add_right_cancel of_nat_eq_iff)

lemma sigset_remove_sig_of:
  assumes "i < 64"
  shows "sigset_remove ss (sig_of i) = (if bit ss i then (True, ss AND NOT (push_bit i 1)) else (False, ss))"
  unfolding sigset_remove_def sigset_contains_sig_of [OF assms]
  by (simp add: sigset_of_def sig_mask_sig_of [OF assms])

interpretation sigset: reporting_set sig_ok sigset_mem sigset_insert sigset_remove
proof unfold_locales
  fix ss e assume e: "sig_ok e"
  show "fst (sigset_insert ss e) \<longleftrightarrow> \<not> sigset_mem ss e"
    by (simp add: sigset_insert_def sigset_mem_def)
  show "fst (sigset_remove ss e) \<longleftrightarrow> sigset_mem ss e"
    by (simp add: sigset_remove_def sigset_mem_def)
  fix f assume f: "sig_ok f"
  obtain i where i: "i < 64" "e = sig_of i" using e by (auto simp: sig_ok_iff)
  obtain j where j: "j < 64" "f = sig_of j" using f by (auto simp: sig_ok_iff)
  show "sigset_mem (snd (sigset_insert ss e)) f \<longleftrightarrow> f = e \<or> sigset_mem ss f"
    using i j by (auto simp: sigset_insert_def sigset_contains_sig_of sigset_mem_sig_of sig_of_inj
        sig_mask_sig_of bit_simps)
  show "sigset_mem (snd (sigset_remove ss e)) f \<longleftrightarrow> f \<noteq> e \<and> sigset_mem ss f"
    using i j by (auto simp: sigset_remove_sig_of sigset_mem_sig_of sig_of_inj bit_simps)
qed

section \<open>Iteration\<close>

lemma sub_flag:
  assumes "bit (w :: u64) t" "t < 64"
  shows "w - push_bit t 1 = w AND NOT (push_bit t 1)"
proof -
  let ?b = "push_bit t 1 :: u64"
  have "(w AND NOT ?b) + ?b = (w AND NOT ?b) OR ?b"
    by (rule disjunctive_add) (simp add: bit_and_iff bit_not_iff)
  also have "\<dots> = w"
    using assms by (intro bit_word_eqI) (auto simp: bit_simps)
  finally show ?thesis by (metis add_diff_cancel_right')
qed

lemma filter_upt_least:
  assumes "P t" "\<And>i. i < t \<Longrightarrow> \<not> P i" "t < n"
  shows "filter P [0..<n] = t # filter (\<lambda>i. P i \<and> i \<noteq> t) [0..<n]"
proof -
  have "[0..<n] = [0..<t] @ t # [Suc t..<n]"
    using assms(3) by (metis upt_add_eq_append upt_conv_Cons le_add_diff_inverse less_imp_le zero_le)
  moreover have "filter P [0..<t] = []" using assms(2) by simp
  moreover have "filter (\<lambda>i. P i \<and> i \<noteq> t) [Suc t..<n] = filter P [Suc t..<n]" by (rule filter_cong) auto
  ultimately show ?thesis using assms(1,2) by (simp add: filter_empty_conv)
qed

lemma sigset_list_eq: "sigset_list ss = map sig_of (filter (bit ss) [0..<64])"
proof (induction ss rule: sigset_list.induct)
  case (1 ss)
  show ?case
  proof (cases "ss = 0")
    case True
    then show ?thesis by (simp add: sigset_list.simps [of 0] sigset_next_def)
  next
    case False
    let ?t = "trailing_zeros ss"
    note tz = trailing_zeros_least [OF False]
    have nx: "sigset_next ss = Some (sig_of ?t, ss - push_bit ?t 1)"
      using False by (simp add: sigset_next_def sig_of_def Let_def)
    have "bit (ss - push_bit ?t 1) i \<longleftrightarrow> bit ss i \<and> i \<noteq> ?t" if "i < 64" for i
      unfolding sub_flag [OF tz(1,3)] using that tz(3) by (auto simp: bit_simps)
    then have "filter (bit (ss - push_bit ?t 1)) [0..<64] = filter (\<lambda>i. bit ss i \<and> i \<noteq> ?t) [0..<64]"
      by (intro filter_cong) auto
    with 1 [OF nx refl] filter_upt_least [of "bit ss" ?t 64] tz nx show ?thesis
      by (simp add: sigset_list.simps [of ss])
  qed
qed

section \<open>Properties\<close>

text \<open>
  C11: Iterating over a \<open>SigSet\<close> ends and yields exactly the signals in the set, in ascending order.
\<close>

theorem sigset_iteration:
  "sigset_list ss = map sig_of (filter (\<lambda>i. contains_index ss (of_nat i)) [0..<64])"
proof -
  have "contains_index ss (of_nat i) \<longleftrightarrow> bit ss i" if "i < 64" for i
    using that by (simp add: contains_index_def sig_from_index_sig_of sigset_contains_sig_of)
  then have "filter (bit ss) [0..<64] = filter (\<lambda>i. contains_index ss (of_nat i)) [0..<64]"
    by (intro filter_cong) auto
  then show ?thesis by (simp add: sigset_list_eq)
qed

end
