(* ===== verification/Signals.thy ===== *)
theory Signals
  imports Sig
begin

text \<open>
  \<^verbatim>\<open>mizu/lib/sygnal/src/queue.rs\<close> and \<^verbatim>\<open>action.rs\<close>: the pending signals of a task and its signal actions.

  The \<open>ArrayQueue\<close> of the \<open>crossbeam\<close> crate is a parameter: a record of its operations on a queue
  type \<open>'q\<close>, with its documented behaviour, a bounded first-in first-out queue, as the locale
  \<open>array_queue\<close>. \<open>push\<close> and \<open>pop\<close> are each composed of the atomic actions they perform, so that
  interleavings of the two can be stated.
\<close>

section \<open>Pending signals\<close>

datatype sig_fields =
    FieldsNone
  | FieldsKill usize usize
  | FieldsChld usize usize "32 word"
  | FieldsSys usize u32

record sig_info =
  si_sig :: sig
  si_code :: "32 word"
  si_fields :: sig_fields

record 'q queue_ops =
  qo_new :: "nat \<Rightarrow> 'q"
  qo_push :: "'q \<Rightarrow> sig_info \<Rightarrow> 'q option"
  qo_pop :: "'q \<Rightarrow> (sig_info \<times> 'q) option"
  qo_is_empty :: "'q \<Rightarrow> bool"

definition CAP_PER_SIG :: nat where "CAP_PER_SIG = 8"

record 'q signals =
  sg_set :: sig_set
  sg_pending :: "'q list"

definition signals_new :: "'q queue_ops \<Rightarrow> 'q signals" where
  "signals_new Q =
     \<lparr>sg_set = 0,
      sg_pending = map (\<lambda>index. qo_new Q (case sig_from_index (of_nat index) of
          Some sig \<Rightarrow> if is_legacy sig then 1 else CAP_PER_SIG
        | None \<Rightarrow> CAP_PER_SIG)) [0..<NR_SIGNALS]\<rparr>"

definition push_fetch_or :: "'q signals \<Rightarrow> sig_info \<Rightarrow> sig_set \<times> 'q signals" where
  "push_fetch_or sg info = (sg_set sg, sg\<lparr>sg_set := sg_set sg OR sig_mask (si_sig info)\<rparr>)"

definition push_enqueue :: "'q queue_ops \<Rightarrow> sig_set \<Rightarrow> 'q signals \<Rightarrow> sig_info \<Rightarrow> 'q signals outcome" where
  "push_enqueue Q old sg info =
     (if \<not> (is_legacy (si_sig info) \<and> sigset_contains old (sigset_of (si_sig info)))
      then (let index = unat (sig_index (si_sig info)) in
            if index < length (sg_pending sg)
            then (case qo_push Q (sg_pending sg ! index) info of
                    Some q \<Rightarrow> Returns (sg\<lparr>sg_pending := (sg_pending sg)[index := q]\<rparr>)
                  | None \<Rightarrow> Returns sg)
            else Panics)
      else Returns sg)"

definition signals_push :: "'q queue_ops \<Rightarrow> 'q signals \<Rightarrow> sig_info \<Rightarrow> 'q signals outcome" where
  "signals_push Q sg info = (let (old, sg) = push_fetch_or sg info in push_enqueue Q old sg info)"

definition signals_is_empty :: "'q signals \<Rightarrow> bool" where
  "signals_is_empty sg \<longleftrightarrow> sg_set sg = 0"

fun pop_scan ::
    "'q queue_ops \<Rightarrow> sig_set \<Rightarrow> nat \<Rightarrow> 'q list \<Rightarrow> (sig_info \<times> bool \<times> 'q list) option" where
  "pop_scan Q masked index [] = None"
| "pop_scan Q masked index (q # qs) =
     (let rest = map_option (\<lambda>(s, e, qs). (s, e, q # qs)) (pop_scan Q masked (Suc index) qs) in
      if contains_index masked (of_nat index) then rest
      else (case qo_pop Q q of
              Some (s, q) \<Rightarrow> Some (s, qo_is_empty Q q, q # qs)
            | None \<Rightarrow> rest))"

definition pop_dequeue ::
    "'q queue_ops \<Rightarrow> 'q signals \<Rightarrow> sig_set \<Rightarrow> (sig_info \<times> bool \<times> 'q signals) option" where
  "pop_dequeue Q sg masked =
     (if signals_is_empty sg then None
      else map_option (\<lambda>(s, e, qs). (s, e, sg\<lparr>sg_pending := qs\<rparr>))
             (pop_scan Q (clear_never_capture masked) 0 (sg_pending sg)))"

definition pop_fetch_and :: "'q signals \<Rightarrow> sig_info \<Rightarrow> bool \<Rightarrow> 'q signals" where
  "pop_fetch_and sg info is_empty =
     (if is_empty then sg\<lparr>sg_set := sg_set sg AND NOT (sig_mask (si_sig info))\<rparr> else sg)"

definition signals_pop :: "'q queue_ops \<Rightarrow> 'q signals \<Rightarrow> sig_set \<Rightarrow> sig_info option \<times> 'q signals" where
  "signals_pop Q sg masked =
     (case pop_dequeue Q sg masked of
        None \<Rightarrow> (None, sg)
      | Some (info, is_empty, sg) \<Rightarrow> (Some info, pop_fetch_and sg info is_empty))"

section \<open>Signal actions\<close>

datatype action_type =
    ActIgnore
  | ActKill
  | ActSuspend
  | ActResume
  | ActUser usize bool bool

definition action_type_default :: "sig \<Rightarrow> action_type" where
  "action_type_default sig =
     (if sig = SIGCHLD \<or> sig = SIGURG then ActIgnore
      else if sig = SIGSTOP then ActSuspend
      else if sig = SIGCONT then ActResume
      else ActKill)"

record action =
  act_ty :: action_type
  act_mask :: sig_set

definition action_default :: "sig \<Rightarrow> action" where
  "action_default sig = \<lparr>act_ty = action_type_default sig, act_mask = 0\<rparr>"

definition default_sig_mask :: sig_set where
  "default_sig_mask =
     fold (\<lambda>sig ss. if action_type_default sig = ActIgnore then ss OR sig_mask sig else ss)
       (List.map_filter (\<lambda>i. sig_from_index (of_nat i)) [0..<NR_SIGNALS]) 0"

type_synonym action_set = "action list"

definition action_set_new :: action_set where
  "action_set_new = map (\<lambda>i. action_default (case sig_from_index (of_nat i) of Some sig \<Rightarrow> sig | None \<Rightarrow> 0)) [0..<NR_SIGNALS]"

definition action_get :: "action_set \<Rightarrow> sig \<Rightarrow> action outcome" where
  "action_get as sig =
     (let index = unat (sig_index sig) in if index < length as then Returns (as ! index) else Panics)"

definition action_replace :: "action_set \<Rightarrow> sig \<Rightarrow> action \<Rightarrow> (action \<times> action_set) outcome" where
  "action_replace as sig new =
     (let index = unat (sig_index sig) in
      if index < length as
      then Returns (as ! index,
             as[index := if should_never_capture sig then action_default sig else new])
      else Panics)"

definition deep_fork :: "action_set \<Rightarrow> action_set" where
  "deep_fork as = map (\<lambda>i. as ! i) [0..<NR_SIGNALS]"

section \<open>The invariant\<close>

text \<open>
  The bit of a signal is set exactly when its queue has an entry; queues hold entries of their own
  signal and have the capacity of their class. \<open>items\<close> and \<open>cap\<close> are what a queue holds and can hold.
\<close>

definition queue_cap :: "nat \<Rightarrow> nat" where
  "queue_cap i = (if i < 32 then 1 else 8)"

definition pending_items :: "('q \<Rightarrow> sig_info list) \<Rightarrow> 'q signals \<Rightarrow> nat \<Rightarrow> sig_info list" where
  "pending_items items sg i = items (sg_pending sg ! i)"

definition signals_wf :: "('q \<Rightarrow> sig_info list) \<Rightarrow> ('q \<Rightarrow> nat) \<Rightarrow> 'q signals \<Rightarrow> bool" where
  "signals_wf items cap sg \<longleftrightarrow> length (sg_pending sg) = 64
     \<and> (\<forall>i < 64. (bit (sg_set sg) i \<longleftrightarrow> pending_items items sg i \<noteq> [])
          \<and> cap (sg_pending sg ! i) = queue_cap i
          \<and> (\<forall>x \<in> set (pending_items items sg i). si_sig x = sig_of i))"

definition deliverable :: "('q \<Rightarrow> sig_info list) \<Rightarrow> 'q signals \<Rightarrow> sig_set \<Rightarrow> nat \<Rightarrow> bool" where
  "deliverable items sg masked i \<longleftrightarrow> i < 64 \<and> pending_items items sg i \<noteq> []
     \<and> (\<not> bit masked i \<or> should_never_capture (sig_of i))"

lemma never_capture_iff: "i < 64 \<Longrightarrow> should_never_capture (sig_of i) \<longleftrightarrow> i = 8 \<or> i = 18"
  using sig_of_inj [of i 8] sig_of_inj [of i 18]
  by (simp add: should_never_capture_def SIGKILL_def SIGSTOP_def) (simp add: sig_of_def)

lemma contains_clear:
  assumes "i < 64"
  shows "contains_index (clear_never_capture masked) (of_nat i)
    \<longleftrightarrow> bit masked i \<and> \<not> should_never_capture (sig_of i)"
proof -
  have m: "sig_mask SIGKILL = push_bit 8 1" "sig_mask SIGSTOP = push_bit 18 1"
    by (simp_all add: sig_mask_def SIGKILL_def SIGSTOP_def)
  have "bit (clear_never_capture masked) i \<longleftrightarrow> bit masked i \<and> i \<noteq> 8 \<and> i \<noteq> 18"
    unfolding clear_never_capture_def bit_and_iff bit_not_iff bit_or_iff m bit_flag using assms by auto
  then show ?thesis
    using assms by (simp add: contains_index_def sig_from_index_sig_of sigset_contains_sig_of never_capture_iff)
qed

section \<open>The contract of the queue\<close>

locale array_queue =
  fixes Q :: "'q queue_ops"
    and items :: "'q \<Rightarrow> sig_info list"
    and cap :: "'q \<Rightarrow> nat"
  assumes new_items: "items (qo_new Q n) = []"
    and new_cap: "cap (qo_new Q n) = n"
    and push_ok: "length (items q) < cap q \<Longrightarrow> \<exists>q'. qo_push Q q x = Some q' \<and> items q' = items q @ [x] \<and> cap q' = cap q"
    and push_full: "\<not> length (items q) < cap q \<Longrightarrow> qo_push Q q x = None"
    and pop_empty: "items q = [] \<Longrightarrow> qo_pop Q q = None"
    and pop_ok: "items q = x # xs \<Longrightarrow> \<exists>q'. qo_pop Q q = Some (x, q') \<and> items q' = xs \<and> cap q' = cap q"
    and is_empty_iff: "qo_is_empty Q q \<longleftrightarrow> items q = []"
begin

lemma signals_new_wf: "signals_wf items cap (signals_new Q)"
  by (auto simp: signals_wf_def signals_new_def pending_items_def NR_SIGNALS_def new_items new_cap
      sig_from_index_sig_of is_legacy_sig_of queue_cap_def CAP_PER_SIG_def)

lemma signals_push_ok:
  assumes wf: "signals_wf items cap sg" and i: "i < 64" and sig: "si_sig info = sig_of i"
  shows "\<exists>sg'. signals_push Q sg info = Returns sg' \<and> signals_wf items cap sg'
    \<and> (\<forall>j < 64. pending_items items sg' j =
         (if j = i \<and> length (pending_items items sg i) < queue_cap i
          then pending_items items sg i @ [info] else pending_items items sg j))"
proof -
  let ?q = "sg_pending sg ! i" and ?s1 = "sg\<lparr>sg_set := sg_set sg OR push_bit i 1\<rparr>"
  have len: "length (sg_pending sg) = 64" and cap: "cap ?q = queue_cap i"
    and bit: "bit (sg_set sg) i \<longleftrightarrow> items ?q \<noteq> []"
    using wf i by (simp_all add: signals_wf_def pending_items_def)
  have push: "signals_push Q sg info =
     (if i < 32 \<and> bit (sg_set sg) i then Returns ?s1
      else case qo_push Q ?q info of
          Some q \<Rightarrow> Returns (?s1\<lparr>sg_pending := (sg_pending sg)[i := q]\<rparr>)
        | None \<Rightarrow> Returns ?s1)"
    using i len
    by (cases "qo_push Q ?q info") (simp_all add: signals_push_def push_fetch_or_def push_enqueue_def sig sig_mask_sig_of sig_index_sig_of
        is_legacy_sig_of sigset_contains_sig_of unat_of_nat Let_def)
  show ?thesis
  proof (cases "length (items ?q) < queue_cap i")
    case True
    then have "\<not> (i < 32 \<and> bit (sg_set sg) i)" using bit by (auto simp: queue_cap_def)
    moreover obtain q' where q': "qo_push Q ?q info = Some q'" "items q' = items ?q @ [info]" "cap q' = cap ?q"
      using push_ok True cap by metis
    ultimately have r: "signals_push Q sg info = Returns (?s1\<lparr>sg_pending := (sg_pending sg)[i := q']\<rparr>)"
      unfolding push by auto
    show ?thesis
      unfolding r using wf i len q' True sig cap
      by (auto simp: signals_wf_def pending_items_def nth_list_update bit_simps)
  next
    case False
    then have set: "bit (sg_set sg) i" using bit by (auto simp: queue_cap_def split: if_splits)
    then have "?s1 = sg"
      using i by (intro signals.equality) (auto intro!: bit_word_eqI simp: bit_simps)
    moreover have "qo_push Q ?q info = None" using push_full False cap by simp
    ultimately have r: "signals_push Q sg info = Returns sg" unfolding push by simp
    show ?thesis unfolding r using wf False by (auto simp: pending_items_def)
  qed
qed

lemma pop_scan_None:
  "pop_scan Q masked k qs = None \<longleftrightarrow>
     (\<forall>i < length qs. contains_index masked (of_nat (k + i)) \<or> items (qs ! i) = [])"
proof (induction qs arbitrary: k)
  case (Cons q qs)
  have "(\<forall>i < length (q # qs). contains_index masked (of_nat (k + i)) \<or> items ((q # qs) ! i) = [])
    \<longleftrightarrow> (contains_index masked (of_nat k) \<or> items q = [])
      \<and> (\<forall>i < length qs. contains_index masked (of_nat (Suc k + i)) \<or> items (qs ! i) = [])"
    by (simp add: All_less_Suc2 add_ac)
  moreover have "qo_pop Q q = None \<longleftrightarrow> items q = []"
    using pop_empty pop_ok by (cases "items q") fastforce+
  ultimately show ?case
    using Cons [of "Suc k"] by (auto simp: Let_def split: option.splits)
qed simp

lemma pop_scan_Some:
  "pop_scan Q masked k qs = Some (s, e, qs') \<Longrightarrow>
     \<exists>i q xs. i < length qs \<and> \<not> contains_index masked (of_nat (k + i))
       \<and> (\<forall>j < i. contains_index masked (of_nat (k + j)) \<or> items (qs ! j) = [])
       \<and> items (qs ! i) = s # xs \<and> qs' = qs[i := q] \<and> items q = xs \<and> cap q = cap (qs ! i)
       \<and> (e \<longleftrightarrow> xs = [])"
proof (induction qs arbitrary: k qs')
  case (Cons q qs)
  show ?case
  proof (cases "\<not> contains_index masked (of_nat k) \<and> items q \<noteq> []")
    case True
    then obtain x xs where xs: "items q = x # xs" by (cases "items q") auto
    then obtain q' where q': "qo_pop Q q = Some (x, q')" "items q' = xs" "cap q' = cap q" using pop_ok by blast
    with Cons.prems True have "s = x" "e \<longleftrightarrow> xs = []" "qs' = q' # qs" by (simp_all add: is_empty_iff)
    with True xs q' show ?thesis by (intro exI [of _ 0] exI [of _ q'] exI [of _ xs]) simp
  next
    case False
    then have "map_option (\<lambda>(s, e, qs). (s, e, q # qs)) (pop_scan Q masked (Suc k) qs) = Some (s, e, qs')"
      using Cons.prems pop_empty [of q] by (auto simp: Let_def split: if_splits)
    then obtain qs1 where qs1: "pop_scan Q masked (Suc k) qs = Some (s, e, qs1)" "qs' = q # qs1" by auto
    from Cons.IH [OF qs1(1)] obtain i q' xs where ih: "i < length qs" "\<not> contains_index masked (of_nat (Suc k + i))"
      "\<forall>j < i. contains_index masked (of_nat (Suc k + j)) \<or> items (qs ! j) = []"
      "items (qs ! i) = s # xs" "qs1 = qs[i := q']" "items q' = xs" "cap q' = cap (qs ! i)" "e \<longleftrightarrow> xs = []"
      by blast
    have "\<forall>j < Suc i. contains_index masked (of_nat (k + j)) \<or> items ((q # qs) ! j) = []"
      using ih(3) False by (auto simp: All_less_Suc2 add_ac)
    with ih qs1(2) show ?thesis by (intro exI [of _ "Suc i"] exI [of _ q'] exI [of _ xs]) (simp add: add_ac)
  qed
qed simp

lemma empty_iff:
  assumes "signals_wf items cap sg"
  shows "signals_is_empty sg \<longleftrightarrow> (\<forall>i < 64. pending_items items sg i = [])"
  using assms bit_word_eqI [of "sg_set sg" 0]
  by (auto simp: signals_wf_def signals_is_empty_def)

lemma deliverable_iff:
  "i < 64 \<Longrightarrow> deliverable items sg masked i \<longleftrightarrow>
     \<not> contains_index (clear_never_capture masked) (of_nat i) \<and> items (sg_pending sg ! i) \<noteq> []"
  by (auto simp: deliverable_def contains_clear pending_items_def)

lemma signals_pop_ok:
  assumes wf: "signals_wf items cap sg" and eq: "signals_pop Q sg masked = (r, sg')"
  shows "case r of
      None \<Rightarrow> sg' = sg \<and> (\<forall>i. \<not> deliverable items sg masked i)
    | Some s \<Rightarrow> signals_wf items cap sg' \<and>
        (\<exists>i. deliverable items sg masked i \<and> (\<forall>j < i. \<not> deliverable items sg masked j)
           \<and> pending_items items sg i = s # pending_items items sg' i
           \<and> (\<forall>j < 64. j \<noteq> i \<longrightarrow> pending_items items sg' j = pending_items items sg j))"
proof -
  have len: "length (sg_pending sg) = 64" using wf by (simp add: signals_wf_def)
  let ?scan = "pop_scan Q (clear_never_capture masked) 0 (sg_pending sg)"
  show ?thesis
  proof (cases "signals_is_empty sg \<or> ?scan = None")
    case True
    then have "r = None" "sg' = sg" using eq by (auto simp: signals_pop_def pop_dequeue_def split: if_splits)
    moreover have "\<not> deliverable items sg masked i" for i
    proof (cases "i < 64")
      case i: True
      then show ?thesis
        using True empty_iff [OF wf] pop_scan_None [of "clear_never_capture masked" 0 "sg_pending sg"] len
        by (auto simp: deliverable_iff pending_items_def)
    qed (simp add: deliverable_def)
    ultimately show ?thesis by simp
  next
    case False
    then obtain s e qs' where sc: "?scan = Some (s, e, qs')" by auto
    from pop_scan_Some [OF sc] obtain i q xs where p: "i < 64" "\<not> contains_index (clear_never_capture masked) (of_nat i)"
      "\<forall>j < i. contains_index (clear_never_capture masked) (of_nat j) \<or> items (sg_pending sg ! j) = []"
      "items (sg_pending sg ! i) = s # xs" "qs' = (sg_pending sg)[i := q]" "items q = xs"
      "cap q = cap (sg_pending sg ! i)" "e \<longleftrightarrow> xs = []"
      unfolding len add_0 by blast
    have sig: "si_sig s = sig_of i" using wf p by (auto simp: signals_wf_def pending_items_def)
    have r: "r = Some s" and sg': "sg' = pop_fetch_and (sg\<lparr>sg_pending := (sg_pending sg)[i := q]\<rparr>) s (xs = [])"
      using eq False sc p(5,8) by (auto simp: signals_pop_def pop_dequeue_def)
    have pend: "sg_pending sg' = (sg_pending sg)[i := q]" by (simp add: sg' pop_fetch_and_def)
    have setb: "bit (sg_set sg') j \<longleftrightarrow> (if j = i then xs \<noteq> [] else bit (sg_set sg) j)" if "j < 64" for j
      using that p(1,4) wf sig
      by (auto simp: sg' pop_fetch_and_def sig_mask_sig_of bit_simps signals_wf_def pending_items_def)
    have items': "pending_items items sg' j = (if j = i then xs else pending_items items sg j)" if "j < 64" for j
      using that p len by (simp add: pending_items_def pend nth_list_update)
    have "signals_wf items cap sg'"
      unfolding signals_wf_def
    proof (intro conjI allI impI)
      show "length (sg_pending sg') = 64" by (simp add: pend len)
      fix j :: nat assume j: "j < 64"
      note wfj = wf [unfolded signals_wf_def, THEN conjunct2, rule_format, OF j]
      show "bit (sg_set sg') j \<longleftrightarrow> pending_items items sg' j \<noteq> []"
        unfolding setb [OF j] items' [OF j] using wfj by simp
      show "cap (sg_pending sg' ! j) = queue_cap j"
        using wfj p(1,7) len by (cases "j = i") (simp_all add: pend)
      show "\<forall>x \<in> set (pending_items items sg' j). si_sig x = sig_of j"
        unfolding items' [OF j] using wfj p(4) by (auto simp: pending_items_def)
    qed
    moreover have "\<forall>j < i. \<not> deliverable items sg masked j" using p(1,3) by (simp add: deliverable_iff)
    ultimately show ?thesis
      using r p items' by (auto simp: deliverable_iff pending_items_def intro!: exI [of _ i])
  qed
qed

lemma pop_last_entry:
  assumes wf: "signals_wf items cap sg" and i: "i < 64" "pending_items items sg i = [x]"
    and only: "\<forall>j < 64. j \<noteq> i \<longrightarrow> pending_items items sg j = []"
  shows "\<exists>q. pop_dequeue Q sg 0 = Some (x, True, sg\<lparr>sg_pending := (sg_pending sg)[i := q]\<rparr>)
    \<and> items q = [] \<and> cap q = queue_cap i"
proof -
  have len: "length (sg_pending sg) = 64" and cap: "cap (sg_pending sg ! i) = queue_cap i"
    using wf i by (simp_all add: signals_wf_def)
  have ne: "\<not> signals_is_empty sg" using empty_iff [OF wf] i by auto
  have un: "\<not> contains_index (clear_never_capture 0) (of_nat j)" if "j < 64" for j
    using contains_clear [OF that, of 0] by simp
  then have "pop_scan Q (clear_never_capture 0) 0 (sg_pending sg) \<noteq> None"
    using pop_scan_None [of "clear_never_capture 0" 0 "sg_pending sg"] i len
    by (auto simp: pending_items_def)
  then obtain s e qs where sc: "pop_scan Q (clear_never_capture 0) 0 (sg_pending sg) = Some (s, e, qs)" by auto
  from pop_scan_Some [OF sc] obtain k q xs where k: "k < 64" "items (sg_pending sg ! k) = s # xs"
    "qs = (sg_pending sg)[k := q]" "items q = xs" "cap q = cap (sg_pending sg ! k)" "e \<longleftrightarrow> xs = []"
    unfolding len by blast
  have "k = i" using only k(1,2) by (auto simp: pending_items_def)
  with k i(2) cap show ?thesis
    using sc ne by (auto simp: pop_dequeue_def pending_items_def)
qed

end

section \<open>A queue that satisfies the contract\<close>

definition list_queue :: "(nat \<times> sig_info list) queue_ops" where
  "list_queue = \<lparr>qo_new = (\<lambda>n. (n, [])),
     qo_push = (\<lambda>(n, xs) x. if length xs < n then Some (n, xs @ [x]) else None),
     qo_pop = (\<lambda>(n, xs). case xs of [] \<Rightarrow> None | x # xs \<Rightarrow> Some (x, (n, xs))),
     qo_is_empty = (\<lambda>(n, xs). xs = [])\<rparr>"

interpretation list_queue: array_queue list_queue snd fst
  by unfold_locales (auto simp: list_queue_def split: list.splits)

section \<open>Interleavings of a push and a pop\<close>

datatype push_pc = PushStart sig_info | PushFetched sig_set sig_info | PushDone
datatype pop_pc = PopStart sig_set | PopDequeued sig_info bool | PopDone "sig_info option"

inductive sig_step ::
    "'q queue_ops \<Rightarrow> 'q signals \<times> push_pc \<times> pop_pc \<Rightarrow> 'q signals \<times> push_pc \<times> pop_pc \<Rightarrow> bool"
  for Q :: "'q queue_ops" where
  push_or: "push_fetch_or sg info = (old, sg') \<Longrightarrow> sig_step Q (sg, PushStart info, c) (sg', PushFetched old info, c)"
| push_queue: "push_enqueue Q old sg info = Returns sg' \<Longrightarrow> sig_step Q (sg, PushFetched old info, c) (sg', PushDone, c)"
| pop_none: "pop_dequeue Q sg masked = None \<Longrightarrow> sig_step Q (sg, p, PopStart masked) (sg, p, PopDone None)"
| pop_queue: "pop_dequeue Q sg masked = Some (info, e, sg')
    \<Longrightarrow> sig_step Q (sg, p, PopStart masked) (sg', p, PopDequeued info e)"
| pop_and: "sig_step Q (sg, p, PopDequeued info e) (pop_fetch_and sg info e, p, PopDone (Some info))"

inductive_cases sig_step_doneE: "sig_step Q (sg, PushDone, PopDone r) c"

section \<open>Properties\<close>

text \<open>
  C12: For a bounded first-in first-out queue, \<open>push\<close> of a valid signal never panics and keeps the
  invariant: the entry is appended to the queue of its signal when that has room (one entry for the
  signals up to 32, eight for the others) and dropped otherwise; no other queue changes.
\<close>

theorem signals_push_spec:
  assumes "array_queue Q items cap" and "signals_wf items cap sg" and "sig_ok (si_sig info)"
  shows "\<exists>sg' i. i < 64 \<and> si_sig info = sig_of i \<and> signals_push Q sg info = Returns sg' \<and> signals_wf items cap sg'
    \<and> (\<forall>j < 64. pending_items items sg' j =
         (if j = i \<and> length (pending_items items sg i) < queue_cap i
          then pending_items items sg i @ [info] else pending_items items sg j))"
  using assms(3) array_queue.signals_push_ok [OF assms(1,2)] unfolding sig_ok_iff by blast

definition sig_example :: "nat \<Rightarrow> sig_info" where
  "sig_example i = \<lparr>si_sig = sig_of i, si_code = 0, si_fields = FieldsNone\<rparr>"

theorem signals_push_spec_witness:
  "\<exists>sg'. signals_push list_queue (signals_new list_queue) (sig_example 40) = Returns sg'
     \<and> pending_items snd sg' 40 = [sig_example 40]"
proof -
  have ok: "sig_ok (si_sig (sig_example 40))" unfolding sig_ok_iff sig_example_def by (intro exI [of _ 40]) simp
  have new: "pending_items snd (signals_new list_queue) 40 = []"
    by (simp add: pending_items_def signals_new_def NR_SIGNALS_def list_queue.new_items)
  from signals_push_spec [OF list_queue.array_queue_axioms list_queue.signals_new_wf ok]
  obtain sg' i where i: "i < 64" "si_sig (sig_example 40) = sig_of i"
    and r: "signals_push list_queue (signals_new list_queue) (sig_example 40) = Returns sg'"
    and p: "\<forall>j < 64. pending_items snd sg' j =
         (if j = i \<and> length (pending_items snd (signals_new list_queue) i) < queue_cap i
          then pending_items snd (signals_new list_queue) i @ [sig_example 40] else pending_items snd (signals_new list_queue) j)"
    by blast
  have "i = 40" using i sig_of_inj [of 40 i] by (simp add: sig_example_def)
  with p new have "pending_items snd sg' 40 = [sig_example 40]" by (simp add: queue_cap_def)
  with r show ?thesis by blast
qed

text \<open>
  C13: \<open>pop\<close> removes the oldest entry of the lowest-numbered signal that has one and is not masked,
  where \<open>SIGKILL\<close> and \<open>SIGSTOP\<close> cannot be masked, keeps the invariant and leaves every other queue
  alone. It returns nothing exactly when there is no such signal, and then changes nothing.
\<close>

theorem signals_pop_spec:
  assumes "array_queue Q items cap" and "signals_wf items cap sg" and "signals_pop Q sg masked = (r, sg')"
  shows "case r of
      None \<Rightarrow> sg' = sg \<and> (\<forall>i. \<not> deliverable items sg masked i)
    | Some s \<Rightarrow> signals_wf items cap sg' \<and>
        (\<exists>i. deliverable items sg masked i \<and> (\<forall>j < i. \<not> deliverable items sg masked j)
           \<and> pending_items items sg i = s # pending_items items sg' i
           \<and> (\<forall>j < 64. j \<noteq> i \<longrightarrow> pending_items items sg' j = pending_items items sg j))"
  by (rule array_queue.signals_pop_ok [OF assms])

theorem signals_pop_spec_witness:
  "fst (signals_pop list_queue (signals_new list_queue) 0) = None"
proof -
  obtain r sg' where eq: "signals_pop list_queue (signals_new list_queue) 0 = (r, sg')"
    by (cases "signals_pop list_queue (signals_new list_queue) 0")
  have "pending_items snd (signals_new list_queue) i = []" if "i < 64" for i
    using that by (simp add: pending_items_def signals_new_def NR_SIGNALS_def list_queue.new_items)
  then have "\<not> deliverable snd (signals_new list_queue) 0 i" for i by (auto simp: deliverable_def)
  with signals_pop_spec [OF list_queue.array_queue_axioms list_queue.signals_new_wf eq]
  show ?thesis unfolding eq by (cases r) auto
qed

text \<open>
  C14: The update of the queue and of the bit are not one action, and a \<open>push\<close> between the two steps
  of a \<open>pop\<close> is lost from view: the run ends with the pushed entry in its queue and its bit clear, so
  that the next \<open>pop\<close> returns nothing although the signal is pending and not masked.
\<close>

theorem push_pop_race:
  assumes "array_queue Q items cap" and "signals_wf items cap sg" and "32 \<le> i" and "i < 64"
    and "pending_items items sg i = [x]" and "\<forall>j < 64. j \<noteq> i \<longrightarrow> pending_items items sg j = []"
    and "si_sig info = sig_of i"
  shows "\<exists>sg'. (sig_step Q)\<^sup>*\<^sup>* (sg, PushStart info, PopStart 0) (sg', PushDone, PopDone (Some x))
    \<and> pending_items items sg' i = [info] \<and> signals_pop Q sg' 0 = (None, sg')"
proof -
  note aq = assms(1) and i = assms(4)
  obtain q where q: "pop_dequeue Q sg 0 = Some (x, True, sg\<lparr>sg_pending := (sg_pending sg)[i := q]\<rparr>)"
    "items q = []" "cap q = queue_cap i"
    using array_queue.pop_last_entry [OF aq assms(2) i assms(5,6)] by blast
  have len: "length (sg_pending sg) = 64" and x: "si_sig x = sig_of i"
    and bits: "\<And>j. j < 64 \<Longrightarrow> bit (sg_set sg) j \<longleftrightarrow> j = i"
    using assms(2,4,5,6) by (auto simp: signals_wf_def)
  obtain q' where q': "qo_push Q q info = Some q'" "items q' = [info]"
    using array_queue.push_ok [OF aq, of q info] q(2,3) assms(3) by (auto simp: queue_cap_def)
  let ?s1 = "sg\<lparr>sg_pending := (sg_pending sg)[i := q]\<rparr>"
  let ?s2 = "?s1\<lparr>sg_set := sg_set sg OR push_bit i 1\<rparr>"
  let ?s3 = "?s2\<lparr>sg_pending := (sg_pending sg)[i := q']\<rparr>"
  let ?s4 = "pop_fetch_and ?s3 x True"
  have st1: "sig_step Q (sg, PushStart info, PopStart 0) (?s1, PushStart info, PopDequeued x True)"
    by (rule sig_step.pop_queue [OF q(1)])
  have st2: "sig_step Q (?s1, PushStart info, PopDequeued x True) (?s2, PushFetched (sg_set sg) info, PopDequeued x True)"
    using i assms(7) by (intro sig_step.push_or) (simp add: push_fetch_or_def sig_mask_sig_of)
  have "push_enqueue Q (sg_set sg) ?s2 info = Returns ?s3"
    using i assms(3,7) q'(1) len
    by (simp add: push_enqueue_def is_legacy_sig_of sig_index_sig_of unat_of_nat Let_def)
  then have st3: "sig_step Q (?s2, PushFetched (sg_set sg) info, PopDequeued x True) (?s3, PushDone, PopDequeued x True)"
    by (rule sig_step.push_queue)
  have st4: "sig_step Q (?s3, PushDone, PopDequeued x True) (?s4, PushDone, PopDone (Some x))"
    by (rule sig_step.pop_and)
  have run: "(sig_step Q)\<^sup>*\<^sup>* (sg, PushStart info, PopStart 0) (?s4, PushDone, PopDone (Some x))"
    using st1 st2 st3 st4 by (meson converse_rtranclp_into_rtranclp rtranclp.rtrancl_refl)
  have "sg_set ?s4 = 0"
    using bits i x by (intro bit_word_eqI) (auto simp: pop_fetch_and_def sig_mask_sig_of bit_simps)
  then have "signals_pop Q ?s4 0 = (None, ?s4)"
    by (simp add: signals_pop_def pop_dequeue_def signals_is_empty_def)
  moreover have "pending_items items ?s4 i = [info]"
    using q'(2) i len by (simp add: pop_fetch_and_def pending_items_def)
  ultimately show ?thesis using run by blast
qed

definition race_start :: "(nat \<times> sig_info list) signals" where
  "race_start = \<lparr>sg_set = push_bit 40 1,
     sg_pending = map (\<lambda>i. (queue_cap i, if i = 40 then [sig_example 40] else [])) [0..<64]\<rparr>"

theorem push_pop_race_witness:
  "\<exists>sg'. (sig_step list_queue)\<^sup>*\<^sup>* (race_start, PushStart (sig_example 40), PopStart 0)
       (sg', PushDone, PopDone (Some (sig_example 40)))
     \<and> pending_items snd sg' 40 = [sig_example 40] \<and> signals_pop list_queue sg' 0 = (None, sg')"
proof (rule push_pop_race [OF list_queue.array_queue_axioms])
  have "bit (push_bit 40 1 :: u64) i \<longleftrightarrow> i = 40" for i by (simp only: bit_flag) simp
  then show "signals_wf snd fst race_start"
    unfolding signals_wf_def race_start_def by (auto simp: pending_items_def sig_example_def)
qed (auto simp: race_start_def pending_items_def sig_example_def)

text \<open>
  C15: \<open>Sig::new\<close> accepts every number up to 64, zero and negative ones included, and pushing such a
  signal panics on an index out of range when its masked bit is not yet set.
\<close>

theorem negative_signal_panics:
  assumes "length (sg_pending sg) = 64" and "sint s \<le> 0" and "- (2 ^ 31) < sint s"
    and "\<not> sigset_contains (sg_set sg) (sigset_of s)" and "si_sig info = s"
  shows "sig_new s = Some s \<and> signals_push Q sg info = Panics"
proof -
  have "sint (s - 1) = sint s - 1"
    using assms(2,3) by (simp add: sint_word_ariths signed_take_bit_int_eq_self)
  then have "sint (s - 1) < 0" using assms(2) by simp
  then have "bit (s - 1) 31" using bit_last_iff [of "s - 1"] by simp
  then have "bit (sig_index s) 63" by (simp add: sig_index_def bit_signed_iff)
  then have "\<not> unat (sig_index s) < 2 ^ 6" using small_word_no_bit [of "sig_index s" 6 63] by auto
  then have "unat (sig_index s) \<ge> 64" by simp
  then show ?thesis
    using assms by (simp add: sig_new_def SIG_MAX_def signals_push_def push_fetch_or_def push_enqueue_def Let_def not_less)
qed

theorem negative_signal_panics_witness:
  "sig_new (- 5) = Some (- 5)
   \<and> signals_push list_queue (signals_new list_queue) \<lparr>si_sig = - 5, si_code = 0, si_fields = FieldsNone\<rparr> = Panics"
proof (rule negative_signal_panics)
  show "length (sg_pending (signals_new list_queue)) = 64" by (simp add: signals_new_def NR_SIGNALS_def)
  show "\<not> sigset_contains (sg_set (signals_new list_queue)) (sigset_of (- 5))"
    by (simp add: sigset_contains_def sigset_of_def sig_mask_def signals_new_def)
qed simp_all

text \<open>
  Replacing the action of a valid signal returns the old action and installs the new one for
  that signal only, except that the action of \<open>SIGKILL\<close> and \<open>SIGSTOP\<close> is put back to its default.
\<close>

theorem action_replace_spec:
  assumes "length as = 64" and "sig_ok sig" and "sig_ok other"
  shows "\<exists>old as'. action_replace as sig new = Returns (old, as') \<and> action_get as sig = Returns old
    \<and> length as' = 64
    \<and> action_get as' other =
        (if other \<noteq> sig then action_get as other
         else Returns (if should_never_capture sig then action_default sig else new))"
proof -
  obtain i where i: "i < 64" "sig = sig_of i" using assms(2) by (auto simp: sig_ok_iff)
  obtain j where j: "j < 64" "other = sig_of j" using assms(3) by (auto simp: sig_ok_iff)
  have u: "unat (sig_index sig) = i" "unat (sig_index other) = j"
    using i j by (simp_all add: sig_index_sig_of unat_of_nat)
  show ?thesis
    unfolding action_replace_def action_get_def u Let_def
    using assms(1) i j sig_of_inj [of i j] by auto
qed

theorem action_replace_spec_witness:
  "\<exists>old as'. action_replace action_set_new SIGKILL \<lparr>act_ty = ActIgnore, act_mask = 0\<rparr> = Returns (old, as')
     \<and> action_get as' SIGKILL = Returns (action_default SIGKILL)"
proof -
  have "length action_set_new = 64" by (simp add: action_set_new_def NR_SIGNALS_def)
  moreover have "sig_ok SIGKILL" "should_never_capture SIGKILL"
    by (simp_all add: sig_ok_def SIGKILL_def should_never_capture_def)
  ultimately show ?thesis
    using action_replace_spec [of action_set_new SIGKILL SIGKILL "\<lparr>act_ty = ActIgnore, act_mask = 0\<rparr>"] by auto
qed

end
