(* ===== verification/Ksc.thy ===== *)
theory Ksc
  imports Prelude Paging
begin

text \<open>
  The system-call error numbers and the register convention of \<^verbatim>\<open>lib/ksc-core\<close>
  (\<^verbatim>\<open>error.rs\<close>, \<^verbatim>\<open>raw_reg.rs\<close>): the \<open>Error\<close> enum with its discriminants and messages,
  the conversion of page-table errors, and the \<open>RawReg\<close> trait that turns results into the
  value of a register and back.

  A trait is the record of its methods and an \<open>impl\<close> is a value of that record. The decoder
  \<open>from_isize\<close> that the \<^verbatim>\<open>enum_primitive_derive\<close> crate generates is a parameter, with its
  documented behaviour (it inverts the discriminant) as the locale \<open>derived_primitive\<close>.
\<close>

section \<open>Error numbers\<close>

text \<open>The variants of \<open>Error\<close>: the discriminant, the name and the message of \<open>Display\<close>.\<close>

definition error_table :: "(nat \<times> string \<times> string) list" where
  "error_table =
    [(0, ''EUNDEF'', ''Success''),
     (1, ''EPERM'', ''Operation not permitted''),
     (2, ''ENOENT'', ''No such file or directory''),
     (3, ''ESRCH'', ''No such process''),
     (4, ''EINTR'', ''Interrupted system call''),
     (5, ''EIO'', ''I/O error''),
     (6, ''ENXIO'', ''No such device or address''),
     (7, ''E2BIG'', ''Argument list too long''),
     (8, ''ENOEXEC'', ''Exec format error''),
     (9, ''EBADF'', ''Bad file number''),
     (10, ''ECHILD'', ''No child processes''),
     (11, ''EAGAIN'', ''Try again''),
     (12, ''ENOMEM'', ''Out of memory''),
     (13, ''EACCES'', ''Permission denied''),
     (14, ''EFAULT'', ''Bad address''),
     (15, ''ENOTBLK'', ''Block device required''),
     (16, ''EBUSY'', ''Device or resource busy''),
     (17, ''EEXIST'', ''File exists''),
     (18, ''EXDEV'', ''Cross-device link''),
     (19, ''ENODEV'', ''No such device''),
     (20, ''ENOTDIR'', ''Not a directory''),
     (21, ''EISDIR'', ''Is a directory''),
     (22, ''EINVAL'', ''Invalid argument''),
     (23, ''ENFILE'', ''File table overflow''),
     (24, ''EMFILE'', ''Too many open files''),
     (25, ''ENOTTY'', ''Not a typewriter''),
     (26, ''ETXTBSY'', ''Text file busy''),
     (27, ''EFBIG'', ''File too large''),
     (28, ''ENOSPC'', ''No space left on device''),
     (29, ''ESPIPE'', ''Illegal seek''),
     (30, ''EROFS'', ''Read-only file system''),
     (31, ''EMLINK'', ''Too many links''),
     (32, ''EPIPE'', ''Broken pipe''),
     (33, ''EDOM'', ''Math argument out of domain of func''),
     (34, ''ERANGE'', ''Math result not representable''),
     (35, ''EDEADLK'', ''Resource deadlock would occur''),
     (36, ''ENAMETOOLONG'', ''File name too long''),
     (37, ''ENOLCK'', ''No record locks available''),
     (38, ''ENOSYS'', ''Function not implemented''),
     (39, ''ENOTEMPTY'', ''Directory not empty''),
     (40, ''ELOOP'', ''Too many symbolic links encountered''),
     (42, ''ENOMSG'', ''No message of desired type''),
     (43, ''EIDRM'', ''Identifier removed''),
     (44, ''ECHRNG'', ''Channel number out of range''),
     (45, ''EL2NSYNC'', ''Level 2 not synchronized''),
     (46, ''EL3HLT'', ''Level 3 halted''),
     (47, ''EL3RST'', ''Level 3 reset''),
     (48, ''ELNRNG'', ''Link number out of range''),
     (49, ''EUNATCH'', ''Protocol driver not attached''),
     (50, ''ENOCSI'', ''No CSI structure available''),
     (51, ''EL2HLT'', ''Level 2 halted''),
     (52, ''EBADE'', ''Invalid exchange''),
     (53, ''EBADR'', ''Invalid request descriptor''),
     (54, ''EXFULL'', ''Exchange full''),
     (55, ''ENOANO'', ''No anode''),
     (56, ''EBADRQC'', ''Invalid request code''),
     (57, ''EBADSLT'', ''Invalid slot''),
     (59, ''EBFONT'', ''Bad font file format''),
     (60, ''ENOSTR'', ''Device not a stream''),
     (61, ''ENODATA'', ''No data available''),
     (62, ''ETIME'', ''Timer expired''),
     (63, ''ENOSR'', ''Out of streams resources''),
     (64, ''ENONET'', ''Machine is not on the network''),
     (65, ''ENOPKG'', ''Package not installed''),
     (66, ''EREMOTE'', ''Object is remote''),
     (67, ''ENOLINK'', ''Link has been severed''),
     (68, ''EADV'', ''Advertise error''),
     (69, ''ESRMNT'', ''Srmount error''),
     (70, ''ECOMM'', ''Communication error on send''),
     (71, ''EPROTO'', ''Protocol error''),
     (72, ''EMULTIHOP'', ''Multihop attempted''),
     (73, ''EDOTDOT'', ''RFS specific error''),
     (74, ''EBADMSG'', ''Not a data message''),
     (75, ''EOVERFLOW'', ''Value too large for defined data type''),
     (76, ''ENOTUNIQ'', ''Name not unique on network''),
     (77, ''EBADFD'', ''File descriptor in bad state''),
     (78, ''EREMCHG'', ''Remote address changed''),
     (79, ''ELIBACC'', ''Can not access a needed shared library''),
     (80, ''ELIBBAD'', ''Accessing a corrupted shared library''),
     (81, ''ELIBSCN'', ''.lib section in a.out corrupted''),
     (82, ''ELIBMAX'', ''Attempting to link in too many shared libraries''),
     (83, ''ELIBEXEC'', ''Cannot exec a shared library directly''),
     (84, ''EILSEQ'', ''Illegal byte sequence''),
     (85, ''ERESTART'', ''Interrupted system call should be restarted''),
     (86, ''ESTRPIPE'', ''Streams pipe error''),
     (87, ''EUSERS'', ''Too many users''),
     (88, ''ENOTSOCK'', ''Socket operation on non-socket''),
     (89, ''EDESTADDRREQ'', ''Destination address required''),
     (90, ''EMSGSIZE'', ''Message too long''),
     (91, ''EPROTOTYPE'', ''Protocol wrong type for socket''),
     (92, ''ENOPROTOOPT'', ''Protocol not available''),
     (93, ''EPROTONOSUPPORT'', ''Protocol not supported''),
     (94, ''ESOCKTNOSUPPORT'', ''Socket type not supported''),
     (95, ''EOPNOTSUPP'', ''Operation not supported on transport endpoint''),
     (96, ''EPFNOSUPPORT'', ''Protocol family not supported''),
     (97, ''EAFNOSUPPORT'', ''Address family not supported by protocol''),
     (98, ''EADDRINUSE'', ''Address already in use''),
     (99, ''EADDRNOTAVAIL'', ''Cannot assign requested address''),
     (100, ''ENETDOWN'', ''Network is down''),
     (101, ''ENETUNREACH'', ''Network is unreachable''),
     (102, ''ENETRESET'', ''Network dropped connection because of reset''),
     (103, ''ECONNABORTED'', ''Software caused connection abort''),
     (104, ''ECONNRESET'', ''Connection reset by peer''),
     (105, ''ENOBUFS'', ''No buffer space available''),
     (106, ''EISCONN'', ''Transport endpoint is already connected''),
     (107, ''ENOTCONN'', ''Transport endpoint is not connected''),
     (108, ''ESHUTDOWN'', ''Cannot send after transport endpoint shutdown''),
     (109, ''ETOOMANYREFS'', ''Too many references: cannot splice''),
     (110, ''ETIMEDOUT'', ''Time out''),
     (111, ''ECONNREFUSED'', ''Connection refused''),
     (112, ''EHOSTDOWN'', ''Host is down''),
     (113, ''EHOSTUNREACH'', ''No route to host''),
     (114, ''EALREADY'', ''Operation already in progress''),
     (115, ''EINPROGRESS'', ''Operation now in progress''),
     (116, ''ESTALE'', ''Stale file handle''),
     (117, ''EUCLEAN'', ''Structure needs cleaning''),
     (118, ''ENOTNAM'', ''Not a XENIX named type file''),
     (119, ''ENAVAIL'', ''No XENIX semaphores available''),
     (120, ''EISNAM'', ''Is a named type file''),
     (121, ''EREMOTEIO'', ''Remote I/O error''),
     (122, ''EDQUOT'', ''Quota exceeded''),
     (123, ''ENOMEDIUM'', ''No medium found''),
     (124, ''EMEDIUMTYPE'', ''Wrong medium type''),
     (125, ''ECANCELED'', ''Operation Canceled''),
     (126, ''ENOKEY'', ''Required key not available''),
     (127, ''EKEYEXPIRED'', ''Key has expired''),
     (128, ''EKEYREVOKED'', ''Key has been revoked''),
     (129, ''EKEYREJECTED'', ''Key was rejected by service''),
     (130, ''EOWNERDEAD'', ''Owner died''),
     (131, ''ENOTRECOVERABLE'', ''State not recoverable''),
     (132, ''ERFKILL'', ''Operation not possible due to RF-kill''),
     (133, ''EHWPOISON'', ''Memory page has hardware error'')]"

definition error_codes :: "nat list" where
  "error_codes = map fst error_table"

lemma error_codes_eq: "error_codes = [0..<41] @ [42..<58] @ [59..<134]"
  unfolding error_codes_def error_table_def by (simp add: upt_rec)

typedef error = "set error_codes" morphisms errno Error
  by (rule exI [of _ 0]) (simp add: error_codes_eq)

setup_lifting type_definition_error

lift_definition EUNDEF :: error is 0 by (simp add: error_codes_eq)
lift_definition EPERM :: error is 1 by (simp add: error_codes_eq)
lift_definition ENOENT :: error is 2 by (simp add: error_codes_eq)
lift_definition ESRCH :: error is 3 by (simp add: error_codes_eq)
lift_definition EINTR :: error is 4 by (simp add: error_codes_eq)
lift_definition EIO :: error is 5 by (simp add: error_codes_eq)
lift_definition EBADF :: error is 9 by (simp add: error_codes_eq)
lift_definition EAGAIN :: error is 11 by (simp add: error_codes_eq)
lift_definition ENOMEM :: error is 12 by (simp add: error_codes_eq)
lift_definition EACCES :: error is 13 by (simp add: error_codes_eq)
lift_definition EFAULT :: error is 14 by (simp add: error_codes_eq)
lift_definition EBUSY :: error is 16 by (simp add: error_codes_eq)
lift_definition EEXIST :: error is 17 by (simp add: error_codes_eq)
lift_definition ENOTDIR :: error is 20 by (simp add: error_codes_eq)
lift_definition EISDIR :: error is 21 by (simp add: error_codes_eq)
lift_definition EINVAL :: error is 22 by (simp add: error_codes_eq)
lift_definition EMFILE :: error is 24 by (simp add: error_codes_eq)
lift_definition ENOTTY :: error is 25 by (simp add: error_codes_eq)
lift_definition EFBIG :: error is 27 by (simp add: error_codes_eq)
lift_definition ENOSPC :: error is 28 by (simp add: error_codes_eq)
lift_definition ESPIPE :: error is 29 by (simp add: error_codes_eq)
lift_definition EROFS :: error is 30 by (simp add: error_codes_eq)
lift_definition EPIPE :: error is 32 by (simp add: error_codes_eq)
lift_definition ENAMETOOLONG :: error is 36 by (simp add: error_codes_eq)
lift_definition ENOSYS :: error is 38 by (simp add: error_codes_eq)
lift_definition ENOTEMPTY :: error is 39 by (simp add: error_codes_eq)
lift_definition ETIMEDOUT :: error is 110 by (simp add: error_codes_eq)

lemma errno_simps [simp]:
  "errno EUNDEF = 0"
  "errno EPERM = 1"
  "errno ENOENT = 2"
  "errno ESRCH = 3"
  "errno EINTR = 4"
  "errno EIO = 5"
  "errno EBADF = 9"
  "errno EAGAIN = 11"
  "errno ENOMEM = 12"
  "errno EACCES = 13"
  "errno EFAULT = 14"
  "errno EBUSY = 16"
  "errno EEXIST = 17"
  "errno ENOTDIR = 20"
  "errno EISDIR = 21"
  "errno EINVAL = 22"
  "errno EMFILE = 24"
  "errno ENOTTY = 25"
  "errno EFBIG = 27"
  "errno ENOSPC = 28"
  "errno ESPIPE = 29"
  "errno EROFS = 30"
  "errno EPIPE = 32"
  "errno ENAMETOOLONG = 36"
  "errno ENOSYS = 38"
  "errno ENOTEMPTY = 39"
  "errno ETIMEDOUT = 110"
  by (transfer, simp)+

lemma errno_eq_iff: "e = e' \<longleftrightarrow> errno e = errno e'"
  by (simp add: errno_inject)

lemma errno_mem: "errno e \<in> set error_codes"
  by (rule errno)

lemma errno_less: "errno e < 134"
  using errno [of e] by (auto simp: error_codes_eq)

definition error_display :: "error \<Rightarrow> string" where
  "error_display e = snd (the (map_of error_table (errno e)))"

text \<open>\<open>From<rv39_paging::Error> for Error\<close>, and the constants of the other \<open>From\<close> impls.\<close>

fun error_of_pt :: "pt_error \<Rightarrow> error" where
  "error_of_pt OutOfMemory = ENOMEM"
| "error_of_pt (AddrMisaligned vstart vend phys) = EINVAL"
| "error_of_pt RangeEmpty = EINVAL"
| "error_of_pt (EntryExistent b) = (if b then EEXIST else ENOENT)"
| "error_of_pt PermissionDenied = EPERM"

definition error_of_nom :: "'e \<Rightarrow> error" where "error_of_nom e = EIO"
definition error_of_layout :: "'e \<Rightarrow> error" where "error_of_layout e = ENOMEM"
definition error_of_try_from_int :: "'e \<Rightarrow> error" where "error_of_try_from_int e = EINVAL"
definition error_of_utf8 :: "'e \<Rightarrow> error" where "error_of_utf8 e = EINVAL"
definition error_of_from_bytes_until_nul :: "'e \<Rightarrow> error" where
  "error_of_from_bytes_until_nul e = ENAMETOOLONG"

text \<open>
  \<open>try_from_raw\<close> negates the register and decodes it; the negation wraps. \<open>into_raw\<close> is the
  negated discriminant.
\<close>

definition error_try_from_raw :: "(int \<Rightarrow> error option) \<Rightarrow> usize \<Rightarrow> error option" where
  "error_try_from_raw from_isize raw = from_isize (sint (- raw))"

definition error_into_raw :: "error \<Rightarrow> usize" where
  "error_into_raw e = - of_nat (errno e)"

section \<open>The register convention\<close>

record 't raw_reg =
  reg_from_raw :: "usize \<Rightarrow> 't"
  reg_into_raw :: "'t \<Rightarrow> usize"

definition unit_reg :: "unit raw_reg" where
  "unit_reg = \<lparr>reg_from_raw = (\<lambda>_. ()), reg_into_raw = (\<lambda>_. 0)\<rparr>"

definition bool_reg :: "bool raw_reg" where
  "bool_reg = \<lparr>reg_from_raw = (\<lambda>raw. raw \<noteq> 0), reg_into_raw = (\<lambda>b. if b then 1 else 0)\<rparr>"

text \<open>
  \<open>impl_int!\<close>: an \<open>as\<close> cast truncates to the width of the type on the way in, and extends it by
  zeros (unsigned types) or by the sign (signed types) on the way out.
\<close>

definition uint_reg :: "'a :: len word raw_reg" where
  "uint_reg = \<lparr>reg_from_raw = (\<lambda>raw. ucast raw), reg_into_raw = (\<lambda>v. ucast v)\<rparr>"

definition sint_reg :: "'a :: len word raw_reg" where
  "sint_reg = \<lparr>reg_from_raw = (\<lambda>raw. ucast raw), reg_into_raw = (\<lambda>v. scast v)\<rparr>"

definition ptr_reg :: "usize raw_reg" where
  "ptr_reg = \<lparr>reg_from_raw = (\<lambda>raw. raw), reg_into_raw = (\<lambda>v. v)\<rparr>"

text \<open>\<open>RawReg for Result<T>\<close>.\<close>

definition result_from_raw ::
  "(int \<Rightarrow> error option) \<Rightarrow> 't raw_reg \<Rightarrow> usize \<Rightarrow> error + 't" where
  "result_from_raw from_isize R raw =
    (case error_try_from_raw from_isize raw of None \<Rightarrow> Inr (reg_from_raw R raw) | Some e \<Rightarrow> Inl e)"

definition result_into_raw :: "'t raw_reg \<Rightarrow> error + 't \<Rightarrow> usize" where
  "result_into_raw R r = (case r of Inr v \<Rightarrow> reg_into_raw R v | Inl e \<Rightarrow> error_into_raw e)"

definition result_reg :: "(int \<Rightarrow> error option) \<Rightarrow> 't raw_reg \<Rightarrow> (error + 't) raw_reg" where
  "result_reg from_isize R =
    \<lparr>reg_from_raw = result_from_raw from_isize R, reg_into_raw = result_into_raw R\<rparr>"

section \<open>The contracts\<close>

locale lawful_reg =
  fixes R :: "'t raw_reg"
  assumes from_into: "reg_from_raw R (reg_into_raw R v) = v"
begin

lemma into_inj: "reg_into_raw R v = reg_into_raw R w \<Longrightarrow> v = w"
  by (metis from_into)

end

interpretation unit_raw: lawful_reg unit_reg
  by unfold_locales (simp add: unit_reg_def)

interpretation bool_raw: lawful_reg bool_reg
  by unfold_locales (simp add: bool_reg_def)

interpretation ptr_raw: lawful_reg ptr_reg
  by unfold_locales (simp add: ptr_reg_def)

text \<open>The integer types of the source have at most 64 bits.\<close>

lemma uint_reg_lawful:
  "LENGTH('a) \<le> 64 \<Longrightarrow> lawful_reg (uint_reg :: 'a :: len word raw_reg)"
  by unfold_locales
    (auto simp: uint_reg_def bit_simps dest: bit_imp_le_length intro!: bit_word_eqI)

lemma sint_reg_lawful:
  "LENGTH('a) \<le> 64 \<Longrightarrow> lawful_reg (sint_reg :: 'a :: len word raw_reg)"
proof
  fix v :: "'a word"
  assume len: "LENGTH('a) \<le> 64"
  have min: "min n (LENGTH('a) - Suc 0) = n" if "n < LENGTH('a)" for n using that by simp
  show "reg_from_raw sint_reg (reg_into_raw sint_reg v) = v"
    using len by (auto simp: sint_reg_def bit_simps min min.commute intro!: bit_word_eqI)
qed

interpretation u8_raw: lawful_reg "uint_reg :: u8 raw_reg"
  by (rule uint_reg_lawful) simp

interpretation i32_raw: lawful_reg "sint_reg :: u32 raw_reg"
  by (rule sint_reg_lawful) simp

locale derived_primitive =
  fixes from_isize :: "int \<Rightarrow> error option"
  assumes from_isize_iff: "from_isize n = Some e \<longleftrightarrow> n = int (errno e)"
begin

lemma error_round: "error_try_from_raw from_isize (error_into_raw e) = Some e"
proof -
  have "sint (of_nat (errno e) :: usize) = int (errno e)"
    using errno_less [of e] by (simp add: signed_take_bit_int_eq_self signed_of_nat)
  then show ?thesis by (simp add: error_try_from_raw_def error_into_raw_def from_isize_iff)
qed

lemma try_from_raw_iff: "error_try_from_raw from_isize raw = Some e \<longleftrightarrow> raw = error_into_raw e"
proof
  assume "error_try_from_raw from_isize raw = Some e"
  then have "sint (- raw) = int (errno e)" by (simp add: error_try_from_raw_def from_isize_iff)
  then have "- raw = of_nat (errno e)"
    using of_int_sint [of "- raw", where ?'a = usize] by (simp only: of_int_of_nat_eq scast_id)
  then show "raw = error_into_raw e"
    unfolding error_into_raw_def by (metis add.inverse_inverse)
qed (simp add: error_round)

lemma result_round:
  assumes "lawful_reg R"
  shows "result_from_raw from_isize R (result_into_raw R (Inl e)) = Inl e"
    and "result_from_raw from_isize R (result_into_raw R (Inr v)) = Inr v \<longleftrightarrow>
      reg_into_raw R v \<notin> range error_into_raw"
proof -
  show "result_from_raw from_isize R (result_into_raw R (Inl e)) = Inl e"
    by (simp add: result_from_raw_def result_into_raw_def error_round)
  show "result_from_raw from_isize R (result_into_raw R (Inr v)) = Inr v \<longleftrightarrow>
      reg_into_raw R v \<notin> range error_into_raw"
    using lawful_reg.from_into [OF assms, of v]
    by (cases "error_try_from_raw from_isize (reg_into_raw R v)")
      (auto simp: result_from_raw_def result_into_raw_def error_round
        dest: iffD1 [OF try_from_raw_iff])
qed

end

text \<open>The decoder by search over the variants, an instance of the contract.\<close>

definition errno_decode :: "int \<Rightarrow> error option" where
  "errno_decode n = (if 0 \<le> n \<and> nat n \<in> set error_codes then Some (Error (nat n)) else None)"

interpretation derived: derived_primitive errno_decode
proof
  fix n e
  show "errno_decode n = Some e \<longleftrightarrow> n = int (errno e)"
    using errno [of e] errno_inverse [of e] by (auto simp: errno_decode_def Error_inverse)
qed

section \<open>Properties\<close>

text \<open>
  C26: A system-call result survives its passage through a register: every error decodes to
  itself, for any register type that round-trips and any decoder with the documented behaviour
  of the derive macro. A success decodes to itself exactly when its register value is not the
  negated discriminant of an error. Every error has a message.
\<close>

theorem result_register_roundtrip:
  assumes "derived_primitive from_isize" and "lawful_reg R"
  shows "result_from_raw from_isize R (result_into_raw R (Inl e)) = Inl e \<and>
    (result_from_raw from_isize R (result_into_raw R (Inr v)) = Inr v \<longleftrightarrow>
      reg_into_raw R v \<notin> range error_into_raw) \<and>
    errno e \<in> fst ` set error_table"
  using derived_primitive.result_round [OF assms] errno_mem [of e]
  by (simp add: error_codes_def)

theorem result_register_roundtrip_witness:
  "result_from_raw errno_decode bool_reg (result_into_raw bool_reg (Inl EAGAIN)) = Inl EAGAIN \<and>
   error_try_from_raw errno_decode (- 11) = Some EAGAIN \<and>
   result_from_raw errno_decode bool_reg (result_into_raw bool_reg (Inr True)) = Inr True"
proof -
  have *: "reg_into_raw bool_reg True \<notin> range error_into_raw"
  proof
    assume "reg_into_raw bool_reg True \<in> range error_into_raw"
    then obtain e where "(1 :: usize) = - of_nat (errno e)"
      by (auto simp: bool_reg_def error_into_raw_def)
    then have "of_nat (Suc (errno e)) = (0 :: usize)" by (simp add: eq_neg_iff_add_eq_0)
    then have "2 ^ 64 dvd Suc (errno e)" by (simp only: word_of_nat_eq_0_iff len_bit0) simp
    from dvd_imp_le [OF this] errno_less [of e] show False by simp
  qed
  show ?thesis
    using result_register_roundtrip [OF derived.derived_primitive_axioms
        bool_raw.lawful_reg_axioms, of EAGAIN True] * derived.error_round [of EAGAIN]
    by (simp add: error_into_raw_def)
qed

text \<open>
  A successful result with the register value zero, such as \<open>Ok(())\<close>, is decoded as
  \<open>Err(EUNDEF)\<close>, because the discriminant 0 is a variant of the error enum.
\<close>

theorem success_zero_decodes_as_error:
  assumes "derived_primitive from_isize" and "reg_into_raw R v = 0"
  shows "result_from_raw from_isize R (result_into_raw R (Inr v)) = Inl EUNDEF"
  using derived_primitive.error_round [OF assms(1), of EUNDEF] assms(2)
  by (simp add: result_from_raw_def result_into_raw_def error_into_raw_def)

theorem success_zero_decodes_as_error_witness:
  "result_from_raw errno_decode unit_reg (result_into_raw unit_reg (Inr ())) = Inl EUNDEF"
  by (rule success_zero_decodes_as_error [OF derived.derived_primitive_axioms])
    (simp add: unit_reg_def)

end
