(* ===== verification/Effects.thy ===== *)
theory Effects
  imports Ksc
begin

text \<open>
  Sequencing of operations that pass a state and may fail, panic or run forever. An operation that
  ends returns the state with a result, also when it fails; an \<open>outcome\<close> around it says whether it
  panics, and an option around that whether it ends. Each layer has its own form of the \<open>?\<close> operator.
\<close>

section \<open>Operations that may fail or panic\<close>

type_synonym ('s, 'a) fres = "('s \<times> (error + 'a)) outcome"

definition io_bind :: "('s, 'a) fres \<Rightarrow> ('s \<Rightarrow> 'a \<Rightarrow> ('s, 'b) fres) \<Rightarrow> ('s, 'b) fres" where
  "io_bind m f =
    bind_out m (\<lambda>(s, r). case r of Inl e \<Rightarrow> Returns (s, Inl e) | Inr x \<Rightarrow> f s x)"

lemma io_bind_simps [simp]:
  "io_bind Panics f = Panics"
  "io_bind (Returns (s, Inl e)) f = Returns (s, Inl e)"
  "io_bind (Returns (s, Inr x)) f = f s x"
  by (simp_all add: io_bind_def)

section \<open>Operations that may also run forever\<close>

text \<open>The second continuation is the code that runs after a failure.\<close>

type_synonym ('s, 'a) ores = "('s, 'a) fres option"

definition obind :: "('s, 'a) ores \<Rightarrow> ('s \<Rightarrow> 'a \<Rightarrow> ('t, 'b) ores) \<Rightarrow> ('s \<Rightarrow> error \<Rightarrow> ('t, 'b) ores) \<Rightarrow> ('t, 'b) ores" where
  "obind m f g = Option.bind m (\<lambda>r.
    case r of Panics \<Rightarrow> Some Panics
    | Returns (s, Inl e) \<Rightarrow> g s e
    | Returns (s, Inr x) \<Rightarrow> f s x)"

definition succeed :: "'s \<Rightarrow> 'a \<Rightarrow> ('s, 'a) ores" where "succeed s x = Some (Returns (s, Inr x))"
definition failwith :: "'s \<Rightarrow> error \<Rightarrow> ('s, 'a) ores" where "failwith s e = Some (Returns (s, Inl e))"

lemma obind_simps [simp]:
  "obind None f g = None" "obind (Some Panics) f g = Some Panics"
  "obind (Some (Returns (s, Inl e))) f g = g s e" "obind (Some (Returns (s, Inr x))) f g = f s x"
  "obind (succeed s x) f g = f s x" "obind (failwith s e) f g = g s e"
  by (simp_all add: obind_def succeed_def failwith_def)

lemma obind_mono [partial_function_mono]:
  assumes m: "monotone option.le_fun option_ord m"
    and f: "\<And>s x. monotone option.le_fun option_ord (\<lambda>h. f h s x)"
    and g: "\<And>s e. monotone option.le_fun option_ord (\<lambda>h. g h s e)"
  shows "monotone option.le_fun option_ord (\<lambda>h. obind (m h) (f h) (g h))"
  unfolding obind_def
proof (rule bind_mono [OF m])
  fix y
  show "monotone option.le_fun option_ord (\<lambda>h. case y of Panics \<Rightarrow> Some Panics
    | Returns (s, Inl e) \<Rightarrow> g h s e | Returns (s, Inr x) \<Rightarrow> f h s x)"
  proof (cases y)
    case (Returns a)
    obtain s r where a: "a = (s, r)" by force
    show ?thesis unfolding Returns a by (cases r) (simp_all add: f g)
  qed (simp add: option.const_mono)
qed

end
