(* ===== verification/Bytes.thy ===== *)
theory Bytes
  imports Prelude
begin

text \<open>
  Byte strings: the little-endian codecs of Rust's integer types (\<open>to_le_bytes\<close>,
  \<open>from_le_bytes\<close>), reading and overwriting a part of a byte string, and the interface of the
  parser combinators that the FAT decoder takes from the \<^verbatim>\<open>nom\<close> crate. That crate is not part
  of the repository: a parser is an argument of the decoders, and what the decoders rely on is
  the locale \<open>nom_parsers\<close>.
\<close>

section \<open>Little-endian integers\<close>

fun of_le :: "u8 list \<Rightarrow> 'a :: len word" where
  "of_le [] = 0"
| "of_le (b # bs) = ucast b OR push_bit 8 (of_le bs)"

definition le_bytes :: "nat \<Rightarrow> 'a :: len word \<Rightarrow> u8 list" where
  "le_bytes n w = map (\<lambda>i. ucast (drop_bit (8 * i) w)) [0..<n]"

lemma length_le_bytes [simp]: "length (le_bytes n w) = n"
  by (simp add: le_bytes_def)

lemma bit_of_le:
  "bit (of_le bs :: 'a :: len word) k \<longleftrightarrow>
    k < LENGTH('a) \<and> k < 8 * length bs \<and> bit (bs ! (k div 8)) (k mod 8)"
proof (induction bs arbitrary: k)
  case Nil
  show ?case by simp
next
  case (Cons b bs)
  show ?case
  proof (cases "k < 8")
    case True
    then show ?thesis by (auto simp: bit_simps)
  next
    case False
    have "\<not> bit b k" using False by (auto dest: bit_imp_le_length)
    moreover have "k div 8 = Suc ((k - 8) div 8)" "k mod 8 = (k - 8) mod 8"
      using False by (simp_all add: le_div_geq le_mod_geq)
    ultimately show ?thesis using False Cons.IH [of "k - 8"] by (auto simp: bit_simps)
  qed
qed

lemma bit_le_bytes: "i < n \<Longrightarrow> bit (le_bytes n w ! i) j \<longleftrightarrow> j < 8 \<and> bit w (8 * i + j)"
  by (auto simp: le_bytes_def bit_simps dest: bit_imp_le_length)

lemma of_le_bytes [simp]: "LENGTH('a) \<le> 8 * n \<Longrightarrow> of_le (le_bytes n w) = (w :: 'a :: len word)"
proof (rule bit_word_eqI)
  fix k assume "LENGTH('a) \<le> 8 * n" "k < LENGTH('a)"
  then have "k div 8 < n" by (simp add: less_mult_imp_div_less mult.commute)
  with \<open>k < LENGTH('a)\<close> \<open>LENGTH('a) \<le> 8 * n\<close> show "bit (of_le (le_bytes n w) :: 'a word) k = bit w k"
    by (simp add: bit_of_le bit_le_bytes)
qed

lemma le_bytes_of_le:
  assumes "8 * length bs \<le> LENGTH('a)"
  shows "le_bytes (length bs) (of_le bs :: 'a :: len word) = bs"
proof (rule nth_equalityI)
  fix i assume "i < length (le_bytes (length bs) (of_le bs :: 'a word))"
  then have i: "i < length bs" by simp
  show "le_bytes (length bs) (of_le bs :: 'a word) ! i = bs ! i"
  proof (rule bit_word_eqI)
    fix j assume "j < LENGTH(8)"
    then have "j < 8" "8 * i + j < 8 * length bs" "(8 * i + j) div 8 = i" "(8 * i + j) mod 8 = j"
      using i by auto
    with assms i show "bit (le_bytes (length bs) (of_le bs :: 'a word) ! i) j = bit (bs ! i) j"
      by (simp add: bit_le_bytes bit_of_le)
  qed
qed simp

lemma le_bytes_of_le_n:
  "length bs = n \<Longrightarrow> 8 * n \<le> LENGTH('a) \<Longrightarrow> le_bytes n (of_le bs :: 'a :: len word) = bs"
  using le_bytes_of_le [of bs, where ?'a = 'a] by simp

section \<open>Slices\<close>

definition slice_at :: "nat \<Rightarrow> nat \<Rightarrow> 'a list \<Rightarrow> 'a list" where
  "slice_at off n xs = take n (drop off xs)"

definition overwrite :: "nat \<Rightarrow> 'a list \<Rightarrow> 'a list \<Rightarrow> 'a list" where
  "overwrite off ys xs = take off xs @ ys @ drop (off + length ys) xs"

lemma length_slice [simp]: "length (slice_at off n xs) = min n (length xs - off)"
  by (simp add: slice_at_def)

lemma length_overwrite [simp]:
  "off + length ys \<le> length xs \<Longrightarrow> length (overwrite off ys xs) = length xs"
  by (simp add: overwrite_def)

lemma nth_slice: "i < n \<Longrightarrow> off + i < length xs \<Longrightarrow> slice_at off n xs ! i = xs ! (off + i)"
  by (simp add: slice_at_def)

lemma nth_overwrite:
  assumes "off + length ys \<le> length xs" and "i < length xs"
  shows "overwrite off ys xs ! i =
    (if off \<le> i \<and> i < off + length ys then ys ! (i - off) else xs ! i)"
  using assms by (auto simp: overwrite_def nth_append not_less)

lemma slice_overwrite_same:
  "off + length ys \<le> length xs \<Longrightarrow> n = length ys \<Longrightarrow> slice_at off n (overwrite off ys xs) = ys"
  by (simp add: slice_at_def overwrite_def)

lemma slice_overwrite_other:
  assumes "off + length ys \<le> length xs" and "off' + n \<le> off \<or> off + length ys \<le> off'"
  shows "slice_at off' n (overwrite off ys xs) = slice_at off' n xs"
proof (rule nth_equalityI)
  fix i assume "i < length (slice_at off' n (overwrite off ys xs))"
  with assms show "slice_at off' n (overwrite off ys xs) ! i = slice_at off' n xs ! i"
    by (auto simp: nth_slice nth_overwrite)
qed (use assms in simp)

lemma slice_slice: "i + n \<le> m \<Longrightarrow> slice_at i n (slice_at off m xs) = slice_at (off + i) n xs"
  by (simp add: slice_at_def drop_take add.commute min_def)

lemma overwrite_append:
  assumes "off + length ys + length zs \<le> length xs"
  shows "overwrite (off + length ys) zs (overwrite off ys xs) = overwrite off (ys @ zs) xs"
  using assms by (simp add: overwrite_def add_ac)

lemma overwrite_Nil [simp]: "off \<le> length xs \<Longrightarrow> overwrite off [] xs = xs"
  by (simp add: overwrite_def)

lemma slice_append:
  "slice_at off n xs @ slice_at (off + n) m xs = slice_at off (n + m) xs"
  by (simp only: slice_at_def take_add drop_drop add.commute [of off n])

section \<open>The parser interface\<close>

text \<open>
  The streaming parsers the decoders call: \<open>take\<close>, \<open>le_u8\<close> (also used as \<open>u8\<close>), \<open>le_u16\<close>,
  \<open>le_u32\<close> and \<open>tag\<close>. A result is the rest of the input and the value; the error type is not
  inspected by the callers.
\<close>

record 'e nom_ops =
  nom_take :: "nat \<Rightarrow> u8 list \<Rightarrow> 'e + u8 list \<times> u8 list"
  nom_u8 :: "u8 list \<Rightarrow> 'e + u8 list \<times> u8"
  nom_le_u16 :: "u8 list \<Rightarrow> 'e + u8 list \<times> u16"
  nom_le_u32 :: "u8 list \<Rightarrow> 'e + u8 list \<times> u32"
  nom_tag :: "u8 list \<Rightarrow> u8 list \<Rightarrow> 'e + u8 list \<times> u8 list"

locale nom_parsers =
  fixes N :: "'e nom_ops"
  assumes take_ok: "n \<le> length inp \<Longrightarrow> nom_take N n inp = Inr (drop n inp, take n inp)"
    and take_short: "length inp < n \<Longrightarrow> \<exists>e. nom_take N n inp = Inl e"
    and u8_ok: "nom_u8 N (b # inp) = Inr (inp, b)"
    and u8_short: "\<exists>e. nom_u8 N [] = Inl e"
    and le_u16_ok: "2 \<le> length inp \<Longrightarrow> nom_le_u16 N inp = Inr (drop 2 inp, of_le (take 2 inp))"
    and le_u16_short: "length inp < 2 \<Longrightarrow> \<exists>e. nom_le_u16 N inp = Inl e"
    and le_u32_ok: "4 \<le> length inp \<Longrightarrow> nom_le_u32 N inp = Inr (drop 4 inp, of_le (take 4 inp))"
    and le_u32_short: "length inp < 4 \<Longrightarrow> \<exists>e. nom_le_u32 N inp = Inl e"
    and tag_ok: "nom_tag N t (t @ inp) = Inr (inp, t)"
    and tag_fail: "take (length t) inp \<noteq> t \<Longrightarrow> \<exists>e. nom_tag N t inp = Inl e"
begin

lemma take_append: "length bs = n \<Longrightarrow> nom_take N n (bs @ inp) = Inr (inp, bs)"
  by (simp add: take_ok)

lemma le_u16_bytes: "nom_le_u16 N (le_bytes 2 w @ inp) = Inr (inp, w)"
  by (simp add: le_u16_ok)

lemma le_u32_bytes: "nom_le_u32 N (le_bytes 4 w @ inp) = Inr (inp, w)"
  by (simp add: le_u32_ok)

lemmas parse_bytes = take_append u8_ok le_u16_bytes le_u32_bytes tag_ok

end

text \<open>A set of parsers with the documented behaviour.\<close>

definition take_parser :: "nat \<Rightarrow> u8 list \<Rightarrow> unit + u8 list \<times> u8 list" where
  "take_parser n inp = (if n \<le> length inp then Inr (drop n inp, take n inp) else Inl ())"

definition plain_nom :: "unit nom_ops" where
  "plain_nom = \<lparr>
    nom_take = take_parser,
    nom_u8 = (\<lambda>inp. case inp of [] \<Rightarrow> Inl () | b # rest \<Rightarrow> Inr (rest, b)),
    nom_le_u16 = (\<lambda>inp. bind_res (take_parser 2 inp) (\<lambda>(rest, bs). Inr (rest, of_le bs))),
    nom_le_u32 = (\<lambda>inp. bind_res (take_parser 4 inp) (\<lambda>(rest, bs). Inr (rest, of_le bs))),
    nom_tag = (\<lambda>t inp. if take (length t) inp = t then Inr (drop (length t) inp, t) else Inl ())\<rparr>"

interpretation plain: nom_parsers plain_nom
  by unfold_locales (auto simp: plain_nom_def take_parser_def)

end
