(* ===== verification/Umio.thy ===== *)
theory Umio
  imports Bytes Effects
begin

text \<open>
  The I/O traits of \<^verbatim>\<open>lib/umio\<close>: \<open>Io\<close> with its provided methods, the extension methods of
  \<open>IoExt\<close> that transfer whole buffers, and the slices of scattered buffers.

  A trait object \<open>dyn Io\<close> is the record of its required methods over a state of any type. A
  method that fills buffers gets their contents and returns the new contents. The loops of
  \<open>IoExt\<close> retry after \<open>EINTR\<close> for as long as the object reports it, so they are partial
  functions: \<open>None\<close> is the loop that never returns.
\<close>

section \<open>Slices of buffers\<close>

definition ioslice_advance :: "'a list \<Rightarrow> nat \<Rightarrow> 'a list outcome" where
  "ioslice_advance buf n = (if length buf < n then Panics else Returns (drop n buf))"

definition ioslice_len :: "'a list list \<Rightarrow> nat" where
  "ioslice_len bufs = foldl (\<lambda>sum buf. sum + length buf) 0 bufs"

definition ioslice_is_empty :: "'a list list \<Rightarrow> bool" where
  "ioslice_is_empty bufs \<longleftrightarrow> list_all (\<lambda>b. length b = 0) bufs"

text \<open>The scan of \<open>advance_slices\<close>: how many buffers are passed over, and their total length.\<close>

fun advance_scan :: "'a list list \<Rightarrow> nat \<Rightarrow> nat \<Rightarrow> nat \<Rightarrow> nat \<times> nat" where
  "advance_scan [] n remove accumulated_len = (remove, accumulated_len)"
| "advance_scan (buf # bufs) n remove accumulated_len =
    (if accumulated_len + length buf > n then (remove, accumulated_len)
     else advance_scan bufs n (remove + 1) (accumulated_len + length buf))"

definition advance_slices :: "'a list list \<Rightarrow> nat \<Rightarrow> 'a list list outcome" where
  "advance_slices bufs n =
    (let (remove, accumulated_len) = advance_scan bufs n 0 0 in
     case drop remove bufs of
       [] \<Rightarrow> if n = accumulated_len then Returns [] else Panics
     | b # bs \<Rightarrow> bind_out (ioslice_advance b (n - accumulated_len)) (\<lambda>b'. Returns (b' # bs)))"

section \<open>The trait\<close>

datatype seek_from = SeekStart usize | SeekEnd usize | SeekCurrent usize

record 's io_ops =
  io_seek :: "'s \<Rightarrow> seek_from \<Rightarrow> 's \<times> (error + usize)"
  io_read_at :: "'s \<Rightarrow> usize \<Rightarrow> u8 list list \<Rightarrow> 's \<times> u8 list list \<times> (error + usize)"
  io_write_at :: "'s \<Rightarrow> usize \<Rightarrow> u8 list list \<Rightarrow> 's \<times> (error + usize)"
  io_flush :: "'s \<Rightarrow> 's \<times> (error + unit)"

definition io_read :: "'s io_ops \<Rightarrow> 's \<Rightarrow> u8 list list \<Rightarrow> 's \<times> u8 list list \<times> (error + usize)" where
  "io_read d s buffer =
    (case io_seek d s (SeekCurrent 0) of
       (s, Inl e) \<Rightarrow> (s, buffer, Inl e)
     | (s, Inr offset) \<Rightarrow>
      (case io_read_at d s offset buffer of
         (s, buffer, Inl e) \<Rightarrow> (s, buffer, Inl e)
       | (s, buffer, Inr read_len) \<Rightarrow>
        (case io_seek d s (SeekCurrent read_len) of
           (s, Inl e) \<Rightarrow> (s, buffer, Inl e)
         | (s, Inr _) \<Rightarrow> (s, buffer, Inr read_len))))"

definition io_write :: "'s io_ops \<Rightarrow> 's \<Rightarrow> u8 list list \<Rightarrow> 's \<times> (error + usize)" where
  "io_write d s buffer =
    (case io_seek d s (SeekCurrent 0) of
       (s, Inl e) \<Rightarrow> (s, Inl e)
     | (s, Inr offset) \<Rightarrow>
      (case io_write_at d s offset buffer of
         (s, Inl e) \<Rightarrow> (s, Inl e)
       | (s, Inr written_len) \<Rightarrow>
        (case io_seek d s (SeekCurrent written_len) of
           (s, Inl e) \<Rightarrow> (s, Inl e)
         | (s, Inr _) \<Rightarrow> (s, Inr written_len))))"

definition stream_len :: "'s io_ops \<Rightarrow> 's \<Rightarrow> 's \<times> (error + usize)" where
  "stream_len d s =
    (case io_seek d s (SeekCurrent 0) of
       (s, Inl e) \<Rightarrow> (s, Inl e)
     | (s, Inr old) \<Rightarrow>
      (case io_seek d s (SeekEnd 0) of
         (s, Inl e) \<Rightarrow> (s, Inl e)
       | (s, Inr ret) \<Rightarrow>
        (case io_seek d s (SeekStart old) of
           (s, Inl e) \<Rightarrow> (s, Inl e)
         | (s, Inr _) \<Rightarrow> (s, Inr ret))))"

section \<open>Whole-buffer transfers\<close>

definition current_pos :: "'s io_ops \<Rightarrow> 's \<Rightarrow> 's \<times> (error + usize)" where
  "current_pos d s = io_seek d s (SeekCurrent 0)"

definition map_outcome :: "('a \<Rightarrow> 'b) \<Rightarrow> 'a outcome \<Rightarrow> 'b outcome" where
  "map_outcome f m = bind_out m (\<lambda>x. Returns (f x))"

text \<open>
  Reading returns the contents of the whole buffer after the call: the bytes already stored before
  the current position stay where they are. Slicing past the end of the buffer panics.
\<close>

partial_function (option) read_exact_at ::
  "'s io_ops \<Rightarrow> 's \<Rightarrow> usize \<Rightarrow> u8 list \<Rightarrow> ('s \<times> u8 list \<times> (error + unit)) outcome option" where
  "read_exact_at d s offset buffer =
    (if buffer = [] then Some (Returns (s, [], Inr ()))
     else case io_read_at d s offset [buffer] of (s', bufs, r) \<Rightarrow>
      (case r of
         Inr n \<Rightarrow>
          (if n = 0 then Some (Returns (s', hd bufs, Inl EIO))
           else if length (hd bufs) < unat n then Some Panics
           else Option.bind (read_exact_at d s' (offset + n) (drop (unat n) (hd bufs)))
             (\<lambda>res. Some (map_outcome (\<lambda>(s, rest, r). (s, take (unat n) (hd bufs) @ rest, r)) res)))
       | Inl e \<Rightarrow>
          (if e = EINTR then read_exact_at d s' offset (hd bufs)
           else Some (Returns (s', hd bufs, Inl e)))))"

partial_function (option) read_exact ::
  "'s io_ops \<Rightarrow> 's \<Rightarrow> u8 list \<Rightarrow> ('s \<times> u8 list \<times> (error + unit)) outcome option" where
  "read_exact d s buffer =
    (if buffer = [] then Some (Returns (s, [], Inr ()))
     else case io_read d s [buffer] of (s', bufs, r) \<Rightarrow>
      (case r of
         Inr n \<Rightarrow>
          (if n = 0 then Some (Returns (s', hd bufs, Inl EIO))
           else if length (hd bufs) < unat n then Some Panics
           else Option.bind (read_exact d s' (drop (unat n) (hd bufs)))
             (\<lambda>res. Some (map_outcome (\<lambda>(s, rest, r). (s, take (unat n) (hd bufs) @ rest, r)) res)))
       | Inl e \<Rightarrow>
          (if e = EINTR then read_exact d s' (hd bufs)
           else Some (Returns (s', hd bufs, Inl e)))))"

partial_function (option) write_all_at ::
  "'s io_ops \<Rightarrow> 's \<Rightarrow> usize \<Rightarrow> u8 list \<Rightarrow> ('s \<times> (error + unit)) outcome option" where
  "write_all_at d s offset buffer =
    (if buffer = [] then Some (Returns (s, Inr ()))
     else case io_write_at d s offset [buffer] of (s', r) \<Rightarrow>
      (case r of
         Inr n \<Rightarrow>
          (if n = 0 then Some (Returns (s', Inl EIO))
           else if length buffer < unat n then Some Panics
           else write_all_at d s' (offset + n) (drop (unat n) buffer))
       | Inl e \<Rightarrow>
          (if e = EINTR then write_all_at d s' offset buffer else Some (Returns (s', Inl e)))))"

partial_function (option) write_all ::
  "'s io_ops \<Rightarrow> 's \<Rightarrow> u8 list \<Rightarrow> ('s \<times> (error + unit)) outcome option" where
  "write_all d s buffer =
    (if buffer = [] then Some (Returns (s, Inr ()))
     else case io_write d s [buffer] of (s', r) \<Rightarrow>
      (case r of
         Inr n \<Rightarrow>
          (if n = 0 then Some (Returns (s', Inl EIO))
           else if length buffer < unat n then Some Panics
           else write_all d s' (drop (unat n) buffer))
       | Inl e \<Rightarrow>
          (if e = EINTR then write_all d s' buffer else Some (Returns (s', Inl e)))))"

text \<open>Random access through the cursor, for objects that only support sequential access.\<close>

definition read_at_by_seek ::
  "'s io_ops \<Rightarrow> 's \<Rightarrow> usize \<Rightarrow> u8 list list \<Rightarrow> 's \<times> u8 list list \<times> (error + usize)" where
  "read_at_by_seek d s offset buffer =
    (case io_seek d s (SeekCurrent 0) of
       (s, Inl e) \<Rightarrow> (s, buffer, Inl e)
     | (s, Inr old) \<Rightarrow>
      (case io_seek d s (SeekStart offset) of
         (s, Inl e) \<Rightarrow> (s, buffer, Inl e)
       | (s, Inr _) \<Rightarrow>
        (case io_read d s buffer of (s, buffer, res) \<Rightarrow>
          (fst (io_seek d s (SeekStart old)), buffer, res))))"

definition write_at_by_seek ::
  "'s io_ops \<Rightarrow> 's \<Rightarrow> usize \<Rightarrow> u8 list list \<Rightarrow> 's \<times> (error + usize)" where
  "write_at_by_seek d s offset buffer =
    (case io_seek d s (SeekCurrent 0) of
       (s, Inl e) \<Rightarrow> (s, Inl e)
     | (s, Inr old) \<Rightarrow>
      (case io_seek d s (SeekStart offset) of
         (s, Inl e) \<Rightarrow> (s, Inl e)
       | (s, Inr _) \<Rightarrow>
        (case io_write d s buffer of (s, res) \<Rightarrow> (fst (io_seek d s (SeekStart old)), res))))"

section \<open>Slices: correctness\<close>

lemma ioslice_len_eq: "ioslice_len bufs = length (concat bufs)"
proof -
  have "foldl (\<lambda>sum buf. sum + length buf) k bufs = k + length (concat bufs)" for k
    by (induction bufs arbitrary: k) auto
  then show ?thesis by (simp add: ioslice_len_def)
qed

lemma advance_scan_spec:
  "advance_scan bufs n r a = (r', a') \<Longrightarrow> a \<le> n \<Longrightarrow>
    \<exists>us vs. bufs = us @ vs \<and> r' = r + length us \<and> a' = a + length (concat us) \<and> a' \<le> n \<and>
      (case vs of [] \<Rightarrow> True | v # _ \<Rightarrow> n < a' + length v)"
proof (induction bufs arbitrary: r a)
  case Nil
  then show ?case by auto
next
  case (Cons b bufs)
  show ?case
  proof (cases "a + length b > n")
    case True
    with Cons.prems show ?thesis by (intro exI [of _ "[]"] exI [of _ "b # bufs"]) auto
  next
    case False
    with Cons.prems(1) have "advance_scan bufs n (r + 1) (a + length b) = (r', a')" by simp
    from Cons.IH [OF this] False obtain us vs where
      "bufs = us @ vs" "r' = r + 1 + length us" "a' = a + length b + length (concat us)" "a' \<le> n"
      "case vs of [] \<Rightarrow> True | v # _ \<Rightarrow> n < a' + length v" by auto
    then show ?thesis by (intro exI [of _ "b # us"] exI [of _ vs]) auto
  qed
qed

lemma advance_slices_eq:
  "\<exists>us vs. bufs = us @ vs \<and>
    advance_slices bufs n =
      (case vs of
         [] \<Rightarrow> if n = length (concat bufs) then Returns [] else Panics
       | v # vs \<Rightarrow> Returns (drop (n - length (concat us)) v # vs)) \<and>
    length (concat us) \<le> n \<and> (case vs of [] \<Rightarrow> True | v # _ \<Rightarrow> n < length (concat us) + length v)"
proof -
  obtain r a where ra: "advance_scan bufs n 0 0 = (r, a)" by fastforce
  from advance_scan_spec [OF this] obtain us vs where uv: "bufs = us @ vs" "r = length us"
    "a = length (concat us)" "a \<le> n" "case vs of [] \<Rightarrow> True | v # _ \<Rightarrow> n < a + length v" by auto
  have "advance_slices bufs n =
      (case vs of
         [] \<Rightarrow> if n = length (concat bufs) then Returns [] else Panics
       | v # vs \<Rightarrow> Returns (drop (n - length (concat us)) v # vs))"
    unfolding advance_slices_def ra Let_def prod.case
    using uv by (cases vs) (simp_all add: ioslice_advance_def)
  with uv show ?thesis by blast
qed

section \<open>The contract of a device\<close>

text \<open>
  What the whole-buffer transfers rely on: an object with contents of a fixed length, where a read
  or a write of one buffer transfers a part of it, at least one byte when the position lies inside.
  A call may also report \<open>EINTR\<close> without effect, but not forever: \<open>patience\<close> bounds the number of
  consecutive interruptions. A read at or past the end transfers nothing.
\<close>

locale io_device =
  fixes d :: "'s io_ops"
    and contents :: "'s \<Rightarrow> u8 list"
    and patience :: "'s \<Rightarrow> nat"
  assumes read_at: "\<lbrakk>io_read_at d s offset [buf] = (s', bufs, r); buf \<noteq> [];
      unat offset < length (contents s)\<rbrakk> \<Longrightarrow>
      contents s' = contents s \<and>
      ((\<exists>n. r = Inr n \<and> 0 < unat n \<and> unat n \<le> length buf \<and> unat offset + unat n \<le> length (contents s) \<and>
         bufs = [slice_at (unat offset) (unat n) (contents s) @ drop (unat n) buf]) \<or>
       r = Inl EINTR \<and> bufs = [buf] \<and> patience s' < patience s)"
    and read_at_end: "\<lbrakk>io_read_at d s offset [buf] = (s', bufs, r); buf \<noteq> [];
      length (contents s) \<le> unat offset\<rbrakk> \<Longrightarrow>
      contents s' = contents s \<and> bufs = [buf] \<and>
      (r = Inr 0 \<or> (\<exists>e. r = Inl e \<and> (e = EINTR \<longrightarrow> patience s' < patience s)))"
    and write_at: "\<lbrakk>io_write_at d s offset [buf] = (s', r); buf \<noteq> [];
      unat offset + length buf \<le> length (contents s)\<rbrakk> \<Longrightarrow>
      (\<exists>n. r = Inr n \<and> 0 < unat n \<and> unat n \<le> length buf \<and>
         contents s' = overwrite (unat offset) (take (unat n) buf) (contents s)) \<or>
      r = Inl EINTR \<and> contents s' = contents s \<and> patience s' < patience s"
    and contents_small: "length (contents s) < 2 ^ 64"
begin

lemma offset_add:
  "unat (offset :: usize) + unat n \<le> length (contents s) \<Longrightarrow> unat (offset + n) = unat offset + unat n"
  by (rule unat_add_no_overflow) (use contents_small [of s] in simp)

lemma read_exact_at_ok:
  assumes "unat offset + length buf \<le> length (contents s)"
  shows "\<exists>s'. read_exact_at d s offset buf =
      Some (Returns (s', slice_at (unat offset) (length buf) (contents s), Inr ())) \<and>
    contents s' = contents s"
  using assms
proof (induction "(length buf, patience s)" arbitrary: s offset buf
    rule: wf_induct_rule [OF wf_lex_prod [OF wf_less_than wf_less_than]])
  case 1
  show ?case
  proof (cases "buf = []")
    case True
    then show ?thesis by (auto simp: read_exact_at.simps slice_at_def)
  next
    case False
    obtain s' bufs r where call: "io_read_at d s offset [buf] = (s', bufs, r)" by (metis prod_cases3)
    have inside: "unat offset < length (contents s)"
      using "1.prems" False by (cases buf) auto
    from read_at [OF call False inside] have c: "contents s' = contents s" by blast
    from read_at [OF call False inside] consider
      (some) n where "r = Inr n" "0 < unat n" "unat n \<le> length buf"
        "unat offset + unat n \<le> length (contents s)"
        "bufs = [slice_at (unat offset) (unat n) (contents s) @ drop (unat n) buf]"
    | (intr) "r = Inl EINTR" "bufs = [buf]" "patience s' < patience s" by blast
    then show ?thesis
    proof cases
      case intr
      from "1.hyps" [of buf s' offset] intr(3) "1.prems" c obtain s'' where
        "read_exact_at d s' offset buf =
          Some (Returns (s'', slice_at (unat offset) (length buf) (contents s), Inr ()))"
        "contents s'' = contents s" by auto
      then show ?thesis
        using False intr by (subst read_exact_at.simps) (simp add: call)
    next
      case some
      let ?b = "slice_at (unat offset) (unat n) (contents s) @ drop (unat n) buf"
      have len: "length (slice_at (unat offset) (unat n) (contents s)) = unat n"
        using some(4) by simp
      have off: "unat (offset + n) = unat offset + unat n" using some(4) by (rule offset_add)
      have dr: "drop (unat n) ?b = drop (unat n) buf" using len by simp
      have "\<exists>s''. read_exact_at d s' (offset + n) (drop (unat n) buf) = Some (Returns (s'',
          slice_at (unat (offset + n)) (length (drop (unat n) buf)) (contents s'), Inr ())) \<and>
        contents s'' = contents s'"
        by (rule "1.hyps") (use some "1.prems" c off in auto)
      then obtain s'' where rec: "read_exact_at d s' (offset + n) (drop (unat n) buf) =
          Some (Returns (s'', slice_at (unat offset + unat n) (length buf - unat n) (contents s), Inr ()))"
        "contents s'' = contents s" using off c by auto
      have tk: "take (unat n) ?b = slice_at (unat offset) (unat n) (contents s)" using len by simp
      have lb: "\<not> length ?b < unat n" using len by simp
      have nz: "n \<noteq> 0" using some(2) by auto
      have cat: "slice_at (unat offset) (unat n) (contents s) @
          slice_at (unat offset + unat n) (length buf - unat n) (contents s) =
          slice_at (unat offset) (length buf) (contents s)"
        using slice_append [of "unat offset" "unat n" "contents s" "length buf - unat n"] some(3) by simp
      have "read_exact_at d s offset buf =
          Some (Returns (s'', slice_at (unat offset) (length buf) (contents s), Inr ()))"
        using False nz lb
        by (subst read_exact_at.simps)
          (simp only: call some(1,5) prod.case sum.case list.sel dr rec(1) tk cat Option.bind.simps
            map_outcome_def bind_out_simps if_False)
      with rec(2) show ?thesis by blast
    qed
  qed
qed

lemma read_exact_at_eof:
  assumes "length (contents s) < unat offset + length buf" and "buf \<noteq> []"
  shows "\<exists>s' buf' e. read_exact_at d s offset buf = Some (Returns (s', buf', Inl e)) \<and>
    contents s' = contents s"
  using assms
proof (induction "(length buf, patience s)" arbitrary: s offset buf
    rule: wf_induct_rule [OF wf_lex_prod [OF wf_less_than wf_less_than]])
  case 1
  obtain s' bufs r where call: "io_read_at d s offset [buf] = (s', bufs, r)" by (metis prod_cases3)
  show ?case
  proof (cases "unat offset < length (contents s)")
    case False
    with read_at_end [OF call "1.prems"(2)] have c: "contents s' = contents s" "bufs = [buf]" and
      r: "r = Inr 0 \<or> (\<exists>e. r = Inl e \<and> (e = EINTR \<longrightarrow> patience s' < patience s))" by auto
    show ?thesis
    proof (cases "r = Inl EINTR")
      case True
      with r have "patience s' < patience s" by auto
      with "1.hyps" [of buf s' offset] "1.prems" c(1) obtain s'' buf' e where
        "read_exact_at d s' offset buf = Some (Returns (s'', buf', Inl e))" "contents s'' = contents s"
        by auto
      with True c(2) "1.prems"(2) show ?thesis
        by (intro exI [of _ s''] exI [of _ buf'] exI [of _ e])
          (subst read_exact_at.simps, simp add: call)
    next
      case nointr: False
      with r "1.prems"(2) c show ?thesis by (subst read_exact_at.simps) (auto simp: call)
    qed
  next
    case True
    from read_at [OF call "1.prems"(2) True] have c: "contents s' = contents s" by blast
    from read_at [OF call "1.prems"(2) True] consider
      (some) n where "r = Inr n" "0 < unat n" "unat n \<le> length buf"
        "unat offset + unat n \<le> length (contents s)"
        "bufs = [slice_at (unat offset) (unat n) (contents s) @ drop (unat n) buf]"
    | (intr) "r = Inl EINTR" "bufs = [buf]" "patience s' < patience s" by blast
    then show ?thesis
    proof cases
      case intr
      with "1.hyps" [of buf s' offset] "1.prems" c obtain s'' buf' e where
        "read_exact_at d s' offset buf = Some (Returns (s'', buf', Inl e))" "contents s'' = contents s"
        by auto
      with intr "1.prems"(2) show ?thesis
        by (intro exI [of _ s''] exI [of _ buf'] exI [of _ e])
          (subst read_exact_at.simps, simp add: call)
    next
      case some
      have off: "unat (offset + n) = unat offset + unat n" using some(4) by (rule offset_add)
      have len: "length (slice_at (unat offset) (unat n) (contents s)) = unat n" using some(4) by simp
      have "\<exists>s'' buf' e. read_exact_at d s' (offset + n) (drop (unat n) buf) =
          Some (Returns (s'', buf', Inl e)) \<and> contents s'' = contents s'"
        by (rule "1.hyps") (use some "1.prems" c off in auto)
      then obtain s'' buf' e where
        "read_exact_at d s' (offset + n) (drop (unat n) buf) = Some (Returns (s'', buf', Inl e))"
        "contents s'' = contents s" using c by auto
      moreover have "n \<noteq> 0" using some(2) by auto
      ultimately show ?thesis
        using "1.prems"(2) len some
        by (intro exI [of _ s''] exI [of _ "slice_at (unat offset) (unat n) (contents s) @ buf'"] exI [of _ e])
          (subst read_exact_at.simps, simp add: call map_outcome_def)
    qed
  qed
qed

lemma write_all_at_ok:
  assumes "unat offset + length buf \<le> length (contents s)"
  shows "\<exists>s'. write_all_at d s offset buf = Some (Returns (s', Inr ())) \<and>
    contents s' = overwrite (unat offset) buf (contents s)"
  using assms
proof (induction "(length buf, patience s)" arbitrary: s offset buf
    rule: wf_induct_rule [OF wf_lex_prod [OF wf_less_than wf_less_than]])
  case 1
  show ?case
  proof (cases "buf = []")
    case True
    with "1.prems" show ?thesis by (subst write_all_at.simps) auto
  next
    case False
    obtain s' r where call: "io_write_at d s offset [buf] = (s', r)" by fastforce
    from write_at [OF call False "1.prems"] consider
      (some) n where "r = Inr n" "0 < unat n" "unat n \<le> length buf"
        "contents s' = overwrite (unat offset) (take (unat n) buf) (contents s)"
    | (intr) "r = Inl EINTR" "contents s' = contents s" "patience s' < patience s" by blast
    then show ?thesis
    proof cases
      case intr
      with "1.hyps" [of buf s' offset] "1.prems" obtain s'' where
        "write_all_at d s' offset buf = Some (Returns (s'', Inr ()))"
        "contents s'' = overwrite (unat offset) buf (contents s)" by auto
      with intr False show ?thesis
        by (intro exI [of _ s'']) (subst write_all_at.simps, simp add: call)
    next
      case some
      have off: "unat (offset + n) = unat offset + unat n"
        by (rule offset_add [of _ _ s]) (use some(3) "1.prems" in simp)
      have "\<exists>s''. write_all_at d s' (offset + n) (drop (unat n) buf) = Some (Returns (s'', Inr ())) \<and>
          contents s'' = overwrite (unat (offset + n)) (drop (unat n) buf) (contents s')"
        by (rule "1.hyps") (use some "1.prems" off in auto)
      then obtain s'' where rec: "write_all_at d s' (offset + n) (drop (unat n) buf) = Some (Returns (s'', Inr ()))"
        "contents s'' = overwrite (unat offset + unat n) (drop (unat n) buf) (contents s')"
        using off by auto
      have "contents s'' = overwrite (unat offset) buf (contents s)"
        using overwrite_append [of "unat offset" "take (unat n) buf" "drop (unat n) buf" "contents s"]
          some(3,4) "1.prems" by (simp add: rec(2) min_absorb2)
      moreover have "n \<noteq> 0" using some(2) by auto
      ultimately show ?thesis
        using False some rec(1)
        by (intro exI [of _ s'']) (subst write_all_at.simps, simp add: call)
    qed
  qed
qed

end

section \<open>Transfers as total operations\<close>

text \<open>
  The form in which the file system uses a device: \<open>read_exact_at\<close> into a zeroed buffer and
  \<open>write_all_at\<close>, as operations that return. For a device under the contract the loops return and
  do not panic, so the value chosen for those two cases is never reached.
\<close>

record 's block_io =
  bio_read :: "'s \<Rightarrow> usize \<Rightarrow> nat \<Rightarrow> 's \<times> (error + u8 list)"
  bio_write :: "'s \<Rightarrow> usize \<Rightarrow> u8 list \<Rightarrow> 's \<times> (error + unit)"

definition block_of_io :: "'s io_ops \<Rightarrow> 's block_io" where
  "block_of_io d = \<lparr>
    bio_read = (\<lambda>s offset len.
      case read_exact_at d s offset (replicate len 0) of
        Some (Returns (s', buf, r)) \<Rightarrow> (s', bind_res r (\<lambda>_. Inr buf))
      | _ \<Rightarrow> (s, Inl EIO)),
    bio_write = (\<lambda>s offset bytes.
      case write_all_at d s offset bytes of Some (Returns r) \<Rightarrow> r | _ \<Rightarrow> (s, Inl EIO))\<rparr>"

locale block_device =
  fixes bio :: "'s block_io"
    and contents :: "'s \<Rightarrow> u8 list"
  assumes bio_read_ok: "unat offset + len \<le> length (contents s) \<Longrightarrow>
      \<exists>s'. bio_read bio s offset len = (s', Inr (slice_at (unat offset) len (contents s))) \<and>
        contents s' = contents s"
    and bio_write_ok: "unat offset + length bytes \<le> length (contents s) \<Longrightarrow>
      \<exists>s'. bio_write bio s offset bytes = (s', Inr ()) \<and>
        contents s' = overwrite (unat offset) bytes (contents s)"
    and bio_small: "length (contents s) < 2 ^ 64"

sublocale io_device \<subseteq> block: block_device "block_of_io d" contents
proof
  fix offset :: usize and len and s
  assume a: "unat offset + len \<le> length (contents s)"
  show "\<exists>s'. bio_read (block_of_io d) s offset len =
      (s', Inr (slice_at (unat offset) len (contents s))) \<and> contents s' = contents s"
    using read_exact_at_ok [of offset "replicate len 0" s] a by (auto simp: block_of_io_def)
next
  fix offset :: usize and bytes :: "u8 list" and s
  assume a: "unat offset + length bytes \<le> length (contents s)"
  show "\<exists>s'. bio_write (block_of_io d) s offset bytes = (s', Inr ()) \<and>
      contents s' = overwrite (unat offset) bytes (contents s)"
    using write_all_at_ok [of offset bytes s] a by (auto simp: block_of_io_def)
qed (rule contents_small)

section \<open>A device\<close>

text \<open>
  A memory disk that transfers at most 512 bytes per call and is interrupted a given number of
  times before each transfer, with a cursor.
\<close>

record ram_disk =
  ram_bytes :: "u8 list"
  ram_interrupts :: nat
  ram_pos :: usize

typedef small_disk = "{r :: ram_disk. length (ram_bytes r) < 2 ^ 64}"
  by (rule exI [of _ "\<lparr>ram_bytes = [], ram_interrupts = 0, ram_pos = 0\<rparr>"]) simp

setup_lifting type_definition_small_disk

lift_definition disk_bytes :: "small_disk \<Rightarrow> u8 list" is ram_bytes .
lift_definition disk_interrupts :: "small_disk \<Rightarrow> nat" is ram_interrupts .
lift_definition disk_pos :: "small_disk \<Rightarrow> usize" is ram_pos .

lift_definition disk_make :: "u8 list \<Rightarrow> nat \<Rightarrow> small_disk" is
  "\<lambda>bs n. \<lparr>ram_bytes = if length bs < 2 ^ 64 then bs else [], ram_interrupts = n, ram_pos = 0\<rparr>"
  by simp

lift_definition disk_interrupt :: "small_disk \<Rightarrow> small_disk" is
  "\<lambda>r. r\<lparr>ram_interrupts := ram_interrupts r - 1\<rparr>" by simp

lift_definition disk_move :: "usize \<Rightarrow> small_disk \<Rightarrow> small_disk" is
  "\<lambda>p r. r\<lparr>ram_pos := p\<rparr>" by simp

lift_definition disk_put :: "nat \<Rightarrow> u8 list \<Rightarrow> small_disk \<Rightarrow> small_disk" is
  "\<lambda>off bs r. if off + length bs \<le> length (ram_bytes r)
    then r\<lparr>ram_bytes := overwrite off bs (ram_bytes r)\<rparr> else r" by auto

lemma disk_simps [simp]:
  "length bs < 2 ^ 64 \<Longrightarrow> disk_bytes (disk_make bs n) = bs"
  "disk_interrupts (disk_make bs n) = n"
  "disk_bytes (disk_interrupt r) = disk_bytes r"
  "disk_interrupts (disk_interrupt r) = disk_interrupts r - 1"
  "disk_bytes (disk_move p r) = disk_bytes r"
  "off + length ys \<le> length (disk_bytes r) \<Longrightarrow> disk_bytes (disk_put off ys r) = overwrite off ys (disk_bytes r)"
  by (transfer; simp)+

lemma disk_small: "length (disk_bytes r) < 2 ^ 64"
  by transfer simp

definition ram_io :: "small_disk io_ops" where
  "ram_io = \<lparr>
    io_seek = (\<lambda>r whence. case whence of
        SeekStart p \<Rightarrow> (disk_move p r, Inr p)
      | SeekEnd p \<Rightarrow> (let p' = of_nat (length (disk_bytes r)) + p in (disk_move p' r, Inr p'))
      | SeekCurrent p \<Rightarrow> (let p' = disk_pos r + p in (disk_move p' r, Inr p'))),
    io_read_at = (\<lambda>r offset bufs.
      if 0 < disk_interrupts r then (disk_interrupt r, bufs, Inl EINTR)
      else let buf = hd bufs; n = min 512 (min (length buf) (length (disk_bytes r) - unat offset)) in
        (r, (slice_at (unat offset) n (disk_bytes r) @ drop n buf) # tl bufs, Inr (of_nat n))),
    io_write_at = (\<lambda>r offset bufs.
      if 0 < disk_interrupts r then (disk_interrupt r, Inl EINTR)
      else let n = min 512 (min (length (hd bufs)) (length (disk_bytes r) - unat offset)) in
        (disk_put (unat offset) (take n (hd bufs)) r, Inr (of_nat n))),
    io_flush = (\<lambda>r. (r, Inr ()))\<rparr>"

lemma unat_of_small: "n \<le> 512 \<Longrightarrow> unat (of_nat n :: usize) = n"
  by (simp add: unat_of_nat)

interpretation ram: io_device ram_io disk_bytes disk_interrupts
proof
  fix r offset buf r' bufs res
  assume call: "io_read_at ram_io r offset [buf] = (r', bufs, res)" and ne: "buf \<noteq> []"
  define m where m: "m = min 512 (min (length buf) (length (disk_bytes r) - unat offset))"
  {
    assume inside: "unat offset < length (disk_bytes r)"
    have n: "unat (of_nat m :: usize) = m" by (rule unat_of_small) (simp add: m)
    have pos: "0 < m" using inside ne by (simp add: m)
    show "disk_bytes r' = disk_bytes r \<and>
      ((\<exists>n. res = Inr n \<and> 0 < unat n \<and> unat n \<le> length buf \<and> unat offset + unat n \<le> length (disk_bytes r) \<and>
         bufs = [slice_at (unat offset) (unat n) (disk_bytes r) @ drop (unat n) buf]) \<or>
       res = Inl EINTR \<and> bufs = [buf] \<and> disk_interrupts r' < disk_interrupts r)"
    proof (cases "0 < disk_interrupts r")
      case True
      with call show ?thesis by (auto simp: ram_io_def)
    next
      case False
      with call have "r' = r" "res = Inr (of_nat m)"
        "bufs = [slice_at (unat offset) m (disk_bytes r) @ drop m buf]"
        by (auto simp: ram_io_def Let_def m)
      moreover have "unat offset + m \<le> length (disk_bytes r)" "m \<le> length buf" using inside by (simp_all add: m)
      ultimately show ?thesis
        using pos by (intro conjI disjI1 exI [of _ "of_nat m"]) (simp_all add: n)
    qed
  }
  {
    assume "length (disk_bytes r) \<le> unat offset"
    then have m0: "m = 0" by (simp add: m)
    show "disk_bytes r' = disk_bytes r \<and> bufs = [buf] \<and>
        (res = Inr 0 \<or> (\<exists>e. res = Inl e \<and> (e = EINTR \<longrightarrow> disk_interrupts r' < disk_interrupts r)))"
    proof (cases "0 < disk_interrupts r")
      case True
      with call have "r' = disk_interrupt r" "bufs = [buf]" "res = Inl EINTR" by (simp_all add: ram_io_def)
      with True show ?thesis by simp
    next
      case False
      have "io_read_at ram_io r offset [buf] = (r, [slice_at (unat offset) m (disk_bytes r) @ drop m buf], Inr (of_nat m))"
        using False by (simp add: ram_io_def m Let_def)
      with call m0 show ?thesis by (simp add: slice_at_def)
    qed
  }
next
  fix r offset buf r' res
  assume call: "io_write_at ram_io r offset [buf] = (r', res)" and ne: "buf \<noteq> []"
    and inside: "unat offset + length buf \<le> length (disk_bytes r)"
  define m where m: "m = min 512 (min (length buf) (length (disk_bytes r) - unat offset))"
  have n: "unat (of_nat m :: usize) = m" by (rule unat_of_small) (simp add: m)
  have pos: "0 < m" using inside ne by (cases buf) (auto simp: m)
  show "(\<exists>n. res = Inr n \<and> 0 < unat n \<and> unat n \<le> length buf \<and>
         disk_bytes r' = overwrite (unat offset) (take (unat n) buf) (disk_bytes r)) \<or>
      res = Inl EINTR \<and> disk_bytes r' = disk_bytes r \<and> disk_interrupts r' < disk_interrupts r"
  proof (cases "0 < disk_interrupts r")
    case True
    with call show ?thesis by (auto simp: ram_io_def)
  next
    case False
    with call have "r' = disk_put (unat offset) (take m buf) r" "res = Inr (of_nat m)"
      by (auto simp: ram_io_def Let_def m)
    moreover have "unat offset + length (take m buf) \<le> length (disk_bytes r)" "m \<le> length buf" using inside by (simp_all add: m)
    ultimately show ?thesis
      using pos by (intro disjI1 exI [of _ "of_nat m"]) (simp_all add: n)
  qed
qed (rule disk_small)

section \<open>Properties\<close>

text \<open>
  C22: On a device under the contract, \<open>read_exact_at\<close> returns for every range inside the contents,
  however the device splits and interrupts the transfer: the buffer holds exactly the bytes of the
  range and the contents are unchanged. When the range reaches past the end it returns an error,
  also with unchanged contents. \<open>write_all_at\<close> inside the contents returns and replaces exactly
  the range.
\<close>

theorem whole_buffer_transfers:
  assumes "io_device d contents patience"
  shows "(unat offset + length buf \<le> length (contents s) \<longrightarrow>
      (\<exists>s'. read_exact_at d s offset buf =
          Some (Returns (s', slice_at (unat offset) (length buf) (contents s), Inr ())) \<and>
        contents s' = contents s) \<and>
      (\<exists>s'. write_all_at d s offset buf = Some (Returns (s', Inr ())) \<and>
        contents s' = overwrite (unat offset) buf (contents s))) \<and>
    (length (contents s) < unat offset + length buf \<and> buf \<noteq> [] \<longrightarrow>
      (\<exists>s' buf' e. read_exact_at d s offset buf = Some (Returns (s', buf', Inl e)) \<and>
        contents s' = contents s))"
  using io_device.read_exact_at_ok [OF assms, of offset buf s]
    io_device.write_all_at_ok [OF assms, of offset buf s]
    io_device.read_exact_at_eof [OF assms, of s offset buf] by blast

theorem whole_buffer_transfers_witness:
  "\<exists>s'. read_exact_at ram_io (disk_make [1, 2, 3, 4, 5] 3) 1 [0, 0, 0] =
    Some (Returns (s', [2, 3, 4], Inr ()))"
proof -
  have b: "disk_bytes (disk_make [1, 2, 3, 4, 5] 3) = [1, 2, 3, 4, 5]" by simp
  have range: "unat (1 :: usize) + length [0, 0, 0 :: u8] \<le> length (disk_bytes (disk_make [1, 2, 3, 4, 5] 3))"
    unfolding b by simp
  have sl: "slice_at (unat (1 :: usize)) (length [0, 0, 0 :: u8]) (disk_bytes (disk_make [1, 2, 3, 4, 5] 3)) =
      [2, 3, 4]"
    unfolding b by (simp add: slice_at_def)
  show ?thesis
    using whole_buffer_transfers [OF ram.io_device_axioms, of 1 "[0, 0, 0]" "disk_make [1, 2, 3, 4, 5] 3"]
      range unfolding sl by blast
qed

text \<open>
  \<open>advance_slices\<close> drops exactly the first \<open>n\<close> bytes of the scattered buffers, whatever empty
  buffers lie between, and panics exactly when there are fewer than \<open>n\<close>.
\<close>

theorem advance_slices_spec:
  "case advance_slices bufs n of
     Returns bufs' \<Rightarrow> n \<le> ioslice_len bufs \<and> concat bufs' = drop n (concat bufs)
   | Panics \<Rightarrow> ioslice_len bufs < n"
proof -
  from advance_slices_eq [of bufs n] obtain us vs where uv: "bufs = us @ vs"
    "advance_slices bufs n =
      (case vs of
         [] \<Rightarrow> if n = length (concat bufs) then Returns [] else Panics
       | v # vs \<Rightarrow> Returns (drop (n - length (concat us)) v # vs))"
    "length (concat us) \<le> n" "case vs of [] \<Rightarrow> True | v # _ \<Rightarrow> n < length (concat us) + length v"
    by blast
  show ?thesis
    using uv(1,3,4) unfolding uv(2) ioslice_len_eq by (cases vs) auto
qed

end
