(* ===== verification/Fat_Time.thy ===== *)
theory Fat_Time
  imports Prelude
begin

text \<open>
  DOS dates and times (\<^verbatim>\<open>lib/afat32/src/time.rs\<close>): construction with its range assertions,
  and the packing into the 16-bit and 8-bit fields of a directory entry.
\<close>

section \<open>Dates\<close>

definition MIN_YEAR :: u16 where "MIN_YEAR = 1980"
definition MAX_YEAR :: u16 where "MAX_YEAR = 2107"
definition MIN_MONTH :: u16 where "MIN_MONTH = 1"
definition MAX_MONTH :: u16 where "MAX_MONTH = 12"
definition MIN_DAY :: u16 where "MIN_DAY = 1"
definition MAX_DAY :: u16 where "MAX_DAY = 31"

record date =
  year :: u16
  month :: u16
  day :: u16

definition date_new :: "u16 \<Rightarrow> u16 \<Rightarrow> u16 \<Rightarrow> date outcome" where
  "date_new y m d =
    (if \<not> (MIN_YEAR \<le> y \<and> y \<le> MAX_YEAR) then Panics
     else if \<not> (MIN_MONTH \<le> m \<and> m \<le> MAX_MONTH) then Panics
     else if \<not> (MIN_DAY \<le> d \<and> d \<le> MAX_DAY) then Panics
     else Returns \<lparr>year = y, month = m, day = d\<rparr>)"

definition date_decode :: "u16 \<Rightarrow> date" where
  "date_decode dos_date =
    \<lparr>year = drop_bit 9 dos_date + MIN_YEAR,
     month = drop_bit 5 dos_date AND 0xF,
     day = dos_date AND 0x1F\<rparr>"

definition date_encode :: "date \<Rightarrow> u16" where
  "date_encode d = push_bit 9 (year d - MIN_YEAR) OR push_bit 5 (month d) OR day d"

section \<open>Times\<close>

record time =
  hour :: u16
  minute :: u16
  sec :: u16
  millis :: u16

definition time_new :: "u16 \<Rightarrow> u16 \<Rightarrow> u16 \<Rightarrow> u16 \<Rightarrow> time outcome" where
  "time_new h m s ms =
    (if \<not> h \<le> 23 then Panics
     else if \<not> m \<le> 59 then Panics
     else if \<not> s \<le> 59 then Panics
     else if \<not> ms \<le> 999 then Panics
     else Returns \<lparr>hour = h, minute = m, sec = s, millis = ms\<rparr>)"

definition time_decode :: "u16 \<Rightarrow> u8 \<Rightarrow> time" where
  "time_decode dos_time dos_time_hi_res =
    \<lparr>hour = drop_bit 11 dos_time,
     minute = drop_bit 5 dos_time AND 0x3F,
     sec = (dos_time AND 0x1F) * 2 + ucast (dos_time_hi_res div 100),
     millis = ucast (dos_time_hi_res mod 100) * 10\<rparr>"

definition time_encode :: "time \<Rightarrow> u16 \<times> u8" where
  "time_encode t =
    (push_bit 11 (hour t) OR push_bit 5 (minute t) OR (sec t div 2),
     ucast (millis t div 10 + (sec t mod 2) * 100))"

record date_time =
  dt_date :: date
  dt_time :: time

definition date_time_new :: "date \<Rightarrow> time \<Rightarrow> date_time" where
  "date_time_new d t = \<lparr>dt_date = d, dt_time = t\<rparr>"

definition date_time_decode :: "u16 \<Rightarrow> u16 \<Rightarrow> u8 \<Rightarrow> date_time" where
  "date_time_decode dos_date dos_time dos_time_hi_res =
    date_time_new (date_decode dos_date) (time_decode dos_time dos_time_hi_res)"

text \<open>The trait \<open>TimeProvider\<close> and its default implementation.\<close>

record time_provider =
  get_current_date :: date
  get_current_date_time :: date_time

definition null_time_provider :: time_provider where
  "null_time_provider =
    \<lparr>get_current_date = date_decode 0, get_current_date_time = date_time_decode 0 0 0\<rparr>"

section \<open>Bit fields of a 16-bit word\<close>

lemma and_masks:
  "w AND 0x1F = take_bit 5 (w :: u16)" "w AND 0xF = take_bit 4 w" "w AND 0x3F = take_bit 6 w"
  by (simp_all add: take_bit_eq_mask mask_eq_exp_minus_1)

text \<open>Three fields packed side by side are read back, and packing the fields of a word gives it back.\<close>

lemma pack_fields:
  fixes a b c :: u16
  assumes "i + j \<le> 16" and "unat b < 2 ^ j" and "unat c < 2 ^ i"
  shows "drop_bit (i + j) (push_bit (i + j) a OR push_bit i b OR c) = take_bit (16 - (i + j)) a"
    and "take_bit j (drop_bit i (push_bit (i + j) a OR push_bit i b OR c)) = b"
    and "take_bit i (push_bit (i + j) a OR push_bit i b OR c) = c"
  using small_word_no_bit [OF assms(2)] small_word_no_bit [OF assms(3)] assms(1)
  by (auto simp: bit_simps intro!: bit_word_eqI)

lemma unpack_fields:
  fixes w :: u16
  shows "push_bit (i + j) (drop_bit (i + j) w) OR push_bit i (take_bit j (drop_bit i w)) OR take_bit i w = w"
proof (rule bit_word_eqI)
  fix n assume "n < LENGTH(16)"
  then show "bit (push_bit (i + j) (drop_bit (i + j) w) OR push_bit i (take_bit j (drop_bit i w)) OR
      take_bit i w) n = bit w n"
    by (cases "n < i"; cases "n < i + j") (auto simp: bit_simps)
qed

lemma take_bit_small: "unat (w :: 'a :: len word) < 2 ^ k \<Longrightarrow> take_bit k w = w"
  by (auto simp: bit_simps dest: small_word_no_bit intro!: bit_word_eqI) (metis leI small_word_no_bit)

lemma date_decode_encode: "date_encode (date_decode w) = w"
  using unpack_fields [of 5 4 w] by (simp add: date_encode_def date_decode_def and_masks)

lemma date_encode_decode:
  assumes "1980 \<le> unat (year d)" "unat (year d) < 2108" "unat (month d) < 16" "unat (day d) < 32"
  shows "date_decode (date_encode d) = d"
proof -
  have "unat (year d - MIN_YEAR) < 2 ^ 7"
    using assms(1,2) by (simp add: MIN_YEAR_def unat_sub word_le_nat_alt)
  then have y: "take_bit 7 (year d - MIN_YEAR) = year d - MIN_YEAR" by (rule take_bit_small)
  from pack_fields [of 5 4 "month d" "day d" "year d - MIN_YEAR"] assms(3,4) y
  show ?thesis by (simp add: date_encode_def date_decode_def and_masks)
qed

lemma date_new_iff:
  "date_new y m d = Returns dt \<longleftrightarrow>
    1980 \<le> unat y \<and> unat y \<le> 2107 \<and> 1 \<le> unat m \<and> unat m \<le> 12 \<and> 1 \<le> unat d \<and> unat d \<le> 31 \<and>
    dt = \<lparr>year = y, month = m, day = d\<rparr>"
  by (auto simp: date_new_def MIN_YEAR_def MAX_YEAR_def MIN_MONTH_def MAX_MONTH_def MIN_DAY_def
      MAX_DAY_def word_le_nat_alt)

lemma time_new_iff:
  "time_new h m s ms = Returns t \<longleftrightarrow>
    unat h \<le> 23 \<and> unat m \<le> 59 \<and> unat s \<le> 59 \<and> unat ms \<le> 999 \<and>
    t = \<lparr>hour = h, minute = m, sec = s, millis = ms\<rparr>"
  by (auto simp: time_new_def word_le_nat_alt)

text \<open>The high-resolution byte holds the odd second and the hundredths.\<close>

lemma unat_hi_res:
  assumes "unat ms \<le> 999"
  shows "unat (ucast ((ms :: u16) div 10 + (s mod 2) * 100) :: u8) = unat ms div 10 + unat s mod 2 * 100"
proof -
  have ms: "unat (ms div 10) = unat ms div 10" and s: "unat (s mod 2) = unat s mod 2"
    by (simp_all add: unat_div unat_mod)
  have "unat s mod 2 \<le> 1" by simp
  then have m: "unat ((s mod 2) * 100) = unat s mod 2 * 100"
    by (simp add: unat_word_ariths s)
  have "unat ms div 10 \<le> 99" using assms by (simp add: div_le_mono [of _ 999 10, simplified])
  with \<open>unat s mod 2 \<le> 1\<close> have "unat ms div 10 + unat s mod 2 * 100 < 2 ^ 8" by simp
  moreover have "unat (ms div 10 + (s mod 2) * 100) = unat ms div 10 + unat s mod 2 * 100"
    unfolding unat_word_ariths(1) ms m using calculation by simp
  ultimately show ?thesis by (simp add: unsigned_ucast_eq take_bit_eq_mod)
qed

lemma time_encode_decode:
  assumes "unat (hour t) \<le> 23" "unat (minute t) \<le> 59" "unat (sec t) \<le> 59" "unat (millis t) \<le> 999"
  shows "time_decode (fst (time_encode t)) (snd (time_encode t)) = t\<lparr>millis := millis t div 10 * 10\<rparr>"
proof -
  define hr where "hr = (ucast (millis t div 10 + (sec t mod 2) * 100) :: u8)"
  have s2: "unat (sec t div 2) < 2 ^ 5" using assms(3) by (simp add: unat_div)
  have h: "take_bit 5 (hour t) = hour t" by (rule take_bit_small) (use assms(1) in simp)
  note f = pack_fields [of 5 6 "minute t" "sec t div 2" "hour t"]
  have hr: "unat hr = unat (millis t) div 10 + unat (sec t) mod 2 * 100"
    unfolding hr_def by (rule unat_hi_res) fact
  have d: "unat (millis t) div 10 < 100" using assms(4) by simp
  then have q: "unat hr div 100 = unat (sec t) mod 2" and r: "unat hr mod 100 = unat (millis t) div 10"
    unfolding hr by simp_all
  have sec_eq: "(sec t div 2) * 2 + ucast (hr div 100) = sec t"
  proof (rule word_unat_eq_iff [THEN iffD2])
    have "unat (ucast (hr div 100) :: u16) = unat (sec t) mod 2"
      by (simp add: unsigned_ucast_eq unat_div q take_bit_nat_eq_self)
    moreover have "unat ((sec t div 2) * 2) = unat (sec t) div 2 * 2"
      using assms(3) by (simp add: unat_word_ariths unat_div)
    moreover have "unat (sec t) div 2 * 2 + unat (sec t) mod 2 = unat (sec t)" by simp
    ultimately show "unat ((sec t div 2) * 2 + ucast (hr div 100)) = unat (sec t)"
      using assms(3) by (simp only: unat_word_ariths(1)) simp
  qed
  have ms_eq: "ucast (hr mod 100) * 10 = millis t div 10 * (10 :: u16)"
  proof -
    have "ucast (hr mod 100) = millis t div 10"
      by (rule word_unat_eq_iff [THEN iffD2])
        (use d in \<open>simp add: unsigned_ucast_eq unat_mod unat_div r take_bit_nat_eq_self\<close>)
    then show ?thesis by simp
  qed
  show ?thesis
    using f assms(2) s2 h sec_eq ms_eq
    by (simp add: time_decode_def time_encode_def and_masks flip: hr_def)
qed

lemma time_decode_encode:
  "time_encode (time_decode w hi) = (w, hi) \<longleftrightarrow> unat hi < 200"
proof -
  let ?l = "take_bit 5 w"
  define s where "s = ?l * 2 + ucast (hi div 100)"
  have l: "unat ?l < 32" unfolding unsigned_take_bit_eq by (simp only: take_bit_eq_mod) simp
  have hi: "unat hi < 256" using unat_lt [of hi] by simp
  then have q: "unat hi div 100 \<le> 2" by simp
  then have s: "unat s = unat ?l * 2 + unat hi div 100"
    using l unfolding s_def
    by (simp only: unat_word_ariths unsigned_ucast_eq unat_div)
      (simp add: take_bit_nat_eq_self)
  define ms :: u16 where "ms = ucast (hi mod 100) * 10"
  have "unat hi mod 100 < 100" by simp
  then have ms: "unat ms = unat hi mod 100 * 10"
    unfolding ms_def by (simp add: unat_word_ariths unsigned_ucast_eq unat_mod take_bit_nat_eq_self)
  then have hr: "unat (ucast (ms div 10 + (s mod 2) * 100) :: u8) =
      unat hi mod 100 + unat hi div 100 mod 2 * 100"
    using unat_hi_res [of ms s] \<open>unat hi mod 100 < 100\<close> by (simp add: s)
  have dec: "time_encode (time_decode w hi) =
      (push_bit 11 (drop_bit 11 w) OR push_bit 5 (take_bit 6 (drop_bit 5 w)) OR (s div 2),
       ucast (ms div 10 + (s mod 2) * 100))"
    by (simp add: time_encode_def time_decode_def and_masks s_def ms_def)
  show ?thesis
  proof
    assume "unat hi < 200"
    then have q1: "unat hi div 100 < 2" by simp
    then have "unat (s div 2) = unat ?l" by (simp add: unat_div s)
    then have "s div 2 = ?l" by (simp only: word_unat_eq_iff)
    moreover have "ucast (ms div 10 + (s mod 2) * 100) = hi"
      by (rule word_unat_eq_iff [THEN iffD2]) (use q1 in \<open>simp add: hr\<close>)
    ultimately show "time_encode (time_decode w hi) = (w, hi)"
      using unpack_fields [of 5 6 w] by (simp add: dec)
  next
    assume "time_encode (time_decode w hi) = (w, hi)"
    then have "unat hi = unat hi mod 100 + unat hi div 100 mod 2 * 100"
      using hr by (simp add: dec)
    moreover have "unat hi div 100 = 2" if "200 \<le> unat hi" using that q div_le_mono [OF that, of 100] by simp
    moreover have "unat hi mod 100 < 100" by simp
    ultimately show "unat hi < 200" by (cases "200 \<le> unat hi") auto
  qed
qed

section \<open>Properties\<close>

text \<open>
  C29: Every 16-bit date field decodes to a date that encodes to the same field. \<open>Date::new\<close> accepts
  exactly the years 1980 to 2107, months 1 to 12 and days 1 to 31 and panics otherwise, and what it
  accepts survives encoding and decoding. \<open>Time::new\<close> accepts exactly the times of day; encoding
  and decoding an accepted time loses the milliseconds below a hundredth of a second and nothing
  else. A time field with its high-resolution byte re-encodes to itself exactly when that byte is
  below 200.
\<close>

theorem dos_timestamps_roundtrip:
  "date_encode (date_decode w) = w \<and>
   (time_encode (time_decode w hi) = (w, hi) \<longleftrightarrow> unat hi < 200) \<and>
   (case date_new y m d of
      Returns dt \<Rightarrow> unat y \<in> {1980..2107} \<and> unat m \<in> {1..12} \<and> unat d \<in> {1..31} \<and>
        dt = \<lparr>year = y, month = m, day = d\<rparr> \<and> date_decode (date_encode dt) = dt
    | Panics \<Rightarrow> \<not> (unat y \<in> {1980..2107} \<and> unat m \<in> {1..12} \<and> unat d \<in> {1..31})) \<and>
   (case time_new h mi s ms of
      Returns t \<Rightarrow> unat h < 24 \<and> unat mi < 60 \<and> unat s < 60 \<and> unat ms < 1000 \<and>
        t = \<lparr>hour = h, minute = mi, sec = s, millis = ms\<rparr> \<and>
        time_decode (fst (time_encode t)) (snd (time_encode t)) = t\<lparr>millis := ms div 10 * 10\<rparr>
    | Panics \<Rightarrow> 24 \<le> unat h \<or> 60 \<le> unat mi \<or> 60 \<le> unat s \<or> 1000 \<le> unat ms)"
proof -
  have "date_new y m d = Panics \<Longrightarrow>
      unat y \<notin> {1980..2107} \<or> unat m \<notin> {1..12} \<or> unat d \<notin> {1..31}"
    using date_new_iff [of y m d "\<lparr>year = y, month = m, day = d\<rparr>"] by auto
  moreover have "time_new h mi s ms = Panics \<Longrightarrow>
      24 \<le> unat h \<or> 60 \<le> unat mi \<or> 60 \<le> unat s \<or> 1000 \<le> unat ms"
    using time_new_iff [of h mi s ms "\<lparr>hour = h, minute = mi, sec = s, millis = ms\<rparr>"]
    by (auto simp: not_le)
  ultimately show ?thesis
    by (auto simp: date_decode_encode time_decode_encode date_new_iff time_new_iff
        date_encode_decode time_encode_decode split: outcome.split)
qed

end
