(* ===== verification/Fat_Raw.thy ===== *)
theory Fat_Raw
  imports Bytes
begin

text \<open>
  The on-disk structures of a FAT volume (\<^verbatim>\<open>lib/afat32/src/raw.rs\<close>): the BIOS parameter block
  with the geometry computed from it, the boot sector, and the FSInfo sector. Decoders take the
  parsers of \<^verbatim>\<open>nom\<close> as their argument \<open>N\<close>; a line \<open>(input, x) = p(input)?\<close> of the source is
  \<open>bind_res (p input) (\<lambda>(input, x). \<dots>)\<close>.
\<close>

section \<open>The BIOS parameter block\<close>

record bpb =
  bytes_per_sector :: u16
  sectors_per_cluster :: u8
  reserved_sectors :: u16
  fats :: u8
  root_entries :: u16
  total_sectors_16 :: u16
  media :: u8
  sectors_per_fat_16 :: u16
  sectors_per_track :: u16
  heads :: u16
  hidden_sectors :: u32
  total_sectors_32 :: u32
  sectors_per_fat_32 :: u32
  extended_flags :: u16
  fs_version :: u16
  root_dir_first_cluster :: u32
  fs_info_sector :: u16
  backup_boot_sector :: u16
  reserved_0 :: "u8 list"
  drive_num :: u8
  reserved_1 :: u8
  ext_sig :: u8
  volume_id :: u32
  volume_label :: "u8 list"
  fs_type_label :: "u8 list"

definition bpb_default :: bpb where
  "bpb_default = \<lparr>bytes_per_sector = 0, sectors_per_cluster = 0, reserved_sectors = 0, fats = 0,
    root_entries = 0, total_sectors_16 = 0, media = 0, sectors_per_fat_16 = 0,
    sectors_per_track = 0, heads = 0, hidden_sectors = 0, total_sectors_32 = 0,
    sectors_per_fat_32 = 0, extended_flags = 0, fs_version = 0, root_dir_first_cluster = 0,
    fs_info_sector = 0, backup_boot_sector = 0, reserved_0 = replicate 12 0, drive_num = 0,
    reserved_1 = 0, ext_sig = 0, volume_id = 0, volume_label = replicate 11 0,
    fs_type_label = replicate 8 0\<rparr>"

definition RESERVED_0 :: nat where "RESERVED_0 = 12"
definition RESERVED_1 :: nat where "RESERVED_1 = 1"

definition is_fat32 :: "bpb \<Rightarrow> bool" where
  "is_fat32 b \<longleftrightarrow> sectors_per_fat_16 b = 0"

text \<open>
  \<open>BiosParameterBlock::parse\<close> in the three parts of its text: the fields common to all FAT
  variants, the FAT32 extension, and the trailer with the labels.
\<close>

definition bpb_parse_common :: "'e nom_ops \<Rightarrow> bpb \<Rightarrow> u8 list \<Rightarrow> 'e + u8 list \<times> bpb" where
  "bpb_parse_common N b input =
    bind_res (nom_le_u16 N input) (\<lambda>(input, x). let b = b\<lparr>bytes_per_sector := x\<rparr> in
    bind_res (nom_u8 N input) (\<lambda>(input, x). let b = b\<lparr>sectors_per_cluster := x\<rparr> in
    bind_res (nom_le_u16 N input) (\<lambda>(input, x). let b = b\<lparr>reserved_sectors := x\<rparr> in
    bind_res (nom_u8 N input) (\<lambda>(input, x). let b = b\<lparr>fats := x\<rparr> in
    bind_res (nom_le_u16 N input) (\<lambda>(input, x). let b = b\<lparr>root_entries := x\<rparr> in
    bind_res (nom_le_u16 N input) (\<lambda>(input, x). let b = b\<lparr>total_sectors_16 := x\<rparr> in
    bind_res (nom_u8 N input) (\<lambda>(input, x). let b = b\<lparr>media := x\<rparr> in
    bind_res (nom_le_u16 N input) (\<lambda>(input, x). let b = b\<lparr>sectors_per_fat_16 := x\<rparr> in
    bind_res (nom_le_u16 N input) (\<lambda>(input, x). let b = b\<lparr>sectors_per_track := x\<rparr> in
    bind_res (nom_le_u16 N input) (\<lambda>(input, x). let b = b\<lparr>heads := x\<rparr> in
    bind_res (nom_le_u32 N input) (\<lambda>(input, x). let b = b\<lparr>hidden_sectors := x\<rparr> in
    bind_res (nom_le_u32 N input) (\<lambda>(input, x).
      Inr (input, b\<lparr>total_sectors_32 := x\<rparr>)))))))))))))"

definition bpb_parse_fat32 :: "'e nom_ops \<Rightarrow> bpb \<Rightarrow> u8 list \<Rightarrow> 'e + u8 list \<times> bpb" where
  "bpb_parse_fat32 N b input =
    bind_res (nom_le_u32 N input) (\<lambda>(input, x). let b = b\<lparr>sectors_per_fat_32 := x\<rparr> in
    bind_res (nom_le_u16 N input) (\<lambda>(input, x). let b = b\<lparr>extended_flags := x\<rparr> in
    bind_res (nom_le_u16 N input) (\<lambda>(input, x). let b = b\<lparr>fs_version := x\<rparr> in
    bind_res (nom_le_u32 N input) (\<lambda>(input, x). let b = b\<lparr>root_dir_first_cluster := x\<rparr> in
    bind_res (nom_le_u16 N input) (\<lambda>(input, x). let b = b\<lparr>fs_info_sector := x\<rparr> in
    bind_res (nom_le_u16 N input) (\<lambda>(input, x). let b = b\<lparr>backup_boot_sector := x\<rparr> in
    bind_res (nom_take N RESERVED_0 input) (\<lambda>(input, _). Inr (input, b))))))))"

definition bpb_parse_tail :: "'e nom_ops \<Rightarrow> bpb \<Rightarrow> u8 list \<Rightarrow> 'e + u8 list \<times> bpb" where
  "bpb_parse_tail N b input =
    bind_res (nom_u8 N input) (\<lambda>(input, x). let b = b\<lparr>drive_num := x\<rparr> in
    bind_res (nom_take N RESERVED_1 input) (\<lambda>(input, _).
    bind_res (nom_u8 N input) (\<lambda>(input, x). let b = b\<lparr>ext_sig := x\<rparr> in
    bind_res (nom_le_u32 N input) (\<lambda>(input, x). let b = b\<lparr>volume_id := x\<rparr> in
    bind_res (nom_take N 11 input) (\<lambda>(input, x). let b = b\<lparr>volume_label := x\<rparr> in
    bind_res (nom_take N 8 input) (\<lambda>(input, x). let b = b\<lparr>fs_type_label := x\<rparr> in
      Inr (input,
        if ext_sig b = 0x29
        then b\<lparr>volume_id := 0, volume_label := replicate 11 0, fs_type_label := replicate 8 0\<rparr>
        else b)))))))"

definition bpb_parse :: "'e nom_ops \<Rightarrow> u8 list \<Rightarrow> 'e + u8 list \<times> bpb" where
  "bpb_parse N input =
    bind_res (bpb_parse_common N bpb_default input) (\<lambda>(input, b).
    bind_res (if is_fat32 b then bpb_parse_fat32 N b input else Inr (input, b)) (\<lambda>(input, b).
      bpb_parse_tail N b input))"

text \<open>The volume status bits (\<open>FsStatusFlags\<close> of \<^verbatim>\<open>fs.rs\<close>).\<close>

record fs_status_flags =
  dirty :: bool
  io_error :: bool

definition status_encode :: "fs_status_flags \<Rightarrow> u8" where
  "status_encode f = (let res = 0; res = (if dirty f then res OR 1 else res) in
    if io_error f then res OR 2 else res)"

definition status_decode :: "u8 \<Rightarrow> fs_status_flags" where
  "status_decode flags = \<lparr>dirty = flags AND 1 \<noteq> 0, io_error = flags AND 2 \<noteq> 0\<rparr>"

definition status_flags :: "bpb \<Rightarrow> fs_status_flags" where
  "status_flags b = status_decode (reserved_1 b)"

section \<open>Geometry\<close>

definition DIR_ENTRY_SIZE :: u32 where "DIR_ENTRY_SIZE = 32"

definition mirroring_enabled :: "bpb \<Rightarrow> bool" where
  "mirroring_enabled b \<longleftrightarrow> extended_flags b AND 0x80 = 0"

definition active_fat :: "bpb \<Rightarrow> u16" where
  "active_fat b = (if mirroring_enabled b then 0 else extended_flags b AND 0x0F)"

definition sectors_per_fat :: "bpb \<Rightarrow> u32" where
  "sectors_per_fat b = (if is_fat32 b then sectors_per_fat_32 b else ucast (sectors_per_fat_16 b))"

definition total_sectors :: "bpb \<Rightarrow> u32" where
  "total_sectors b = (if total_sectors_16 b = 0 then total_sectors_32 b else ucast (total_sectors_16 b))"

text \<open>Division by zero panics.\<close>

definition root_dir_sectors :: "bpb \<Rightarrow> u32 outcome" where
  "root_dir_sectors b =
    (let root_dir_bytes = ucast (root_entries b) * DIR_ENTRY_SIZE; bps = ucast (bytes_per_sector b) in
     if bps = 0 then Panics else Returns ((root_dir_bytes + bps - 1) div bps))"

definition sectors_per_all_fats :: "bpb \<Rightarrow> u32" where
  "sectors_per_all_fats b = ucast (fats b) * sectors_per_fat b"

definition first_data_sector :: "bpb \<Rightarrow> u32 outcome" where
  "first_data_sector b =
    bind_out (root_dir_sectors b) (\<lambda>root.
      Returns (ucast (reserved_sectors b) + sectors_per_all_fats b + root))"

definition total_clusters :: "bpb \<Rightarrow> u32 outcome" where
  "total_clusters b =
    bind_out (first_data_sector b) (\<lambda>first.
      let data_sectors = total_sectors b - first; spc = ucast (sectors_per_cluster b) in
      if spc = 0 then Panics else Returns (data_sectors div spc))"

definition bytes_from_sectors :: "bpb \<Rightarrow> u32 \<Rightarrow> u64" where
  "bytes_from_sectors b sectors = ucast sectors * ucast (bytes_per_sector b)"

definition sectors_from_clusters :: "bpb \<Rightarrow> u32 \<Rightarrow> u32" where
  "sectors_from_clusters b clusters = clusters * ucast (sectors_per_cluster b)"

definition cluster_size :: "bpb \<Rightarrow> u32" where
  "cluster_size b = ucast (sectors_per_cluster b) * ucast (bytes_per_sector b)"

section \<open>The boot sector\<close>

record boot_sector =
  bootjmp :: "u8 list"
  oem_name :: "u8 list"
  bs_bpb :: bpb
  boot_code :: "u8 list"

definition BOOT_SIG :: "u8 list" where "BOOT_SIG = [0x55, 0xaa]"

definition boot_sector_default :: boot_sector where
  "boot_sector_default =
    \<lparr>bootjmp = replicate 3 0, oem_name = replicate 8 0, bs_bpb = bpb_default,
     boot_code = replicate 448 0\<rparr>"

definition boot_sector_parse :: "'e nom_ops \<Rightarrow> u8 list \<Rightarrow> 'e + u8 list \<times> boot_sector" where
  "boot_sector_parse N input = (let bs = boot_sector_default in
    bind_res (nom_take N 3 input) (\<lambda>(input, x). let bs = bs\<lparr>bootjmp := x\<rparr> in
    bind_res (nom_take N 8 input) (\<lambda>(input, x). let bs = bs\<lparr>oem_name := x\<rparr> in
    bind_res (bpb_parse N input) (\<lambda>(input, x). let bs = bs\<lparr>bs_bpb := x\<rparr> in
    bind_res
      (if is_fat32 (bs_bpb bs)
       then bind_res (nom_take N 420 input) (\<lambda>(input, bc).
         Inr (input, bs\<lparr>boot_code := overwrite 0 bc (boot_code bs)\<rparr>))
       else bind_res (nom_take N 448 input) (\<lambda>(input, bc). Inr (input, bs\<lparr>boot_code := bc\<rparr>)))
      (\<lambda>(input, bs).
    bind_res (nom_tag N BOOT_SIG input) (\<lambda>(input, _). Inr (input, bs)))))))"

section \<open>The FSInfo sector\<close>

record fs_info_sector_data =
  free_cluster_count :: "u32 option"
  next_free_cluster :: "u32 option"
  fis_dirty :: bool

definition LEAD_SIG :: u32 where "LEAD_SIG = 0x41615252"
definition STRUC_SIG :: u32 where "STRUC_SIG = 0x61417272"
definition TRAIL_SIG :: u32 where "TRAIL_SIG = 0xAA550000"

definition fs_info_parse :: "'e nom_ops \<Rightarrow> u8 list \<Rightarrow> 'e + u8 list \<times> fs_info_sector_data" where
  "fs_info_parse N input =
    bind_res (nom_tag N (le_bytes 4 LEAD_SIG) input) (\<lambda>(input, _).
    bind_res (nom_take N 480 input) (\<lambda>(input, _).
    bind_res (nom_tag N (le_bytes 4 STRUC_SIG) input) (\<lambda>(input, _).
    bind_res (nom_le_u32 N input) (\<lambda>(input, count).
    bind_res (nom_le_u32 N input) (\<lambda>(input, nx).
    bind_res (nom_take N 12 input) (\<lambda>(input, _).
    bind_res (nom_tag N (le_bytes 4 TRAIL_SIG) input) (\<lambda>(input, _).
      Inr (input,
        \<lparr>free_cluster_count = (if count \<noteq> - 1 then Some count else None),
         next_free_cluster = (if nx \<in> {- 1, 0, 1} then None else Some nx),
         fis_dirty = False\<rparr>))))))))"

definition fs_info_to_bytes :: "fs_info_sector_data \<Rightarrow> u8 list \<times> u8 list" where
  "fs_info_to_bytes fis =
    (le_bytes 4 LEAD_SIG,
     le_bytes 4 STRUC_SIG @
     le_bytes 4 (case free_cluster_count fis of None \<Rightarrow> 0xFFFFFFFF | Some n \<Rightarrow> n) @
     le_bytes 4 (case next_free_cluster fis of None \<Rightarrow> 0xFFFFFFFF | Some n \<Rightarrow> n) @
     replicate 12 0 @
     le_bytes 4 TRAIL_SIG)"

definition RESERVED_FAT_ENTRIES :: u32 where "RESERVED_FAT_ENTRIES = 2"

definition fs_info_fix :: "fs_info_sector_data \<Rightarrow> u32 \<Rightarrow> fs_info_sector_data" where
  "fs_info_fix fis clusters =
    (let max_valid_cluster_number = clusters + RESERVED_FAT_ENTRIES;
       fis = (case free_cluster_count fis of
           Some n \<Rightarrow> if n > clusters then fis\<lparr>free_cluster_count := None\<rparr> else fis
         | None \<Rightarrow> fis)
     in case next_free_cluster fis of
         Some n \<Rightarrow> if n > max_valid_cluster_number then fis\<lparr>next_free_cluster := None\<rparr> else fis
       | None \<Rightarrow> fis)"

definition map_free_clusters :: "(u32 \<Rightarrow> u32) \<Rightarrow> fs_info_sector_data \<Rightarrow> fs_info_sector_data" where
  "map_free_clusters map_fn fis =
    (case free_cluster_count fis of
       Some n \<Rightarrow> fis\<lparr>free_cluster_count := Some (map_fn n), fis_dirty := True\<rparr>
     | None \<Rightarrow> fis)"

definition set_next_free_cluster :: "u32 \<Rightarrow> fs_info_sector_data \<Rightarrow> fs_info_sector_data" where
  "set_next_free_cluster cluster fis = fis\<lparr>next_free_cluster := Some cluster, fis_dirty := True\<rparr>"

definition set_free_cluster_count :: "u32 \<Rightarrow> fs_info_sector_data \<Rightarrow> fs_info_sector_data" where
  "set_free_cluster_count n fis = fis\<lparr>free_cluster_count := Some n, fis_dirty := True\<rparr>"

section \<open>The layout of the structures on disk\<close>

text \<open>
  The reference layout of a FAT32 BIOS parameter block, field by field, and what a decoder that
  drops the reserved fields and blanks the labels leaves of it.
\<close>

definition bpb_common_bytes :: "bpb \<Rightarrow> u8 list" where
  "bpb_common_bytes b =
    le_bytes 2 (bytes_per_sector b) @ sectors_per_cluster b # le_bytes 2 (reserved_sectors b) @
    fats b # le_bytes 2 (root_entries b) @ le_bytes 2 (total_sectors_16 b) @ media b #
    le_bytes 2 (sectors_per_fat_16 b) @ le_bytes 2 (sectors_per_track b) @ le_bytes 2 (heads b) @
    le_bytes 4 (hidden_sectors b) @ le_bytes 4 (total_sectors_32 b)"

definition bpb_fat32_bytes :: "bpb \<Rightarrow> u8 list" where
  "bpb_fat32_bytes b =
    le_bytes 4 (sectors_per_fat_32 b) @ le_bytes 2 (extended_flags b) @ le_bytes 2 (fs_version b) @
    le_bytes 4 (root_dir_first_cluster b) @ le_bytes 2 (fs_info_sector b) @
    le_bytes 2 (backup_boot_sector b) @ reserved_0 b"

definition bpb_tail_bytes :: "bpb \<Rightarrow> u8 list" where
  "bpb_tail_bytes b =
    drive_num b # reserved_1 b # ext_sig b # le_bytes 4 (volume_id b) @ volume_label b @ fs_type_label b"

definition bpb_blanked :: "bpb \<Rightarrow> bpb" where
  "bpb_blanked b = (let b = b\<lparr>reserved_0 := replicate 12 0, reserved_1 := 0\<rparr> in
    if ext_sig b = 0x29
    then b\<lparr>volume_id := 0, volume_label := replicate 11 0, fs_type_label := replicate 8 0\<rparr> else b)"

definition bpb_ok :: "bpb \<Rightarrow> bool" where
  "bpb_ok b \<longleftrightarrow> is_fat32 b \<and> length (reserved_0 b) = 12 \<and> length (volume_label b) = 11 \<and>
    length (fs_type_label b) = 8"

context nom_parsers
begin

lemma parse_common:
  "bpb_parse_common N b0 (bpb_common_bytes b @ inp) =
    Inr (inp, b0\<lparr>bytes_per_sector := bytes_per_sector b, sectors_per_cluster := sectors_per_cluster b,
      reserved_sectors := reserved_sectors b, fats := fats b, root_entries := root_entries b,
      total_sectors_16 := total_sectors_16 b, media := media b,
      sectors_per_fat_16 := sectors_per_fat_16 b, sectors_per_track := sectors_per_track b,
      heads := heads b, hidden_sectors := hidden_sectors b, total_sectors_32 := total_sectors_32 b\<rparr>)"
  by (simp add: bpb_parse_common_def bpb_common_bytes_def parse_bytes)

lemma parse_fat32:
  "length (reserved_0 b) = 12 \<Longrightarrow> bpb_parse_fat32 N b0 (bpb_fat32_bytes b @ inp) =
    Inr (inp, b0\<lparr>sectors_per_fat_32 := sectors_per_fat_32 b, extended_flags := extended_flags b,
      fs_version := fs_version b, root_dir_first_cluster := root_dir_first_cluster b,
      fs_info_sector := fs_info_sector b, backup_boot_sector := backup_boot_sector b\<rparr>)"
  by (simp add: bpb_parse_fat32_def bpb_fat32_bytes_def parse_bytes RESERVED_0_def)

lemma take_one: "nom_take N (Suc 0) (x # inp) = Inr (inp, [x])"
  by (simp add: take_ok)

lemma parse_tail:
  assumes "length (volume_label b) = 11" and "length (fs_type_label b) = 8"
  shows "bpb_parse_tail N b0 (bpb_tail_bytes b @ inp) =
    Inr (inp, let b1 = b0\<lparr>drive_num := drive_num b, ext_sig := ext_sig b, volume_id := volume_id b,
        volume_label := volume_label b, fs_type_label := fs_type_label b\<rparr> in
      if ext_sig b = 0x29
      then b1\<lparr>volume_id := 0, volume_label := replicate 11 0, fs_type_label := replicate 8 0\<rparr> else b1)"
  using assms
  by (simp add: bpb_parse_tail_def bpb_tail_bytes_def parse_bytes take_one RESERVED_1_def Let_def)

lemma parse_bpb:
  assumes "bpb_ok b"
  shows "bpb_parse N (bpb_common_bytes b @ bpb_fat32_bytes b @ bpb_tail_bytes b @ inp) =
    Inr (inp, bpb_blanked b)"
  using assms
  by (cases b) (simp add: bpb_parse_def parse_common parse_fat32 parse_tail bpb_ok_def is_fat32_def
      bpb_blanked_def bpb_default_def)

lemma parse_boot_sector:
  assumes "bpb_ok b" and "length jmp = 3" and "length oem = 8" and "length code = 420"
  shows "boot_sector_parse N
      (jmp @ oem @ bpb_common_bytes b @ bpb_fat32_bytes b @ bpb_tail_bytes b @ code @ BOOT_SIG @ inp) =
    Inr (inp, \<lparr>bootjmp = jmp, oem_name = oem, bs_bpb = bpb_blanked b,
      boot_code = code @ replicate 28 0\<rparr>)"
proof -
  have "is_fat32 (bpb_blanked b)" using assms(1) by (simp add: bpb_ok_def is_fat32_def bpb_blanked_def Let_def)
  with assms show ?thesis
    by (simp add: boot_sector_parse_def take_append parse_bpb tag_ok boot_sector_default_def overwrite_def)
qed

lemma parse_fs_info:
  assumes "length zeros = 480"
  shows "fs_info_parse N (fst (fs_info_to_bytes fis) @ zeros @ snd (fs_info_to_bytes fis) @ inp) =
    Inr (inp, \<lparr>
      free_cluster_count = (if free_cluster_count fis = Some (- 1) then None else free_cluster_count fis),
      next_free_cluster =
        (if next_free_cluster fis \<in> Some ` {- 1, 0, 1} then None else next_free_cluster fis),
      fis_dirty = False\<rparr>)"
  using assms by (auto simp: fs_info_parse_def fs_info_to_bytes_def parse_bytes split: option.splits)

lemma parse_fs_info_bad_lead:
  assumes "take 4 inp \<noteq> le_bytes 4 LEAD_SIG"
  shows "\<exists>e. fs_info_parse N inp = Inl e"
  using tag_fail [of "le_bytes 4 LEAD_SIG" inp] assms by (auto simp: fs_info_parse_def)

end

lemma status_decode_encode: "status_decode (status_encode f) = f"
  by (cases f) (auto simp: status_decode_def status_encode_def)

section \<open>Properties\<close>

text \<open>
  C27: Decoding a boot sector with the FAT32 layout yields its fields, with three exceptions: the
  reserved bytes are dropped, so that the status flags of the result are always clean whatever
  the disk says, and the volume id and the two labels are blanked exactly when the extended
  signature \<open>0x29\<close> declares them present.
\<close>

theorem boot_sector_layout:
  assumes "nom_parsers N" and "bpb_ok b" and "length jmp = 3" and "length oem = 8"
    and "length code = 420"
  shows "boot_sector_parse N
      (jmp @ oem @ bpb_common_bytes b @ bpb_fat32_bytes b @ bpb_tail_bytes b @ code @ BOOT_SIG @ inp) =
    Inr (inp, \<lparr>bootjmp = jmp, oem_name = oem, bs_bpb = bpb_blanked b,
      boot_code = code @ replicate 28 0\<rparr>) \<and>
    status_flags (bpb_blanked b) = \<lparr>dirty = False, io_error = False\<rparr> \<and>
    (bpb_blanked b = b\<lparr>reserved_0 := replicate 12 0, reserved_1 := 0\<rparr> \<or> ext_sig b = 0x29)"
  using nom_parsers.parse_boot_sector [OF assms]
  by (simp add: bpb_blanked_def status_flags_def status_decode_def Let_def)

definition bpb_example :: bpb where
  "bpb_example = bpb_default\<lparr>bytes_per_sector := 512, sectors_per_cluster := 8,
    reserved_sectors := 32, fats := 2, media := 0xF8, total_sectors_32 := 0x20000,
    sectors_per_fat_32 := 0x80, root_dir_first_cluster := 2, fs_info_sector := 1,
    ext_sig := 0x28, reserved_1 := 1\<rparr>"

theorem boot_sector_layout_witness:
  "bpb_ok bpb_example \<and>
   (let b = bpb_example in boot_sector_parse plain_nom
      ([0xEB, 0x58, 0x90] @ replicate 8 0x20 @ bpb_common_bytes b @ bpb_fat32_bytes b @
       bpb_tail_bytes b @ replicate 420 0 @ BOOT_SIG @ []) =
    Inr ([], \<lparr>bootjmp = [0xEB, 0x58, 0x90], oem_name = replicate 8 0x20,
      bs_bpb = b\<lparr>reserved_1 := 0\<rparr>, boot_code = replicate 420 0 @ replicate 28 0\<rparr>))"
proof -
  have ok: "bpb_ok bpb_example"
    by (simp add: bpb_ok_def bpb_example_def is_fat32_def bpb_default_def)
  have blank: "bpb_blanked bpb_example = bpb_example\<lparr>reserved_1 := 0\<rparr>"
    by (simp add: bpb_blanked_def bpb_example_def bpb_default_def)
  have jmp: "length [0xEB, 0x58, 0x90 :: u8] = 3" by simp
  show ?thesis
    using ok boot_sector_layout [OF plain.nom_parsers_axioms ok jmp length_replicate length_replicate]
    unfolding Let_def blank by blast
qed

text \<open>
  C28: The two pieces that \<open>FsInfoSector::to_bytes\<close> produces, written around 480 reserved bytes,
  decode to the same allocation hints; only a count of \<open>u32::MAX\<close> and the hints \<open>u32::MAX\<close>, 0
  and 1, which stand for an absent value, come back as \<open>None\<close>. After \<open>fix\<close> the count is at most the
  number of clusters and the hint at most two above it, when that sum does not wrap.
\<close>

theorem fs_info_roundtrip:
  assumes "nom_parsers N" and "length zeros = 480" and "unat clusters + 2 < 2 ^ 32"
  shows "\<exists>fis'. fs_info_parse N (fst (fs_info_to_bytes fis) @ zeros @ snd (fs_info_to_bytes fis) @ inp) =
      Inr (inp, fis') \<and>
    free_cluster_count fis' =
      (if free_cluster_count fis = Some (- 1) then None else free_cluster_count fis) \<and>
    next_free_cluster fis' =
      (if next_free_cluster fis \<in> {Some (- 1), Some 0, Some 1} then None else next_free_cluster fis) \<and>
    \<not> fis_dirty fis' \<and>
    free_cluster_count (fs_info_fix fis' clusters) \<in> insert None (Some ` {n. unat n \<le> unat clusters}) \<and>
    next_free_cluster (fs_info_fix fis' clusters) \<in>
      insert None (Some ` {n. unat n \<le> unat clusters + 2})"
proof -
  have c2: "unat (clusters + 2) = unat clusters + 2"
    using assms(3) by (subst unat_add_no_overflow) simp_all
  have fix_count: "free_cluster_count (fs_info_fix f clusters) \<in>
      insert None (Some ` {n. unat n \<le> unat clusters})" for f
    by (auto simp: fs_info_fix_def Let_def word_less_nat_alt split: option.splits)
  have fix_next: "next_free_cluster (fs_info_fix f clusters) \<in>
      insert None (Some ` {n. unat n \<le> unat clusters + 2})" for f
    by (auto simp: fs_info_fix_def Let_def RESERVED_FAT_ENTRIES_def word_less_nat_alt c2
        split: option.splits)
  from nom_parsers.parse_fs_info [OF assms(1,2)] fix_count fix_next show ?thesis
    by (intro exI conjI) auto
qed

theorem fs_info_roundtrip_witness:
  "\<exists>fis'. fs_info_parse plain_nom
      (fst (fs_info_to_bytes \<lparr>free_cluster_count = Some 7, next_free_cluster = Some 99, fis_dirty = True\<rparr>) @
       replicate 480 0 @
       snd (fs_info_to_bytes \<lparr>free_cluster_count = Some 7, next_free_cluster = Some 99, fis_dirty = True\<rparr>) @ [])
      = Inr ([], fis') \<and> free_cluster_count fis' = Some 7 \<and> next_free_cluster fis' = Some 99"
  using fs_info_roundtrip [OF plain.nom_parsers_axioms, of "replicate 480 0" 50
      "\<lparr>free_cluster_count = Some 7, next_free_cluster = Some 99, fis_dirty = True\<rparr>" "[]"]
  by auto

end
