(* ===== verification/Fat_Dirent.thy ===== *)
theory Fat_Dirent
  imports Fat_Time Fat_Raw Umio
begin

text \<open>
  Directory entries (\<^verbatim>\<open>lib/afat32/src/dirent.rs\<close>): the short-name and long-name records of 32
  bytes with their codecs, the decoded short name, the entry editor and the logical directory
  entry. Characters are their Unicode code points; the upper-case mapping of Unicode is an
  argument \<open>upper\<close> of the comparisons that use it. The field \<open>fs\<close> of a logical entry, a reference
  to the file system, is not stored: the operations that go through it are in the theories of the
  table and of the file system.
\<close>

section \<open>Constants\<close>

type_synonym uchar = nat

definition oem_decode :: "u8 \<Rightarrow> uchar" where
  "oem_decode oem_char = (if oem_char \<le> 0x7F then unat oem_char else 0xFFFD)"

definition oem_encode :: "uchar \<Rightarrow> u8 option" where
  "oem_encode uni_char = (if uni_char \<le> 0x7F then Some (of_nat uni_char) else None)"

type_synonym file_attributes = u8

definition READ_ONLY :: file_attributes where "READ_ONLY = 0x01"
definition HIDDEN :: file_attributes where "HIDDEN = 0x02"
definition SYSTEM :: file_attributes where "SYSTEM = 0x04"
definition VOLUME_ID :: file_attributes where "VOLUME_ID = 0x08"
definition DIRECTORY :: file_attributes where "DIRECTORY = 0x10"
definition ARCHIVE :: file_attributes where "ARCHIVE = 0x20"
definition LFN :: file_attributes where "LFN = READ_ONLY OR HIDDEN OR SYSTEM OR VOLUME_ID"

definition attrs_contains :: "file_attributes \<Rightarrow> file_attributes \<Rightarrow> bool" where
  "attrs_contains a b \<longleftrightarrow> a AND b = b"

definition attrs_truncate :: "u8 \<Rightarrow> file_attributes" where
  "attrs_truncate b = b AND (READ_ONLY OR HIDDEN OR SYSTEM OR VOLUME_ID OR DIRECTORY OR ARCHIVE)"

definition DIR_ENTRY_DELETED_FLAG :: u8 where "DIR_ENTRY_DELETED_FLAG = 0xE5"
definition DIR_ENTRY_REALLY_E5_FLAG :: u8 where "DIR_ENTRY_REALLY_E5_FLAG = 0x05"
definition SFN_SIZE :: nat where "SFN_SIZE = 11"
definition SFN_PADDING :: u8 where "SFN_PADDING = 0x20"
definition LFN_PART_LEN :: nat where "LFN_PART_LEN = 13"
definition LFN_ENTRY_LAST_FLAG :: u8 where "LFN_ENTRY_LAST_FLAG = 0x40"

section \<open>Short names\<close>

text \<open>\<open>Iterator::rposition\<close>: the last index at which the predicate holds.\<close>

fun rposition :: "('a \<Rightarrow> bool) \<Rightarrow> 'a list \<Rightarrow> nat option" where
  "rposition P [] = None"
| "rposition P (x # xs) =
    (case rposition P xs of Some i \<Rightarrow> Some (Suc i) | None \<Rightarrow> if P x then Some 0 else None)"

definition stripped_len :: "('a \<Rightarrow> bool) \<Rightarrow> 'a list \<Rightarrow> nat" where
  "stripped_len P xs = (case rposition P xs of None \<Rightarrow> 0 | Some p \<Rightarrow> p + 1)"

record short_name =
  sn_name :: "u8 list"
  sn_len :: u8

definition short_name_new :: "u8 list \<Rightarrow> short_name" where
  "short_name_new raw_name =
    (let name_len = stripped_len (\<lambda>x. x \<noteq> SFN_PADDING) (slice_at 0 8 raw_name);
       ext_len = stripped_len (\<lambda>x. x \<noteq> SFN_PADDING) (slice_at 8 3 raw_name);
       name = replicate 12 SFN_PADDING;
       name = overwrite 0 (take name_len raw_name) name;
       (name, total_len) =
         (if ext_len > 0 then
            (let name = name[name_len := 0x2E];
               name = overwrite (name_len + 1) (slice_at 8 ext_len raw_name) name
             in (name, name_len + 1 + ext_len))
          else (name, name_len));
       name = (if name ! 0 = DIR_ENTRY_REALLY_E5_FLAG then name[0 := 0xE5] else name)
     in \<lparr>sn_name = name, sn_len = of_nat total_len\<rparr>)"

definition sn_as_bytes :: "short_name \<Rightarrow> u8 list" where
  "sn_as_bytes n = take (unat (sn_len n)) (sn_name n)"

definition sn_to_string :: "short_name \<Rightarrow> uchar list" where
  "sn_to_string n = map oem_decode (sn_as_bytes n)"

definition sn_eq_ignore_case :: "(uchar \<Rightarrow> uchar list) \<Rightarrow> short_name \<Rightarrow> uchar list \<Rightarrow> bool" where
  "sn_eq_ignore_case upper n name \<longleftrightarrow>
    concat (map upper (map oem_decode (sn_as_bytes n))) = concat (map upper name)"

section \<open>Short-name entries\<close>

record dir_file_entry_data =
  df_name :: "u8 list"
  df_attrs :: file_attributes
  df_reserved_0 :: u8
  df_create_time_0 :: u8
  df_create_time_1 :: u16
  df_create_date :: u16
  df_access_date :: u16
  df_first_cluster_hi :: u16
  df_modify_time :: u16
  df_modify_date :: u16
  df_first_cluster_lo :: u16
  df_size :: u32

definition df_default :: dir_file_entry_data where
  "df_default = \<lparr>df_name = replicate SFN_SIZE 0, df_attrs = 0, df_reserved_0 = 0,
    df_create_time_0 = 0, df_create_time_1 = 0, df_create_date = 0, df_access_date = 0,
    df_first_cluster_hi = 0, df_modify_time = 0, df_modify_date = 0, df_first_cluster_lo = 0,
    df_size = 0\<rparr>"

definition df_new :: "u8 list \<Rightarrow> file_attributes \<Rightarrow> dir_file_entry_data" where
  "df_new name attrs = df_default\<lparr>df_name := name, df_attrs := attrs\<rparr>"

definition df_renamed :: "dir_file_entry_data \<Rightarrow> u8 list \<Rightarrow> dir_file_entry_data" where
  "df_renamed e new_name = e\<lparr>df_name := new_name\<rparr>"

definition df_is_dir :: "dir_file_entry_data \<Rightarrow> bool" where
  "df_is_dir e \<longleftrightarrow> attrs_contains (df_attrs e) DIRECTORY"

definition df_is_file :: "dir_file_entry_data \<Rightarrow> bool" where
  "df_is_file e \<longleftrightarrow> \<not> df_is_dir e"

definition lowercase_basename :: "dir_file_entry_data \<Rightarrow> bool" where
  "lowercase_basename e \<longleftrightarrow> df_reserved_0 e AND push_bit 3 1 \<noteq> 0"

definition lowercase_ext :: "dir_file_entry_data \<Rightarrow> bool" where
  "lowercase_ext e \<longleftrightarrow> df_reserved_0 e AND push_bit 4 1 \<noteq> 0"

definition to_ascii_lowercase :: "u8 \<Rightarrow> u8" where
  "to_ascii_lowercase b = (if 0x41 \<le> b \<and> b \<le> 0x5A then b OR 0x20 else b)"

definition lowercase_name :: "dir_file_entry_data \<Rightarrow> short_name" where
  "lowercase_name e =
    (let name_copy = df_name e;
       name_copy = (if lowercase_basename e
         then map to_ascii_lowercase (take 8 name_copy) @ drop 8 name_copy else name_copy);
       name_copy = (if lowercase_ext e
         then take 8 name_copy @ map to_ascii_lowercase (drop 8 name_copy) else name_copy)
     in short_name_new name_copy)"

definition df_first_cluster :: "dir_file_entry_data \<Rightarrow> u32 option" where
  "df_first_cluster e =
    (let cluster = push_bit 16 (ucast (df_first_cluster_hi e)) OR ucast (df_first_cluster_lo e) in
     if cluster \<noteq> 0 then Some cluster else None)"

definition df_set_first_cluster :: "u32 option \<Rightarrow> dir_file_entry_data \<Rightarrow> dir_file_entry_data" where
  "df_set_first_cluster cluster e =
    (let n = (case cluster of None \<Rightarrow> 0 | Some n \<Rightarrow> n) in
     e\<lparr>df_first_cluster_hi := ucast (drop_bit 16 n), df_first_cluster_lo := ucast (n AND 0xFFFF)\<rparr>)"

definition df_get_size :: "dir_file_entry_data \<Rightarrow> u32 option" where
  "df_get_size e = (if df_is_file e then Some (df_size e) else None)"

definition df_set_size :: "u32 \<Rightarrow> dir_file_entry_data \<Rightarrow> dir_file_entry_data" where
  "df_set_size n e = e\<lparr>df_size := n\<rparr>"

definition df_created :: "dir_file_entry_data \<Rightarrow> date_time" where
  "df_created e = date_time_decode (df_create_date e) (df_create_time_1 e) (df_create_time_0 e)"

definition df_accessed :: "dir_file_entry_data \<Rightarrow> date" where
  "df_accessed e = date_decode (df_access_date e)"

definition df_modified :: "dir_file_entry_data \<Rightarrow> date_time" where
  "df_modified e = date_time_decode (df_modify_date e) (df_modify_time e) 0"

definition df_set_created :: "date_time \<Rightarrow> dir_file_entry_data \<Rightarrow> dir_file_entry_data" where
  "df_set_created dt e =
    (let e = e\<lparr>df_create_date := date_encode (dt_date dt)\<rparr>; encoded_time = time_encode (dt_time dt) in
     e\<lparr>df_create_time_1 := fst encoded_time, df_create_time_0 := snd encoded_time\<rparr>)"

definition df_set_accessed :: "date \<Rightarrow> dir_file_entry_data \<Rightarrow> dir_file_entry_data" where
  "df_set_accessed d e = e\<lparr>df_access_date := date_encode d\<rparr>"

definition df_set_modified :: "date_time \<Rightarrow> dir_file_entry_data \<Rightarrow> dir_file_entry_data" where
  "df_set_modified dt e =
    e\<lparr>df_modify_date := date_encode (dt_date dt), df_modify_time := fst (time_encode (dt_time dt))\<rparr>"

definition df_to_bytes :: "dir_file_entry_data \<Rightarrow> u8 list" where
  "df_to_bytes e =
    df_name e @ [df_attrs e, df_reserved_0 e, df_create_time_0 e] @
    le_bytes 2 (df_create_time_1 e) @ le_bytes 2 (df_create_date e) @ le_bytes 2 (df_access_date e) @
    le_bytes 2 (df_first_cluster_hi e) @ le_bytes 2 (df_modify_time e) @
    le_bytes 2 (df_modify_date e) @ le_bytes 2 (df_first_cluster_lo e) @ le_bytes 4 (df_size e)"

definition df_is_deleted :: "dir_file_entry_data \<Rightarrow> bool" where
  "df_is_deleted e \<longleftrightarrow> df_name e ! 0 = DIR_ENTRY_DELETED_FLAG"

definition df_set_deleted :: "dir_file_entry_data \<Rightarrow> dir_file_entry_data" where
  "df_set_deleted e = e\<lparr>df_name := (df_name e)[0 := DIR_ENTRY_DELETED_FLAG]\<rparr>"

definition df_is_end :: "dir_file_entry_data \<Rightarrow> bool" where
  "df_is_end e \<longleftrightarrow> df_name e ! 0 = 0"

definition df_is_volume :: "dir_file_entry_data \<Rightarrow> bool" where
  "df_is_volume e \<longleftrightarrow> attrs_contains (df_attrs e) VOLUME_ID"

section \<open>Long-name entries\<close>

record dir_lfn_entry_data =
  dl_order :: u8
  dl_name_0 :: "u16 list"
  dl_attrs :: file_attributes
  dl_entry_type :: u8
  dl_checksum :: u8
  dl_name_1 :: "u16 list"
  dl_reserved_0 :: u16
  dl_name_2 :: "u16 list"

definition dl_default :: dir_lfn_entry_data where
  "dl_default = \<lparr>dl_order = 0, dl_name_0 = replicate 5 0, dl_attrs = 0, dl_entry_type = 0,
    dl_checksum = 0, dl_name_1 = replicate 6 0, dl_reserved_0 = 0, dl_name_2 = replicate 2 0\<rparr>"

definition dl_new :: "u8 \<Rightarrow> u8 \<Rightarrow> dir_lfn_entry_data" where
  "dl_new order checksum = dl_default\<lparr>dl_order := order, dl_checksum := checksum, dl_attrs := LFN\<rparr>"

definition copy_name_from_slice :: "u16 list \<Rightarrow> dir_lfn_entry_data \<Rightarrow> dir_lfn_entry_data" where
  "copy_name_from_slice lfn_part e =
    e\<lparr>dl_name_0 := slice_at 0 5 lfn_part, dl_name_1 := slice_at 5 6 lfn_part,
      dl_name_2 := slice_at 11 2 lfn_part\<rparr>"

definition copy_name_to_slice :: "dir_lfn_entry_data \<Rightarrow> u16 list \<Rightarrow> u16 list" where
  "copy_name_to_slice e lfn_part =
    overwrite 11 (dl_name_2 e) (overwrite 5 (dl_name_1 e) (overwrite 0 (dl_name_0 e) lfn_part))"

definition dl_to_bytes :: "dir_lfn_entry_data \<Rightarrow> u8 list" where
  "dl_to_bytes e =
    [dl_order e] @
    le_bytes 2 (dl_name_0 e ! 0) @ le_bytes 2 (dl_name_0 e ! 1) @ le_bytes 2 (dl_name_0 e ! 2) @
    le_bytes 2 (dl_name_0 e ! 3) @ le_bytes 2 (dl_name_0 e ! 4) @
    [dl_attrs e, dl_entry_type e, dl_checksum e] @
    le_bytes 2 (dl_name_1 e ! 0) @ le_bytes 2 (dl_name_1 e ! 1) @ le_bytes 2 (dl_name_1 e ! 2) @
    le_bytes 2 (dl_name_1 e ! 3) @ le_bytes 2 (dl_name_1 e ! 4) @ le_bytes 2 (dl_name_1 e ! 5) @
    le_bytes 2 (dl_reserved_0 e) @
    le_bytes 2 (dl_name_2 e ! 0) @ le_bytes 2 (dl_name_2 e ! 1)"

definition dl_is_deleted :: "dir_lfn_entry_data \<Rightarrow> bool" where
  "dl_is_deleted e \<longleftrightarrow> dl_order e = DIR_ENTRY_DELETED_FLAG"

definition dl_set_deleted :: "dir_lfn_entry_data \<Rightarrow> dir_lfn_entry_data" where
  "dl_set_deleted e = e\<lparr>dl_order := DIR_ENTRY_DELETED_FLAG\<rparr>"

definition dl_is_end :: "dir_lfn_entry_data \<Rightarrow> bool" where
  "dl_is_end e \<longleftrightarrow> dl_order e = 0"

section \<open>Raw entries\<close>

datatype dir_entry_data = File dir_file_entry_data | Lfn dir_lfn_entry_data

fun de_to_bytes :: "dir_entry_data \<Rightarrow> u8 list" where
  "de_to_bytes (File f) = df_to_bytes f"
| "de_to_bytes (Lfn l) = dl_to_bytes l"

text \<open>A loop that reads \<open>n\<close> 16-bit values.\<close>

fun parse_u16s :: "'e nom_ops \<Rightarrow> nat \<Rightarrow> u8 list \<Rightarrow> 'e + u8 list \<times> u16 list" where
  "parse_u16s N 0 input = Inr (input, [])"
| "parse_u16s N (Suc n) input =
    bind_res (nom_le_u16 N input) (\<lambda>(input, x).
    bind_res (parse_u16s N n input) (\<lambda>(input, xs). Inr (input, x # xs)))"

text \<open>\<open>chunks_exact(2)\<close> zipped with a destination of \<open>n\<close> values.\<close>

fun u16_chunks :: "nat \<Rightarrow> u8 list \<Rightarrow> u16 list" where
  "u16_chunks (Suc n) (a # b # bs) = of_le [a, b] # u16_chunks n bs"
| "u16_chunks _ _ = []"

definition de_parse_lfn ::
  "'e nom_ops \<Rightarrow> u8 list \<Rightarrow> file_attributes \<Rightarrow> u8 list \<Rightarrow> 'e + u8 list \<times> dir_entry_data" where
  "de_parse_lfn N name attrs input =
    (let data = dl_default\<lparr>dl_attrs := attrs, dl_order := name ! 0,
       dl_name_0 := u16_chunks 5 (tl name)\<rparr> in
     bind_res (nom_u8 N input) (\<lambda>(input, x). let data = data\<lparr>dl_entry_type := x\<rparr> in
     bind_res (nom_u8 N input) (\<lambda>(input, x). let data = data\<lparr>dl_checksum := x\<rparr> in
     bind_res (parse_u16s N 6 input) (\<lambda>(input, x). let data = data\<lparr>dl_name_1 := x\<rparr> in
     bind_res (nom_le_u16 N input) (\<lambda>(input, x). let data = data\<lparr>dl_reserved_0 := x\<rparr> in
     bind_res (parse_u16s N 2 input) (\<lambda>(input, x). let data = data\<lparr>dl_name_2 := x\<rparr> in
       Inr (input, Lfn data)))))))"

definition de_parse_file ::
  "'e nom_ops \<Rightarrow> u8 list \<Rightarrow> file_attributes \<Rightarrow> u8 list \<Rightarrow> 'e + u8 list \<times> dir_entry_data" where
  "de_parse_file N name attrs input =
    (let data = df_default\<lparr>df_name := name, df_attrs := attrs\<rparr> in
     bind_res (nom_u8 N input) (\<lambda>(input, x). let data = data\<lparr>df_reserved_0 := x\<rparr> in
     bind_res (nom_u8 N input) (\<lambda>(input, x). let data = data\<lparr>df_create_time_0 := x\<rparr> in
     bind_res (nom_le_u16 N input) (\<lambda>(input, x). let data = data\<lparr>df_create_time_1 := x\<rparr> in
     bind_res (nom_le_u16 N input) (\<lambda>(input, x). let data = data\<lparr>df_create_date := x\<rparr> in
     bind_res (nom_le_u16 N input) (\<lambda>(input, x). let data = data\<lparr>df_access_date := x\<rparr> in
     bind_res (nom_le_u16 N input) (\<lambda>(input, x). let data = data\<lparr>df_first_cluster_hi := x\<rparr> in
     bind_res (nom_le_u16 N input) (\<lambda>(input, x). let data = data\<lparr>df_modify_time := x\<rparr> in
     bind_res (nom_le_u16 N input) (\<lambda>(input, x). let data = data\<lparr>df_modify_date := x\<rparr> in
     bind_res (nom_le_u16 N input) (\<lambda>(input, x). let data = data\<lparr>df_first_cluster_lo := x\<rparr> in
     bind_res (nom_le_u32 N input) (\<lambda>(input, x). let data = data\<lparr>df_size := x\<rparr> in
       Inr (input, File data))))))))))))"

definition de_parse :: "'e nom_ops \<Rightarrow> u8 list \<Rightarrow> 'e + u8 list \<times> dir_entry_data" where
  "de_parse N input =
    bind_res (nom_take N SFN_SIZE input) (\<lambda>(input, name).
    bind_res (nom_u8 N input) (\<lambda>(input, x).
      let attrs = attrs_truncate x in
      if attrs_contains attrs LFN then de_parse_lfn N name attrs input
      else de_parse_file N name attrs input))"

fun de_is_deleted :: "dir_entry_data \<Rightarrow> bool" where
  "de_is_deleted (File f) = df_is_deleted f"
| "de_is_deleted (Lfn l) = dl_is_deleted l"

fun de_set_deleted :: "dir_entry_data \<Rightarrow> dir_entry_data" where
  "de_set_deleted (File f) = File (df_set_deleted f)"
| "de_set_deleted (Lfn l) = Lfn (dl_set_deleted l)"

fun de_is_end :: "dir_entry_data \<Rightarrow> bool" where
  "de_is_end (File f) = df_is_end f"
| "de_is_end (Lfn l) = dl_is_end l"

section \<open>The entry editor\<close>

record entry_editor =
  ee_data :: dir_file_entry_data
  ee_pos :: u64
  ee_dirty :: bool

definition editor_new :: "dir_file_entry_data \<Rightarrow> u64 \<Rightarrow> entry_editor" where
  "editor_new data pos = \<lparr>ee_data = data, ee_pos = pos, ee_dirty = False\<rparr>"

definition ee_edit :: "(dir_file_entry_data \<Rightarrow> dir_file_entry_data) \<Rightarrow> entry_editor \<Rightarrow> entry_editor" where
  "ee_edit f e = e\<lparr>ee_data := f (ee_data e), ee_dirty := True\<rparr>"

definition ee_set_first_cluster :: "u32 option \<Rightarrow> entry_editor \<Rightarrow> entry_editor" where
  "ee_set_first_cluster c e =
    (if c \<noteq> df_first_cluster (ee_data e) then ee_edit (df_set_first_cluster c) e else e)"

definition ee_set_size :: "u32 \<Rightarrow> entry_editor \<Rightarrow> entry_editor" where
  "ee_set_size n e =
    (case df_get_size (ee_data e) of
       Some m \<Rightarrow> if n \<noteq> m then ee_edit (df_set_size n) e else e
     | None \<Rightarrow> e)"

definition ee_set_created :: "date_time \<Rightarrow> entry_editor \<Rightarrow> entry_editor" where
  "ee_set_created dt e = (if dt \<noteq> df_created (ee_data e) then ee_edit (df_set_created dt) e else e)"

definition ee_set_accessed :: "date \<Rightarrow> entry_editor \<Rightarrow> entry_editor" where
  "ee_set_accessed d e = (if d \<noteq> df_accessed (ee_data e) then ee_edit (df_set_accessed d) e else e)"

definition ee_set_modified :: "date_time \<Rightarrow> entry_editor \<Rightarrow> entry_editor" where
  "ee_set_modified dt e = (if dt \<noteq> df_modified (ee_data e) then ee_edit (df_set_modified dt) e else e)"

definition ee_flush ::
  "'s block_io \<Rightarrow> 's \<Rightarrow> entry_editor \<Rightarrow> 's \<times> entry_editor \<times> (error + unit)" where
  "ee_flush bio s e =
    (if ee_dirty e then
       (case bio_write bio s (ee_pos e) (df_to_bytes (ee_data e)) of
          (s, Inl err) \<Rightarrow> (s, e, Inl err)
        | (s, Inr _) \<Rightarrow> (s, e\<lparr>ee_dirty := False\<rparr>, Inr ()))
     else (s, e, Inr ()))"

section \<open>Logical directory entries\<close>

record dir_entry =
  d_data :: dir_file_entry_data
  d_short_name :: short_name
  d_lfn_utf16 :: "u16 list"
  d_entry_pos :: u64
  d_offset_range :: "u64 \<times> u64"

definition short_file_name :: "dir_entry \<Rightarrow> uchar list" where
  "short_file_name e = sn_to_string (d_short_name e)"

definition short_file_name_as_bytes :: "dir_entry \<Rightarrow> u8 list" where
  "short_file_name_as_bytes e = sn_as_bytes (d_short_name e)"

definition long_file_name_as_ucs2_units :: "dir_entry \<Rightarrow> u16 list option" where
  "long_file_name_as_ucs2_units e =
    (if length (d_lfn_utf16 e) > 0 then Some (d_lfn_utf16 e) else None)"

text \<open>\<open>char::decode_utf16\<close>: \<open>None\<close> for an unpaired surrogate.\<close>

fun decode_utf16 :: "u16 list \<Rightarrow> uchar option list" where
  "decode_utf16 [] = []"
| "decode_utf16 (u # us) =
    (if \<not> (0xD800 \<le> u \<and> u \<le> 0xDFFF) then Some (unat u) # decode_utf16 us
     else if 0xDC00 \<le> u then None # decode_utf16 us
     else case us of
         [] \<Rightarrow> [None]
       | u2 # us' \<Rightarrow>
          if \<not> (0xDC00 \<le> u2 \<and> u2 \<le> 0xDFFF) then None # decode_utf16 us
          else Some (0x10000 + (unat u - 0xD800) * 0x400 + (unat u2 - 0xDC00)) # decode_utf16 us')"

text \<open>\<open>String::from_utf16_lossy\<close> replaces each unpaired surrogate.\<close>

definition from_utf16_lossy :: "u16 list \<Rightarrow> uchar list" where
  "from_utf16_lossy us = map (\<lambda>c. case c of None \<Rightarrow> 0xFFFD | Some c \<Rightarrow> c) (decode_utf16 us)"

definition file_name :: "dir_entry \<Rightarrow> uchar list" where
  "file_name e =
    (case long_file_name_as_ucs2_units e of
       Some lfn \<Rightarrow> from_utf16_lossy lfn
     | None \<Rightarrow> sn_to_string (lowercase_name (d_data e)))"

definition d_is_dir :: "dir_entry \<Rightarrow> bool" where
  "d_is_dir e \<longleftrightarrow> df_is_dir (d_data e)"

definition d_is_file :: "dir_entry \<Rightarrow> bool" where
  "d_is_file e \<longleftrightarrow> df_is_file (d_data e)"

definition d_first_cluster :: "dir_entry \<Rightarrow> u32 option" where
  "d_first_cluster e = df_first_cluster (d_data e)"

definition d_editor :: "dir_entry \<Rightarrow> entry_editor" where
  "d_editor e = editor_new (d_data e) (d_entry_pos e)"

definition is_same_entry :: "dir_entry \<Rightarrow> dir_entry \<Rightarrow> bool" where
  "is_same_entry e e' \<longleftrightarrow> d_entry_pos e = d_entry_pos e'"

definition d_len :: "dir_entry \<Rightarrow> u64" where
  "d_len e = ucast (df_size (d_data e))"

text \<open>
  The comparison with a long name: for each decoded character its upper-case characters are
  matched one by one against the remaining upper-case characters of the other name.
\<close>

fun match_upper :: "uchar list \<Rightarrow> uchar list \<Rightarrow> uchar list option" where
  "match_upper [] other = Some other"
| "match_upper (c # cs) other =
    (case other of [] \<Rightarrow> None | x # xs \<Rightarrow> if c = x then match_upper cs xs else None)"

fun eq_lfn_loop :: "(uchar \<Rightarrow> uchar list) \<Rightarrow> uchar option list \<Rightarrow> uchar list \<Rightarrow> bool" where
  "eq_lfn_loop upper [] other = (other = [])"
| "eq_lfn_loop upper (dec # decs) other =
    (case dec of
       None \<Rightarrow> False
     | Some c \<Rightarrow>
        (case match_upper (upper c) other of None \<Rightarrow> False | Some other \<Rightarrow> eq_lfn_loop upper decs other))"

definition eq_name_lfn :: "(uchar \<Rightarrow> uchar list) \<Rightarrow> dir_entry \<Rightarrow> uchar list \<Rightarrow> bool" where
  "eq_name_lfn upper e name =
    (case long_file_name_as_ucs2_units e of
       Some lfn \<Rightarrow> eq_lfn_loop upper (decode_utf16 lfn) (concat (map upper name))
     | None \<Rightarrow> False)"

definition eq_name :: "(uchar \<Rightarrow> uchar list) \<Rightarrow> dir_entry \<Rightarrow> uchar list \<Rightarrow> bool" where
  "eq_name upper e name =
    (if eq_name_lfn upper e name then True else sn_eq_ignore_case upper (d_short_name e) name)"

section \<open>Codecs: correctness\<close>

definition df_ok :: "dir_file_entry_data \<Rightarrow> bool" where
  "df_ok f \<longleftrightarrow> length (df_name f) = 11 \<and> attrs_truncate (df_attrs f) = df_attrs f \<and>
    \<not> attrs_contains (df_attrs f) LFN"

definition dl_ok :: "dir_lfn_entry_data \<Rightarrow> bool" where
  "dl_ok l \<longleftrightarrow> length (dl_name_0 l) = 5 \<and> length (dl_name_1 l) = 6 \<and> length (dl_name_2 l) = 2 \<and>
    attrs_truncate (dl_attrs l) = dl_attrs l \<and> attrs_contains (dl_attrs l) LFN"

fun de_ok :: "dir_entry_data \<Rightarrow> bool" where
  "de_ok (File f) = df_ok f"
| "de_ok (Lfn l) = dl_ok l"

lemma attrs_truncate_mask: "attrs_truncate b = take_bit 6 b"
  by (simp add: attrs_truncate_def READ_ONLY_def HIDDEN_def SYSTEM_def VOLUME_ID_def DIRECTORY_def
      ARCHIVE_def take_bit_eq_mask mask_eq_exp_minus_1)

lemma attrs_truncate_idem [simp]: "attrs_truncate (attrs_truncate b) = attrs_truncate b"
  by (simp add: attrs_truncate_mask)

lemma length_de_to_bytes: "de_ok e \<Longrightarrow> length (de_to_bytes e) = 32"
  by (cases e) (auto simp: df_to_bytes_def dl_to_bytes_def df_ok_def)

lemma dl_eta: "\<lparr>dl_order = dl_order l, dl_name_0 = dl_name_0 l, dl_attrs = dl_attrs l,
    dl_entry_type = dl_entry_type l, dl_checksum = dl_checksum l, dl_name_1 = dl_name_1 l,
    dl_reserved_0 = dl_reserved_0 l, dl_name_2 = dl_name_2 l\<rparr> = l"
  by simp

lemma list_5: "length xs = 5 \<Longrightarrow> xs = [xs ! 0, xs ! 1, xs ! 2, xs ! 3, xs ! 4]"
  by (rule nth_equalityI) (auto simp: less_Suc_eq numeral_eq_Suc)

lemma list_6: "length xs = 6 \<Longrightarrow> xs = [xs ! 0, xs ! 1, xs ! 2, xs ! 3, xs ! 4, xs ! 5]"
  by (rule nth_equalityI) (auto simp: less_Suc_eq numeral_eq_Suc)

lemma list_2: "length xs = 2 \<Longrightarrow> xs = [xs ! 0, xs ! 1]"
  by (rule nth_equalityI) (auto simp: less_Suc_eq numeral_eq_Suc)

lemma le_bytes_2: "\<exists>a b. le_bytes 2 (w :: u16) = [a, b] \<and> of_le [a, b] = w"
proof -
  obtain a b where ab: "le_bytes 2 w = [a, b]"
    using list_2 [of "le_bytes 2 w"] by auto
  with of_le_bytes [of 2 w] show ?thesis by auto
qed

lemma u16_chunks_le_bytes [simp]:
  "u16_chunks (Suc n) (le_bytes 2 w @ bs) = w # u16_chunks n bs"
proof -
  from le_bytes_2 [of w] obtain a b where "le_bytes 2 w = [a, b]" "of_le [a, b] = w" by blast
  then show ?thesis by (simp del: of_le.simps)
qed

lemma u16_chunks_concat: "n = length ws \<Longrightarrow> u16_chunks n (concat (map (le_bytes 2) ws)) = ws"
  by (induction ws arbitrary: n) auto

context nom_parsers
begin

lemma parse_u16s_concat:
  "n = length ws \<Longrightarrow> parse_u16s N n (concat (map (le_bytes 2) ws) @ inp) = Inr (inp, ws)"
  by (induction ws arbitrary: n) (auto simp: parse_bytes)

lemma parse_file_ok:
  assumes "df_ok f"
  shows "de_parse N (df_to_bytes f @ inp) = Inr (inp, File f)"
  using assms
  by (cases f) (simp add: de_parse_def de_parse_file_def df_to_bytes_def df_ok_def SFN_SIZE_def
      parse_bytes df_default_def)

lemma parse_lfn_ok:
  assumes "dl_ok l"
  shows "de_parse N (dl_to_bytes l @ inp) = Inr (inp, Lfn l)"
proof -
  let ?n0 = "dl_order l # le_bytes 2 (dl_name_0 l ! 0) @ le_bytes 2 (dl_name_0 l ! 1) @
    le_bytes 2 (dl_name_0 l ! 2) @ le_bytes 2 (dl_name_0 l ! 3) @ le_bytes 2 (dl_name_0 l ! 4)"
  let ?rest = "dl_attrs l # dl_entry_type l # dl_checksum l #
    le_bytes 2 (dl_name_1 l ! 0) @ le_bytes 2 (dl_name_1 l ! 1) @ le_bytes 2 (dl_name_1 l ! 2) @
    le_bytes 2 (dl_name_1 l ! 3) @ le_bytes 2 (dl_name_1 l ! 4) @ le_bytes 2 (dl_name_1 l ! 5) @
    le_bytes 2 (dl_reserved_0 l) @
    le_bytes 2 (dl_name_2 l ! 0) @ le_bytes 2 (dl_name_2 l ! 1) @ inp"
  have b: "dl_to_bytes l @ inp = ?n0 @ ?rest" by (simp add: dl_to_bytes_def)
  have t: "nom_take N 11 (?n0 @ ?rest) = Inr (?rest, ?n0)"
    by (rule take_append) simp
  have l: "length (dl_name_0 l) = 5" "length (dl_name_1 l) = 6" "length (dl_name_2 l) = 2"
    using assms by (simp_all add: dl_ok_def)
  obtain a0 a1 a2 a3 a4 where a: "dl_name_0 l = [a0, a1, a2, a3, a4]" using list_5 [OF l(1)] by blast
  obtain b0 b1 b2 b3 b4 b5 where c: "dl_name_1 l = [b0, b1, b2, b3, b4, b5]"
    using list_6 [OF l(2)] by blast
  obtain c0 c1 where e: "dl_name_2 l = [c0, c1]" using list_2 [OF l(3)] by blast
  have n0: "u16_chunks 5 (tl ?n0) = dl_name_0 l"
    using u16_chunks_concat [of 5 "[a0, a1, a2, a3, a4]"] by (simp add: a)
  have "parse_u16s N 6 (le_bytes 2 (dl_name_1 l ! 0) @ le_bytes 2 (dl_name_1 l ! 1) @
      le_bytes 2 (dl_name_1 l ! 2) @ le_bytes 2 (dl_name_1 l ! 3) @ le_bytes 2 (dl_name_1 l ! 4) @
      le_bytes 2 (dl_name_1 l ! 5) @ x) = Inr (x, dl_name_1 l)" for x
    using parse_u16s_concat [of 6 "[b0, b1, b2, b3, b4, b5]" x] by (simp add: c)
  moreover have "parse_u16s N 2 (le_bytes 2 (dl_name_2 l ! 0) @ le_bytes 2 (dl_name_2 l ! 1) @ x) =
      Inr (x, dl_name_2 l)" for x
    using parse_u16s_concat [of 2 "[c0, c1]" x] by (simp add: e)
  ultimately show ?thesis
    unfolding b using assms
    by (simp add: de_parse_def de_parse_lfn_def SFN_SIZE_def t parse_bytes n0 [simplified] dl_ok_def dl_default_def dl_eta
        del: append_Cons)
qed

end

lemma le_bytes_pair: "le_bytes 2 (of_le [a, b] :: u16) = [a, b]"
  by (rule le_bytes_of_le_n) simp_all

lemma le_bytes_quad: "le_bytes 4 (of_le [a, b, c, d] :: u32) = [a, b, c, d]"
  by (rule le_bytes_of_le_n) simp_all

lemma list_32:
  assumes "length bs = 32"
  shows "bs = [bs ! 0, bs ! 1, bs ! 2, bs ! 3, bs ! 4, bs ! 5, bs ! 6, bs ! 7, bs ! 8, bs ! 9,
    bs ! 10, bs ! 11, bs ! 12, bs ! 13, bs ! 14, bs ! 15, bs ! 16, bs ! 17, bs ! 18, bs ! 19,
    bs ! 20, bs ! 21, bs ! 22, bs ! 23, bs ! 24, bs ! 25, bs ! 26, bs ! 27, bs ! 28, bs ! 29,
    bs ! 30, bs ! 31]"
proof -
  have "bs = map (nth bs) [0..<32]" using assms by (simp add: map_nth flip: assms)
  also have "[0..<32] = [0, 1, 2, 3, 4, 5, 6, 7, 8, 9, 10, 11, 12, 13, 14, 15, 16, 17, 18, 19, 20,
      21, 22, 23, 24, 25, 26, 27, 28, 29, 30, 31]" by (simp add: upt_rec)
  finally show ?thesis by (simp only: list.map)
qed

text \<open>Every 32 bytes with clean attribute bits are the encoding of a record.\<close>

lemma de_to_bytes_surj:
  assumes "length bs = 32" and "attrs_truncate (bs ! 11) = bs ! 11"
  shows "\<exists>e. de_ok e \<and> de_to_bytes e = bs"
proof (cases "attrs_contains (bs ! 11) LFN")
  case True
  let ?l = "\<lparr>dl_order = bs ! 0,
    dl_name_0 = [of_le [bs ! 1, bs ! 2], of_le [bs ! 3, bs ! 4], of_le [bs ! 5, bs ! 6],
      of_le [bs ! 7, bs ! 8], of_le [bs ! 9, bs ! 10]],
    dl_attrs = bs ! 11, dl_entry_type = bs ! 12, dl_checksum = bs ! 13,
    dl_name_1 = [of_le [bs ! 14, bs ! 15], of_le [bs ! 16, bs ! 17], of_le [bs ! 18, bs ! 19],
      of_le [bs ! 20, bs ! 21], of_le [bs ! 22, bs ! 23], of_le [bs ! 24, bs ! 25]],
    dl_reserved_0 = of_le [bs ! 26, bs ! 27],
    dl_name_2 = [of_le [bs ! 28, bs ! 29], of_le [bs ! 30, bs ! 31]]\<rparr>"
  have "dl_to_bytes ?l = bs"
    by (rule trans [OF _ list_32 [OF assms(1), symmetric]])
      (simp add: dl_to_bytes_def le_bytes_pair del: of_le.simps)
  moreover have "dl_ok ?l" using True assms(2) by (simp add: dl_ok_def)
  ultimately show ?thesis by (intro exI [of _ "Lfn ?l"]) simp
next
  case False
  let ?f = "\<lparr>df_name = take 11 bs, df_attrs = bs ! 11, df_reserved_0 = bs ! 12,
    df_create_time_0 = bs ! 13, df_create_time_1 = of_le [bs ! 14, bs ! 15],
    df_create_date = of_le [bs ! 16, bs ! 17], df_access_date = of_le [bs ! 18, bs ! 19],
    df_first_cluster_hi = of_le [bs ! 20, bs ! 21], df_modify_time = of_le [bs ! 22, bs ! 23],
    df_modify_date = of_le [bs ! 24, bs ! 25], df_first_cluster_lo = of_le [bs ! 26, bs ! 27],
    df_size = of_le [bs ! 28, bs ! 29, bs ! 30, bs ! 31]\<rparr>"
  have "drop 11 bs = [bs ! 11, bs ! 12, bs ! 13, bs ! 14, bs ! 15, bs ! 16, bs ! 17, bs ! 18,
      bs ! 19, bs ! 20, bs ! 21, bs ! 22, bs ! 23, bs ! 24, bs ! 25, bs ! 26, bs ! 27, bs ! 28,
      bs ! 29, bs ! 30, bs ! 31]"
    using arg_cong [OF list_32 [OF assms(1)], of "drop 11"] by simp
  then have "df_to_bytes ?f = take 11 bs @ drop 11 bs"
    by (simp add: df_to_bytes_def le_bytes_pair le_bytes_quad del: of_le.simps append_take_drop_id)
  then have "df_to_bytes ?f = bs" by simp
  moreover have "df_ok ?f" using False assms by (simp add: df_ok_def)
  ultimately show ?thesis by (intro exI [of _ "File ?f"]) simp
qed

context nom_parsers
begin

lemma parse_truncates_attrs:
  "length nm = 11 \<Longrightarrow> de_parse N (nm @ a # rest) = de_parse N (nm @ attrs_truncate a # rest)"
  by (simp add: de_parse_def SFN_SIZE_def take_append u8_ok)

lemma parse_any:
  assumes "length bs = 32"
  shows "\<exists>e. de_parse N (bs @ inp) = Inr (inp, e) \<and> de_ok e \<and>
    de_to_bytes e = bs[11 := attrs_truncate (bs ! 11)]"
proof -
  let ?bs = "bs[11 := attrs_truncate (bs ! 11)]"
  have "length ?bs = 32" "attrs_truncate (?bs ! 11) = ?bs ! 11" using assms by simp_all
  from de_to_bytes_surj [OF this] obtain e where e: "de_ok e" "de_to_bytes e = ?bs" by blast
  have "de_parse N (?bs @ inp) = Inr (inp, e)"
    using e parse_file_ok parse_lfn_ok by (cases e) (auto simp flip: e(2))
  moreover have "bs @ inp = take 11 bs @ bs ! 11 # drop 12 bs @ inp"
    "?bs @ inp = take 11 bs @ attrs_truncate (bs ! 11) # drop 12 bs @ inp"
    using assms id_take_nth_drop [of 11 bs] by (simp_all add: upd_conv_take_nth_drop)
  moreover have "length (take 11 bs) = 11" using assms by simp
  ultimately have "de_parse N (bs @ inp) = Inr (inp, e)"
    using parse_truncates_attrs [of "take 11 bs" "bs ! 11" "drop 12 bs @ inp"] by (simp only:)
  with e show ?thesis by blast
qed

end

section \<open>Short names: correctness\<close>

definition strip_end :: "('a \<Rightarrow> bool) \<Rightarrow> 'a list \<Rightarrow> 'a list" where
  "strip_end P xs = rev (dropWhile (\<lambda>x. \<not> P x) (rev xs))"

lemma strip_end_Nil: "strip_end P xs = [] \<longleftrightarrow> (\<forall>x \<in> set xs. \<not> P x)"
  by (simp add: strip_end_def)

lemma strip_end_Cons:
  "strip_end P (x # xs) = (if strip_end P xs = [] then if P x then [x] else [] else x # strip_end P xs)"
proof (cases "\<forall>y \<in> set xs. \<not> P y")
  case True
  then have "dropWhile (\<lambda>x. \<not> P x) (rev xs @ [x]) = dropWhile (\<lambda>x. \<not> P x) [x]"
    by (intro dropWhile_append2) auto
  with True show ?thesis unfolding strip_end_Nil by (simp add: strip_end_def)
next
  case False
  then obtain y where "y \<in> set (rev xs)" "\<not> \<not> P y" by auto
  then have "dropWhile (\<lambda>x. \<not> P x) (rev xs @ [x]) = dropWhile (\<lambda>x. \<not> P x) (rev xs) @ [x]"
    by (rule dropWhile_append1)
  with False show ?thesis unfolding strip_end_Nil by (simp add: strip_end_def)
qed

lemma rposition_None: "rposition P xs = None \<longleftrightarrow> strip_end P xs = []"
  by (induction xs) (auto simp: strip_end_Nil split: option.splits)

lemma stripped_len_eq: "stripped_len P xs = length (strip_end P xs)"
proof (induction xs)
  case Nil
  show ?case by (simp add: stripped_len_def strip_end_def)
next
  case (Cons x xs)
  then show ?case
    using rposition_None [of P xs]
    by (cases "rposition P xs") (auto simp: stripped_len_def strip_end_Cons)
qed

lemma take_strip_end: "take (length (strip_end P xs)) xs = strip_end P xs"
  by (induction xs) (auto simp: strip_end_Cons strip_end_def [of _ "[]"])

lemma length_strip_end: "length (strip_end P xs) \<le> length xs"
  using take_strip_end [of P xs] by (metis length_take min.cobounded1)

definition short_name_text :: "u8 list \<Rightarrow> u8 list" where
  "short_name_text raw =
    (let base = strip_end (\<lambda>x. x \<noteq> 0x20) (take 8 raw); ext = strip_end (\<lambda>x. x \<noteq> 0x20) (drop 8 raw);
       full = (if ext = [] then base else base @ 0x2E # ext)
     in case full of [] \<Rightarrow> [] | b # bs \<Rightarrow> (if b = 0x05 then 0xE5 else b) # bs)"

lemma short_name_new_eq:
  assumes "length raw = 11"
  shows "sn_as_bytes (short_name_new raw) = short_name_text raw"
proof -
  define base where "base = strip_end (\<lambda>x. x \<noteq> 0x20) (take 8 raw)"
  define ext where "ext = strip_end (\<lambda>x. x \<noteq> 0x20) (drop 8 raw)"
  have b: "length base \<le> 8" "take (length base) (take 8 raw) = base"
    unfolding base_def using length_strip_end [of _ "take 8 raw"] take_strip_end [of _ "take 8 raw"] assms
    by (auto intro: order_trans)
  then have tb: "take (length base) raw = base" by (simp add: min_absorb1)
  have e: "length ext \<le> 3" "take (length ext) (drop 8 raw) = ext"
    unfolding ext_def using length_strip_end [of _ "drop 8 raw"] take_strip_end [of _ "drop 8 raw"] assms
    by (auto intro: order_trans)
  have sl: "slice_at 0 8 raw = take 8 raw" "slice_at 8 3 raw = drop 8 raw"
    using assms by (simp_all add: slice_at_def)
  define full where "full = (if ext = [] then base else base @ 0x2E # ext)"
  have len: "length full \<le> 12" using b(1) e(1) by (simp add: full_def)
  define pad where "pad = full @ replicate (12 - length full) (0x20 :: u8)"
  have n1: "overwrite 0 base (replicate 12 0x20) = base @ replicate (12 - length base) 0x20"
    by (simp add: overwrite_def)
  have n2: "overwrite (length base + 1) ext ((base @ replicate (12 - length base) 0x20)[length base := 0x2E]) = pad"
    if "ext \<noteq> []"
  proof -
    have "12 - length base = Suc (11 - length base)" using b(1) by simp
    then have "(base @ replicate (12 - length base) 0x20)[length base := 0x2E] =
        base @ 0x2E # replicate (11 - length base) (0x20 :: u8)"
      by (simp add: list_update_append)
    then show ?thesis using that b(1) e(1) by (simp add: overwrite_def pad_def full_def)
  qed
  have new: "short_name_new raw =
      \<lparr>sn_name = (if pad ! 0 = 0x05 then pad[0 := 0xE5] else pad), sn_len = of_nat (length full)\<rparr>"
  proof (cases "ext = []")
    case True
    then have "pad = base @ replicate (12 - length base) 0x20" "full = base"
      by (simp_all add: pad_def full_def)
    with True show ?thesis
      by (simp add: short_name_new_def sl stripped_len_eq SFN_PADDING_def tb n1 Let_def
          DIR_ENTRY_REALLY_E5_FLAG_def flip: base_def ext_def)
  next
    case False
    then have "full = base @ 0x2E # ext" by (simp add: full_def)
    moreover have "slice_at 8 (length ext) raw = ext" using e(2) by (simp add: slice_at_def)
    ultimately show ?thesis
      using False n2 [OF False]
      by (simp add: short_name_new_def sl stripped_len_eq SFN_PADDING_def tb n1 Let_def
          DIR_ENTRY_REALLY_E5_FLAG_def flip: base_def ext_def)
  qed
  have l8: "unat (of_nat (length full) :: u8) = length full" using len by (simp add: unat_of_nat)
  show ?thesis
  proof (cases full)
    case Nil
    then show ?thesis
      by (simp add: new sn_as_bytes_def short_name_text_def Let_def flip: base_def ext_def full_def)
  next
    case (Cons x xs)
    then show ?thesis
      using l8 unfolding sn_as_bytes_def new short_name_text_def Let_def base_def [symmetric]
        ext_def [symmetric] full_def [symmetric]
      by (simp add: pad_def)
  qed
qed

section \<open>Comparison of names\<close>

lemma match_upper_eq: "match_upper cs other = Some rest \<longleftrightarrow> other = cs @ rest"
  by (induction cs arbitrary: other) (auto split: list.splits)

lemma eq_lfn_loop_eq:
  "eq_lfn_loop upper decs other \<longleftrightarrow>
    None \<notin> set decs \<and> concat (map (upper \<circ> the) decs) = other"
proof (induction decs arbitrary: other)
  case Nil
  show ?case by auto
next
  case (Cons dec decs)
  show ?case
  proof (cases dec)
    case None
    then show ?thesis by simp
  next
    case (Some c)
    show ?thesis
    proof (cases "match_upper (upper c) other")
      case None
      then have "\<nexists>rest. other = upper c @ rest" by (metis match_upper_eq option.distinct(1))
      with Some None show ?thesis by auto
    next
      case (Some rest)
      then have "other = upper c @ rest" by (simp add: match_upper_eq)
      with Some \<open>dec = Some c\<close> Cons.IH [of rest] show ?thesis by simp
    qed
  qed
qed

section \<open>The entry editor: correctness\<close>

lemma first_cluster_roundtrip:
  "df_first_cluster (df_set_first_cluster c e) = (if c = Some 0 then None else c)"
proof -
  have "push_bit 16 (ucast (ucast (drop_bit 16 n) :: u16)) OR ucast (ucast (n AND 0xFFFF) :: u16) = n"
    (is "?v = n") for n :: u32
  proof (rule bit_word_eqI)
    fix k assume "k < LENGTH(32)"
    have "n AND 0xFFFF = take_bit 16 n" by (simp add: take_bit_eq_mask mask_eq_exp_minus_1)
    with \<open>k < LENGTH(32)\<close> show "bit ?v k = bit n k"
      by (cases "k < 16") (auto simp: bit_simps)
  qed
  then show ?thesis
    by (cases c) (auto simp: df_first_cluster_def df_set_first_cluster_def Let_def)
qed

lemma ee_edit_simps [simp]:
  "ee_data (ee_edit f e) = f (ee_data e)" "ee_dirty (ee_edit f e)" "ee_pos (ee_edit f e) = ee_pos e"
  by (simp_all add: ee_edit_def)

context block_device
begin

lemma flush_dirty:
  assumes "ee_dirty e" and "unat (ee_pos e) + length (df_to_bytes (ee_data e)) \<le> length (contents s)"
  shows "\<exists>s'. ee_flush bio s e = (s', e\<lparr>ee_dirty := False\<rparr>, Inr ()) \<and>
    contents s' = overwrite (unat (ee_pos e)) (df_to_bytes (ee_data e)) (contents s)"
  using bio_write_ok [OF assms(2)] assms(1) by (auto simp: ee_flush_def)

end

section \<open>Properties\<close>

text \<open>
  C23: The 32-byte records decode what they encode: a well-formed short-name or long-name entry is
  read back from its bytes, with the rest of the input left over. Conversely every 32 bytes decode
  to a well-formed entry, whose encoding differs from them at most in the two undefined bits of
  the attribute byte.
\<close>

theorem dirent_codec:
  assumes "nom_parsers N"
  shows "(de_ok e \<longrightarrow> length (de_to_bytes e) = 32 \<and> de_parse N (de_to_bytes e @ inp) = Inr (inp, e)) \<and>
    (length bs = 32 \<longrightarrow>
      (\<exists>e'. de_parse N (bs @ inp) = Inr (inp, e') \<and> de_ok e' \<and>
        de_to_bytes e' = bs[11 := attrs_truncate (bs ! 11)]))"
proof -
  have "de_parse N (de_to_bytes e @ inp) = Inr (inp, e)" if "de_ok e"
    using that nom_parsers.parse_file_ok [OF assms] nom_parsers.parse_lfn_ok [OF assms] by (cases e) auto
  then show ?thesis using nom_parsers.parse_any [OF assms] length_de_to_bytes by blast
qed

definition file_example :: dir_file_entry_data where
  "file_example = (df_set_first_cluster (Some 0x12345) (df_new
    [0x46, 0x4F, 0x4F, 0x20, 0x20, 0x20, 0x20, 0x20, 0x52, 0x53, 0x20] ARCHIVE))"

lemma file_example_ok: "df_ok file_example"
  by (simp add: df_ok_def file_example_def df_set_first_cluster_def df_new_def attrs_truncate_mask
      ARCHIVE_def attrs_contains_def LFN_def READ_ONLY_def HIDDEN_def SYSTEM_def VOLUME_ID_def)

theorem dirent_codec_witness:
  "de_parse plain_nom (de_to_bytes (File file_example) @ [7]) = Inr ([7], File file_example)"
  using dirent_codec [OF plain.nom_parsers_axioms, of "File file_example" "[7]"] file_example_ok by simp

text \<open>
  C24: The decoded short name is the base name and the extension without their trailing padding,
  joined by a dot when there is an extension, with a leading \<open>0x05\<close> read as \<open>0xE5\<close>. An entry matches a
  name exactly when the upper-case forms agree, either with its long name, if that has no unpaired
  surrogate, or with its short name.
\<close>

theorem name_comparison:
  assumes "length raw = 11" and "d_short_name e = short_name_new raw"
  shows "short_file_name_as_bytes e = short_name_text raw \<and>
    (eq_name upper e name \<longleftrightarrow>
      d_lfn_utf16 e \<noteq> [] \<and> None \<notin> set (decode_utf16 (d_lfn_utf16 e)) \<and>
        concat (map (upper \<circ> the) (decode_utf16 (d_lfn_utf16 e))) = concat (map upper name) \<or>
      concat (map upper (map oem_decode (short_name_text raw))) = concat (map upper name))"
  using short_name_new_eq [OF assms(1)] assms(2)
  by (auto simp: short_file_name_as_bytes_def eq_name_def eq_name_lfn_def eq_lfn_loop_eq
      long_file_name_as_ucs2_units_def sn_eq_ignore_case_def)

theorem name_comparison_witness:
  "\<exists>e. short_file_name_as_bytes e = [0x46, 0x4F, 0x4F, 0x2E, 0x52, 0x53] \<and>
    eq_name (\<lambda>c. [c]) e [0x46, 0x4F, 0x4F, 0x2E, 0x52, 0x53]"
proof -
  let ?raw = "[0x46, 0x4F, 0x4F, 0x20, 0x20, 0x20, 0x20, 0x20, 0x52, 0x53, 0x20] :: u8 list"
  let ?e = "\<lparr>d_data = file_example, d_short_name = short_name_new ?raw, d_lfn_utf16 = [],
    d_entry_pos = 0, d_offset_range = (0, 32)\<rparr>"
  have t: "short_name_text ?raw = [0x46, 0x4F, 0x4F, 0x2E, 0x52, 0x53]"
    by (simp add: short_name_text_def strip_end_def)
  have "length ?raw = 11" "d_short_name ?e = short_name_new ?raw" by simp_all
  from name_comparison [OF this, where upper = "\<lambda>c. [c]" and name = "[0x46, 0x4F, 0x4F, 0x2E, 0x52, 0x53]"]
  show ?thesis unfolding t by (intro exI [of _ ?e]) (simp add: oem_decode_def)
qed

text \<open>
  C25: Flushing an edited entry to a device writes its 32 bytes at the position of the entry and
  nothing else, and what is then read there decodes to the edited entry; the editor is clean
  afterwards. Flushing a clean editor does not touch the device. A first cluster that is set is read
  back, where zero stands for none.
\<close>

theorem editor_flush_spec:
  assumes "block_device bio contents" and "nom_parsers N"
    and "df_ok (ee_data e)" and "unat (ee_pos e) + 32 \<le> length (contents s)"
  shows "(if ee_dirty e
     then \<exists>s'. ee_flush bio s e = (s', e\<lparr>ee_dirty := False\<rparr>, Inr ()) \<and>
       contents s' = overwrite (unat (ee_pos e)) (df_to_bytes (ee_data e)) (contents s) \<and>
       de_parse N (slice_at (unat (ee_pos e)) 32 (contents s')) = Inr ([], File (ee_data e))
     else ee_flush bio s e = (s, e, Inr ())) \<and>
    df_first_cluster (ee_data (ee_set_first_cluster c e)) = (if c = Some 0 then None else c)"
proof -
  have len: "length (df_to_bytes (ee_data e)) = 32"
    using length_de_to_bytes [of "File (ee_data e)"] assms(3) by simp
  have set: "df_first_cluster (ee_data (ee_set_first_cluster c e)) = (if c = Some 0 then None else c)"
  proof (cases "c = df_first_cluster (ee_data e)")
    case True
    then have "c \<noteq> Some 0" by (auto simp: df_first_cluster_def Let_def)
    with True show ?thesis by (simp add: ee_set_first_cluster_def)
  next
    case False
    then show ?thesis by (simp add: ee_set_first_cluster_def first_cluster_roundtrip)
  qed
  show ?thesis
  proof (cases "ee_dirty e")
    case False
    with set show ?thesis by (simp add: ee_flush_def)
  next
    case True
    from block_device.flush_dirty [OF assms(1) True, of s] assms(4) len obtain s' where s':
      "ee_flush bio s e = (s', e\<lparr>ee_dirty := False\<rparr>, Inr ())"
      "contents s' = overwrite (unat (ee_pos e)) (df_to_bytes (ee_data e)) (contents s)" by auto
    have "slice_at (unat (ee_pos e)) 32 (contents s') = df_to_bytes (ee_data e)"
      unfolding s'(2) by (rule slice_overwrite_same) (use assms(4) len in auto)
    then show ?thesis
      using s' True set nom_parsers.parse_file_ok [OF assms(2,3), of "[]"] by auto
  qed
qed

theorem editor_flush_spec_witness:
  "\<exists>s'. ee_flush (block_of_io ram_io) (disk_make (replicate 64 0) 2)
      (ee_set_size 9 (editor_new file_example 32)) =
    (s', (ee_set_size 9 (editor_new file_example 32))\<lparr>ee_dirty := False\<rparr>, Inr ())"
proof -
  let ?e = "ee_set_size 9 (editor_new file_example 32)"
  have dirty: "ee_dirty ?e"
    by (simp add: ee_set_size_def editor_new_def df_get_size_def df_is_file_def df_is_dir_def
        attrs_contains_def file_example_def df_set_first_cluster_def df_new_def df_default_def
        ARCHIVE_def DIRECTORY_def)
  have ok: "df_ok (ee_data ?e)"
    using file_example_ok by (auto simp: ee_set_size_def editor_new_def df_set_size_def df_ok_def
        split: option.splits)
  have pos: "ee_pos ?e = 32" by (auto simp: ee_set_size_def editor_new_def split: option.splits)
  have "unat (ee_pos ?e) + 32 \<le> length (disk_bytes (disk_make (replicate 64 0) 2))"
    unfolding pos by simp
  from editor_flush_spec [OF ram.block.block_device_axioms plain.nom_parsers_axioms ok this, of None] dirty
  show ?thesis by auto
qed

end
