(* ===== verification/Fat_Names.thy ===== *)
theory Fat_Names
  imports Fat_Dirent
begin

text \<open>
  File names in a FAT directory (the second half of \<^verbatim>\<open>lib/afat32/src/dir.rs\<close>): validation of
  long names, the checksum that ties long-name entries to their short name, splitting a long name
  into entries and building it again while a directory is read, and the generation of a short name
  that does not collide with those in use.
\<close>

section \<open>Validation and checksum\<close>

definition utf8_len :: "uchar list \<Rightarrow> nat" where
  "utf8_len cs = sum_list (map (\<lambda>c. if c < 0x80 then 1 else if c < 0x800 then 2
    else if c < 0x10000 then 3 else 4) cs)"

definition MAX_LONG_NAME_LEN :: nat where "MAX_LONG_NAME_LEN = 255"

definition MAX_LONG_DIR_ENTRIES :: nat where
  "MAX_LONG_DIR_ENTRIES = (MAX_LONG_NAME_LEN + LFN_PART_LEN - 1) div LFN_PART_LEN"

definition long_name_char :: "uchar \<Rightarrow> bool" where
  "long_name_char c \<longleftrightarrow> 0x61 \<le> c \<and> c \<le> 0x7A \<or> 0x41 \<le> c \<and> c \<le> 0x5A \<or> 0x30 \<le> c \<and> c \<le> 0x39 \<or>
    0x80 \<le> c \<and> c \<le> 0xFFFF \<or>
    c \<in> set (map of_char ''$%'' @ [0x27] @ map of_char ''-_@~`!(){}. +,;=[]^#&'')"

definition validate_long_name :: "uchar list \<Rightarrow> error + unit" where
  "validate_long_name name =
    (if name = [] then Inl EINVAL
     else if utf8_len name > MAX_LONG_NAME_LEN then Inl EINVAL
     else if \<not> list_all long_name_char name then Inl EINVAL
     else Inr ())"

definition lfn_checksum :: "u8 list \<Rightarrow> u8" where
  "lfn_checksum name = foldl (\<lambda>chksum b. push_bit 7 chksum + drop_bit 1 chksum + b) 0 name"

section \<open>Building a long name from its entries\<close>

text \<open>\<open>Vec::resize\<close> with zero.\<close>

definition lfn_set_len :: "nat \<Rightarrow> u16 list \<Rightarrow> u16 list" where
  "lfn_set_len len units = take len units @ replicate (len - length units) 0"

record long_name_builder =
  lb_buf :: "u16 list"
  lb_chksum :: u8
  lb_index :: u8

definition lb_new :: long_name_builder where
  "lb_new = \<lparr>lb_buf = [], lb_chksum = 0, lb_index = 0\<rparr>"

definition lb_clear :: "long_name_builder \<Rightarrow> long_name_builder" where
  "lb_clear b = b\<lparr>lb_buf := [], lb_index := 0\<rparr>"

definition lb_is_empty :: "long_name_builder \<Rightarrow> bool" where
  "lb_is_empty b \<longleftrightarrow> lb_index b = 0"

definition lb_truncate :: "long_name_builder \<Rightarrow> long_name_builder" where
  "lb_truncate b = b\<lparr>lb_buf := lfn_set_len (stripped_len (\<lambda>c. c \<noteq> 0xFFFF \<and> c \<noteq> 0) (lb_buf b)) (lb_buf b)\<rparr>"

definition lb_into_buf :: "long_name_builder \<Rightarrow> u16 list" where
  "lb_into_buf b =
    (if lb_index b = 1 then lb_buf (lb_truncate b)
     else if \<not> lb_is_empty b then lb_buf (lb_clear b)
     else lb_buf b)"

definition lb_process :: "dir_lfn_entry_data \<Rightarrow> long_name_builder \<Rightarrow> long_name_builder outcome" where
  "lb_process data b =
    (let is_last = dl_order data AND LFN_ENTRY_LAST_FLAG \<noteq> 0; index = dl_order data AND 0x1F;
       copy = (\<lambda>b. let pos = LFN_PART_LEN * unat (index - 1) in
         if pos + 13 \<le> length (lb_buf b)
         then Returns (b\<lparr>lb_buf := overwrite pos (copy_name_to_slice data (slice_at pos 13 (lb_buf b))) (lb_buf b)\<rparr>)
         else Panics)
     in if index = 0 \<or> unat index > MAX_LONG_DIR_ENTRIES then Returns (lb_clear b)
        else if is_last then
          copy (b\<lparr>lb_index := index, lb_chksum := dl_checksum data,
            lb_buf := lfn_set_len (unat index * LFN_PART_LEN) (lb_buf b)\<rparr>)
        else if lb_index b = 0 \<or> index \<noteq> lb_index b - 1 \<or> dl_checksum data \<noteq> lb_chksum b
          then Returns (lb_clear b)
        else copy (b\<lparr>lb_index := lb_index b - 1\<rparr>))"

definition lb_validate_chksum :: "u8 list \<Rightarrow> long_name_builder \<Rightarrow> long_name_builder" where
  "lb_validate_chksum name b =
    (if lb_is_empty b then b
     else if lfn_checksum name \<noteq> lb_chksum b then lb_clear b
     else b)"

fun lb_process_all :: "dir_lfn_entry_data list \<Rightarrow> long_name_builder \<Rightarrow> long_name_builder outcome" where
  "lb_process_all [] b = Returns b"
| "lb_process_all (e # es) b = bind_out (lb_process e b) (lb_process_all es)"

section \<open>Splitting a long name into entries\<close>

text \<open>\<open>slice::chunks\<close>.\<close>

function chunks :: "nat \<Rightarrow> 'a list \<Rightarrow> 'a list list" where
  "chunks n xs = (if xs = [] \<or> n = 0 then [] else take n xs # chunks n (drop n xs))"
  by auto
termination by (relation "measure (\<lambda>(n, xs). length xs)") auto

declare chunks.simps [simp del]

record lfn_generator =
  lg_parts :: "u16 list list"
  lg_checksum :: u8
  lg_index :: nat
  lg_num :: nat
  lg_ended :: bool

definition lg_new :: "u16 list \<Rightarrow> u8 \<Rightarrow> lfn_generator" where
  "lg_new name_utf16 checksum =
    \<lparr>lg_parts = rev (chunks LFN_PART_LEN name_utf16), lg_checksum = checksum, lg_index = 0,
     lg_num = (length name_utf16 + LFN_PART_LEN - 1) div LFN_PART_LEN, lg_ended = False\<rparr>"

definition LFN_PADDING :: u16 where "LFN_PADDING = 0xFFFF"

definition lg_next :: "lfn_generator \<Rightarrow> dir_lfn_entry_data option \<times> lfn_generator" where
  "lg_next g =
    (if lg_ended g then (None, g)
     else case lg_parts g of
         name_part # parts \<Rightarrow>
          (let lfn_index = lg_num g - lg_index g;
             order = of_nat lfn_index;
             order = (if lg_index g = 0 then order OR LFN_ENTRY_LAST_FLAG else order);
             lfn_part = overwrite 0 name_part (replicate LFN_PART_LEN LFN_PADDING);
             lfn_part = (if length name_part < LFN_PART_LEN
               then lfn_part[length name_part := 0] else lfn_part);
             lfn_entry = copy_name_from_slice lfn_part (dl_new order (lg_checksum g))
           in (Some lfn_entry, g\<lparr>lg_parts := parts, lg_index := lg_index g + 1\<rparr>))
       | [] \<Rightarrow> (None, g\<lparr>lg_ended := True\<rparr>))"

text \<open>The entries the iterator yields.\<close>

function lg_collect :: "lfn_generator \<Rightarrow> dir_lfn_entry_data list" where
  "lg_collect g = (case lg_next g of (None, _) \<Rightarrow> [] | (Some e, g') \<Rightarrow> e # lg_collect g')"
  by auto
termination
  by (relation "measure (\<lambda>g. length (lg_parts g))")
    (auto simp: lg_next_def Let_def split: if_splits list.splits)

declare lg_collect.simps [simp del]

section \<open>Generating a short name\<close>

record short_name_generator =
  sg_chksum :: u16
  sg_long_prefix_bitmap :: u16
  sg_prefix_chksum_bitmap :: u16
  sg_name_fits :: bool
  sg_lossy_conv :: bool
  sg_exact_match :: bool
  sg_basename_len :: nat
  sg_short_name :: "u8 list"

definition short_name_char :: "uchar \<Rightarrow> bool" where
  "short_name_char c \<longleftrightarrow> 0x41 \<le> c \<and> c \<le> 0x5A \<or> 0x61 \<le> c \<and> c \<le> 0x7A \<or> 0x30 \<le> c \<and> c \<le> 0x39 \<or>
    c \<in> set (map of_char ''!#$%&'' @ [0x27] @ map of_char ''()-@^_`{}~'')"

definition to_ascii_uppercase :: "uchar \<Rightarrow> uchar" where
  "to_ascii_uppercase c = (if 0x61 \<le> c \<and> c \<le> 0x7A then c - 0x20 else c)"

fun copy_short_name_loop ::
  "uchar list \<Rightarrow> u8 list \<Rightarrow> nat \<Rightarrow> bool \<Rightarrow> u8 list \<times> nat \<times> bool \<times> bool" where
  "copy_short_name_loop [] dst dst_pos lossy_conv = (dst, dst_pos, True, lossy_conv)"
| "copy_short_name_loop (c # cs) dst dst_pos lossy_conv =
    (if dst_pos = length dst then (dst, dst_pos, False, lossy_conv)
     else if c = 0x20 \<or> c = 0x2E then copy_short_name_loop cs dst dst_pos True
     else let fixed_c = (if short_name_char c then c else 0x5F);
         lossy_conv = (lossy_conv \<or> fixed_c \<noteq> c);
         upper = to_ascii_uppercase fixed_c
       in copy_short_name_loop cs (dst[dst_pos := of_nat upper]) (dst_pos + 1) lossy_conv)"

definition copy_short_name_part :: "u8 list \<Rightarrow> uchar list \<Rightarrow> u8 list \<times> nat \<times> bool \<times> bool" where
  "copy_short_name_part dst src = copy_short_name_loop src dst 0 False"

definition sg_checksum :: "uchar list \<Rightarrow> u16" where
  "sg_checksum name = foldl (\<lambda>chksum c. drop_bit 1 chksum + push_bit 15 chksum + of_nat c) 0 name"

text \<open>
  \<open>ShortNameGenerator::new\<close>. The slice \<open>name[1..]\<close> panics when the first byte is not a whole
  character; the other slices are taken at a dot, which is one byte.
\<close>

definition sg_split :: "uchar list \<Rightarrow> nat option \<Rightarrow> short_name_generator" where
  "sg_split name dot_index_opt =
    (let short_name = replicate SFN_SIZE SFN_PADDING;
       basename_src = (case dot_index_opt of None \<Rightarrow> name | Some dot_index \<Rightarrow> take dot_index name);
       (base, basename_len, basename_fits, basename_lossy) =
         copy_short_name_part (slice_at 0 8 short_name) basename_src;
       short_name = overwrite 0 base short_name;
       (short_name, name_fits, lossy_conv) =
         (case dot_index_opt of
            None \<Rightarrow> (short_name, basename_fits, basename_lossy)
          | Some dot_index \<Rightarrow>
             (let (ext, _, ext_fits, ext_lossy) =
                copy_short_name_part (slice_at 8 3 short_name) (drop (dot_index + 1) name)
              in (overwrite 8 ext short_name, basename_fits \<and> ext_fits, basename_lossy \<or> ext_lossy)))
     in \<lparr>sg_chksum = sg_checksum name, sg_long_prefix_bitmap = 0,
       sg_prefix_chksum_bitmap = 0, sg_name_fits = name_fits, sg_lossy_conv = lossy_conv,
       sg_exact_match = False, sg_basename_len = basename_len, sg_short_name = short_name\<rparr>)"

definition sg_new :: "uchar list \<Rightarrow> short_name_generator outcome" where
  "sg_new name =
    (if name = [] \<or> hd name \<ge> 0x80 then Panics
     else Returns (sg_split name
       (map_option (\<lambda>i. i + 1) (rposition (\<lambda>c. c = 0x2E) (tl name)))))"

definition generate_dot :: "u8 list" where
  "generate_dot = (replicate SFN_SIZE SFN_PADDING)[0 := 0x2E]"

definition generate_dotdot :: "u8 list" where
  "generate_dotdot = (replicate SFN_SIZE SFN_PADDING)[0 := 0x2E, 1 := 0x2E]"

text \<open>\<open>char::to_digit\<close> and \<open>char::from_digit\<close> on bytes.\<close>

definition to_digit :: "nat \<Rightarrow> u8 \<Rightarrow> nat option" where
  "to_digit radix b =
    (let d = (if 0x30 \<le> b \<and> b \<le> 0x39 then Some (unat b - 0x30)
       else if 0x61 \<le> b \<and> b \<le> 0x7A then Some (unat b - 0x61 + 10)
       else if 0x41 \<le> b \<and> b \<le> 0x5A then Some (unat b - 0x41 + 10) else None)
     in case d of Some n \<Rightarrow> if n < radix then Some n else None | None \<Rightarrow> None)"

definition from_digit :: "nat \<Rightarrow> u8" where
  "from_digit n = (if n < 10 then of_nat (0x30 + n) else of_nat (0x61 + (n - 10)))"

definition byte_uppercase :: "u8 \<Rightarrow> u8" where
  "byte_uppercase b = (if 0x61 \<le> b \<and> b \<le> 0x7A then b - 0x20 else b)"

definition u16_to_hex :: "u16 \<Rightarrow> u8 list" where
  "u16_to_hex x =
    map (\<lambda>n. byte_uppercase (from_digit (unat (drop_bit n x AND 0xF)))) [12, 8, 4, 0]"

text \<open>\<open>u16::from_str_radix\<close> with radix 16, which accepts a leading plus sign.\<close>

fun hex_digits :: "u8 list \<Rightarrow> nat \<Rightarrow> nat option" where
  "hex_digits [] acc = (if acc < 2 ^ 16 then Some acc else None)"
| "hex_digits (b # bs) acc =
    (case to_digit 16 b of None \<Rightarrow> None | Some n \<Rightarrow> hex_digits bs (acc * 16 + n))"

definition from_hex :: "u8 list \<Rightarrow> u16 option" where
  "from_hex bs =
    (let bs = (case bs of b # c # rest \<Rightarrow> if b = 0x2B then c # rest else bs | _ \<Rightarrow> bs) in
     if bs = [] then None else map_option of_nat (hex_digits bs 0))"

definition check_for_long_prefix_collision ::
  "u8 list \<Rightarrow> short_name_generator \<Rightarrow> short_name_generator" where
  "check_for_long_prefix_collision name g =
    (let long_prefix_len = min (sg_basename_len g) 6 in
     if name ! long_prefix_len \<noteq> 0x7E then g
     else case to_digit 10 (name ! (long_prefix_len + 1)) of
         None \<Rightarrow> g
       | Some num_suffix \<Rightarrow>
          if take long_prefix_len name = take long_prefix_len (sg_short_name g) \<and>
            drop 8 name = drop 8 (sg_short_name g)
          then g\<lparr>sg_long_prefix_bitmap := sg_long_prefix_bitmap g OR push_bit num_suffix 1\<rparr>
          else g)"

definition check_for_short_prefix_collision ::
  "u8 list \<Rightarrow> short_name_generator \<Rightarrow> short_name_generator" where
  "check_for_short_prefix_collision name g =
    (let short_prefix_len = min (sg_basename_len g) 2 in
     if name ! (short_prefix_len + 4) \<noteq> 0x7E then g
     else case to_digit 10 (name ! (short_prefix_len + 4 + 1)) of
         None \<Rightarrow> g
       | Some num_suffix \<Rightarrow>
          if take short_prefix_len name = take short_prefix_len (sg_short_name g) \<and>
            drop 8 name = drop 8 (sg_short_name g) \<and>
            from_hex (slice_at short_prefix_len 4 name) = Some (sg_chksum g)
          then g\<lparr>sg_prefix_chksum_bitmap := sg_prefix_chksum_bitmap g OR push_bit num_suffix 1\<rparr>
          else g)"

definition add_existing :: "u8 list \<Rightarrow> short_name_generator \<Rightarrow> short_name_generator" where
  "add_existing name g =
    check_for_short_prefix_collision name
      (check_for_long_prefix_collision name
        (if name = sg_short_name g then g\<lparr>sg_exact_match := True\<rparr> else g))"

definition build_prefixed_name :: "short_name_generator \<Rightarrow> nat \<Rightarrow> bool \<Rightarrow> u8 list" where
  "build_prefixed_name g num with_chksum =
    (let buf = replicate SFN_SIZE SFN_PADDING;
       (buf, prefix_len) =
         (if with_chksum then
            (let prefix_len = min (sg_basename_len g) 2;
               buf = overwrite 0 (take prefix_len (sg_short_name g)) buf;
               buf = overwrite prefix_len (u16_to_hex (sg_chksum g)) buf
             in (buf, prefix_len + 4))
          else
            (let prefix_len = min (sg_basename_len g) 6
             in (overwrite 0 (take prefix_len (sg_short_name g)) buf, prefix_len)));
       buf = buf[prefix_len := 0x7E];
       buf = buf[prefix_len + 1 := from_digit num]
     in overwrite 8 (drop 8 (sg_short_name g)) buf)"

definition sg_generate :: "short_name_generator \<Rightarrow> error + u8 list" where
  "sg_generate g =
    (if \<not> sg_lossy_conv g \<and> sg_name_fits g \<and> \<not> sg_exact_match g then Inr (sg_short_name g)
     else case find (\<lambda>i. sg_long_prefix_bitmap g AND push_bit i 1 = 0) [1..<5] of
         Some i \<Rightarrow> Inr (build_prefixed_name g i False)
       | None \<Rightarrow>
        (case find (\<lambda>i. sg_prefix_chksum_bitmap g AND push_bit i 1 = 0) [1..<10] of
           Some i \<Rightarrow> Inr (build_prefixed_name g i True)
         | None \<Rightarrow> Inl EEXIST))"

definition sg_next_iteration :: "short_name_generator \<Rightarrow> short_name_generator" where
  "sg_next_iteration g =
    g\<lparr>sg_chksum := sg_chksum g + 1, sg_long_prefix_bitmap := 0, sg_prefix_chksum_bitmap := 0\<rparr>"

section \<open>Splitting and building: correctness\<close>

definition padded :: "u16 list \<Rightarrow> u16 list" where
  "padded part = (if length part < 13 then part @ 0 # replicate (12 - length part) 0xFFFF else part)"

definition lfn_entry_of :: "u8 \<Rightarrow> u8 \<Rightarrow> u16 list \<Rightarrow> dir_lfn_entry_data" where
  "lfn_entry_of order chk part = copy_name_from_slice (padded part) (dl_new order chk)"

lemma length_padded [simp]: "length part \<le> 13 \<Longrightarrow> length (padded part) = 13"
  by (simp add: padded_def)

lemma lfn_part_eq_padded:
  assumes "length part \<le> 13"
  shows "(if length part < 13 then (overwrite 0 part (replicate 13 0xFFFF))[length part := 0]
    else overwrite 0 part (replicate 13 0xFFFF)) = padded part"
proof -
  have "overwrite 0 part (replicate 13 0xFFFF) = part @ replicate (13 - length part) (0xFFFF :: u16)"
    by (simp add: overwrite_def)
  moreover have "13 - length part = Suc (12 - length part)" if "length part < 13" using that by simp
  ultimately show ?thesis by (auto simp: padded_def list_update_append)
qed

lemma copy_name_roundtrip:
  assumes "length part = 13" and "length old = 13"
  shows "copy_name_to_slice (copy_name_from_slice part e) old = part"
proof -
  have "slice_at 0 5 part @ slice_at 5 6 part @ slice_at 11 2 part = part"
    using slice_append [of 0 5 part 6] assms(1)
    by (simp add: slice_at_def flip: append_assoc)
  then show ?thesis
    using assms overwrite_append [of 0 "slice_at 0 5 part" "slice_at 5 6 part" old]
      overwrite_append [of 0 "slice_at 0 5 part @ slice_at 5 6 part" "slice_at 11 2 part" old]
    by (simp add: copy_name_to_slice_def copy_name_from_slice_def) (simp add: overwrite_def)
qed

lemma lg_collect_eq:
  assumes "lg_parts g = parts" and "\<forall>p \<in> set parts. length p \<le> 13" and "\<not> lg_ended g"
  shows "lg_collect g = map (\<lambda>k. lfn_entry_of
      (if lg_index g + k = 0 then of_nat (lg_num g) OR 0x40 else of_nat (lg_num g - (lg_index g + k)))
      (lg_checksum g) (parts ! k)) [0..<length parts]"
  using assms
proof (induction parts arbitrary: g)
  case Nil
  then show ?case by (subst lg_collect.simps) (simp add: lg_next_def)
next
  case (Cons p parts)
  define g' where "g' = g\<lparr>lg_parts := parts, lg_index := lg_index g + 1\<rparr>"
  have n: "lg_next g = (Some (lfn_entry_of
      (if lg_index g = 0 then of_nat (lg_num g) OR 0x40 else of_nat (lg_num g - lg_index g))
      (lg_checksum g) p), g')"
    using Cons.prems lfn_part_eq_padded [of p]
    by (simp add: lg_next_def Let_def LFN_PART_LEN_def LFN_PADDING_def LFN_ENTRY_LAST_FLAG_def
        lfn_entry_of_def g'_def)
  have "lg_collect g' = map (\<lambda>k. lfn_entry_of
      (of_nat (lg_num g - (lg_index g + Suc k))) (lg_checksum g) (parts ! k)) [0..<length parts]"
    using Cons.IH [of g'] Cons.prems by (simp add: g'_def)
  moreover have "[0..<length (p # parts)] = 0 # map Suc [0..<length parts]"
    by (simp add: map_Suc_upt upt_conv_Cons del: upt_Suc)
  ultimately show ?case
    by (subst lg_collect.simps) (simp add: n comp_def del: upt_Suc)
qed

lemma chunks_Nil [simp]: "chunks n [] = []"
  by (simp add: chunks.simps)

lemma chunks_spec:
  "concat (chunks 13 xs) = xs" "\<forall>c \<in> set (chunks 13 xs). length c \<le> 13"
  "length (chunks 13 xs) = (length xs + 12) div 13"
  "\<exists>pad. concat (map padded (chunks 13 xs)) = xs @ pad \<and> set pad \<subseteq> {0, 0xFFFF}"
proof (induction xs rule: length_induct)
  case (1 xs)
  have ih: "concat (chunks 13 (drop 13 xs)) = drop 13 xs"
    "\<forall>c \<in> set (chunks 13 (drop 13 xs)). length c \<le> 13"
    "length (chunks 13 (drop 13 xs)) = (length (drop 13 xs) + 12) div 13"
    "\<exists>pad. concat (map padded (chunks 13 (drop 13 xs))) = drop 13 xs @ pad \<and> set pad \<subseteq> {0, 0xFFFF}"
    if "xs \<noteq> []"
  proof -
    have "length (drop 13 xs) < length xs" using that by (cases xs) auto
    from mp [OF spec [OF "1.IH", of "drop 13 xs"] this]
    show "concat (chunks 13 (drop 13 xs)) = drop 13 xs"
      "\<forall>c \<in> set (chunks 13 (drop 13 xs)). length c \<le> 13"
      "length (chunks 13 (drop 13 xs)) = (length (drop 13 xs) + 12) div 13"
      "\<exists>pad. concat (map padded (chunks 13 (drop 13 xs))) = drop 13 xs @ pad \<and> set pad \<subseteq> {0, 0xFFFF}"
      by blast+
  qed
  note step = chunks.simps [of 13 xs]
  {
    case 1
    show ?case using ih(1) step by (cases "xs = []") simp_all
  next
    case 2
    show ?case using ih(2) step by (cases "xs = []") simp_all
  next
    case 3
    show ?case
    proof (cases "length xs \<le> 13")
      case True
      then show ?thesis using step by (cases xs) (simp_all add: div_add_self2)
    next
      case False
      then have "xs \<noteq> []" by auto
      with False show ?thesis using ih(3) step by (simp add: le_div_geq)
    qed
  next
    case 4
    show ?case
    proof (cases "xs = [] \<or> length xs < 13")
      case True
      then show ?thesis using step by (cases "xs = []") (auto simp: padded_def)
    next
      case False
      then obtain pad where "concat (map padded (chunks 13 (drop 13 xs))) = drop 13 xs @ pad"
        "set pad \<subseteq> {0, 0xFFFF}" using ih(4) by blast
      moreover have "padded (take 13 xs) = take 13 xs" using False by (simp add: padded_def)
      ultimately show ?thesis using step False by (intro exI [of _ pad]) simp
    qed
  }
qed

lemma order_bits:
  assumes "j < 32"
  shows "(of_nat j :: u8) AND 0x1F = of_nat j" "(of_nat j :: u8) AND 0x40 = 0"
    "((of_nat j :: u8) OR 0x40) AND 0x1F = of_nat j" "((of_nat j :: u8) OR 0x40) AND 0x40 = 0x40"
proof -
  have u: "unat (of_nat j :: u8) < 2 ^ 5" using assms by (simp add: unat_of_nat)
  have m: "w AND 0x1F = take_bit 5 w" for w :: u8 by (simp add: take_bit_eq_mask mask_eq_exp_minus_1)
  show a: "(of_nat j :: u8) AND 0x1F = of_nat j"
    unfolding m using take_bit_small [OF u] .
  have "\<not> bit (of_nat j :: u8) 6" by (rule small_word_no_bit [OF u]) simp
  then show b: "(of_nat j :: u8) AND 0x40 = 0"
    using and_exp_eq_0_iff_not_bit [of "of_nat j :: u8" 6] by simp
  show "((of_nat j :: u8) OR 0x40) AND 0x1F = of_nat j"
    using a by (simp add: bit.conj_disj_distrib2)
  show "((of_nat j :: u8) OR 0x40) AND 0x40 = 0x40"
    using b by (simp add: bit.conj_disj_distrib2)
qed

lemma lfn_entry_simps [simp]:
  "dl_order (lfn_entry_of ord chk p) = ord" "dl_checksum (lfn_entry_of ord chk p) = chk"
  by (simp_all add: lfn_entry_of_def copy_name_from_slice_def dl_new_def)

lemma max_entries [simp]: "MAX_LONG_DIR_ENTRIES = 20"
  by (simp add: MAX_LONG_DIR_ENTRIES_def MAX_LONG_NAME_LEN_def LFN_PART_LEN_def)

lemma unat_index:
  assumes "0 < j" and "j \<le> 20"
  shows "unat (of_nat j :: u8) = j" "unat (of_nat j - 1 :: u8) = j - 1" "(of_nat j :: u8) \<noteq> 0"
proof -
  show *: "unat (of_nat j :: u8) = j" using assms by (simp add: unat_of_nat)
  then show "(of_nat j :: u8) \<noteq> 0" using assms(1) by (metis unat_0 less_irrefl)
  have "(of_nat j - 1 :: u8) = of_nat (j - 1)" using assms(1) by simp
  moreover have "unat (of_nat (j - 1) :: u8) = j - 1" using assms(2) by (simp add: unat_of_nat)
  ultimately show "unat (of_nat j - 1 :: u8) = j - 1" by (simp only:)
qed

lemma lb_process_next:
  assumes "0 < j" and "j \<le> 19" and "lb_index b = of_nat (Suc j)" and "lb_chksum b = chk"
    and "13 * j \<le> length (lb_buf b)" and "length p \<le> 13"
  shows "lb_process (lfn_entry_of (of_nat j) chk p) b =
    Returns (b\<lparr>lb_index := of_nat j, lb_buf := overwrite (13 * (j - 1)) (padded p) (lb_buf b)\<rparr>)"
proof -
  have j: "j < 32" "0 < j" "j \<le> 20" using assms by simp_all
  have sub: "(of_nat (Suc j) :: u8) - 1 = of_nat j" by simp
  have nz: "(of_nat (Suc j) :: u8) \<noteq> 0" by (rule unat_index) (use assms in simp_all)
  have fits: "13 * (j - 1) + 13 \<le> length (lb_buf b)" using assms(1,5) by (cases j) auto
  have copy: "copy_name_to_slice (lfn_entry_of (of_nat j) chk p) (slice_at (13 * (j - 1)) 13 (lb_buf b)) =
      padded p"
    unfolding lfn_entry_of_def by (rule copy_name_roundtrip) (use assms fits in auto)
  show ?thesis
    using fits copy unat_index [OF j(2,3)] nz j
    by (simp add: lb_process_def order_bits [OF j(1)] LFN_ENTRY_LAST_FLAG_def assms(3,4) sub Let_def
        LFN_PART_LEN_def del: of_nat_Suc)
qed

lemma lb_process_first:
  assumes "0 < n" and "n \<le> 20" and "lb_buf b = []" and "length p \<le> 13"
  shows "lb_process (lfn_entry_of (of_nat n OR 0x40) chk p) b =
    Returns \<lparr>lb_buf = replicate (13 * (n - 1)) 0 @ padded p, lb_chksum = chk, lb_index = of_nat n\<rparr>"
proof -
  have n: "n < 32" using assms by simp
  have len: "lfn_set_len (n * 13) (lb_buf b) = replicate (13 * n) 0"
    using assms(3) by (simp add: lfn_set_len_def mult.commute)
  have fits: "13 * (n - 1) + 13 = 13 * n" using assms(1) by (cases n) auto
  have copy: "copy_name_to_slice (lfn_entry_of (of_nat n OR 0x40) chk p)
      (slice_at (13 * (n - 1)) 13 (replicate (13 * n) 0)) = padded p"
    unfolding lfn_entry_of_def by (rule copy_name_roundtrip) (use assms fits in auto)
  have ov: "overwrite (13 * (n - 1)) (padded p) (replicate (13 * n) 0) =
      replicate (13 * (n - 1)) 0 @ padded p"
    using fits assms(4) by (simp add: overwrite_def)
  show ?thesis
    using unat_index [OF assms(1,2)] assms(2) copy ov len fits
    by (cases b) (simp add: lb_process_def order_bits [OF n] LFN_ENTRY_LAST_FLAG_def Let_def LFN_PART_LEN_def
        mult.commute)
qed

lemma lb_process_rest:
  assumes "length ps \<le> 19" and "\<forall>p \<in> set ps. length p \<le> 13"
    and "lb_index b = of_nat (Suc (length ps))" and "lb_chksum b = chk"
    and "lb_buf b = pre @ rest" and "length pre = 13 * length ps"
  shows "lb_process_all
      (map (\<lambda>k. lfn_entry_of (of_nat (length ps - k)) chk (rev ps ! k)) [0..<length ps]) b =
    Returns (b\<lparr>lb_index := 1, lb_buf := concat (map padded ps) @ rest\<rparr>)"
  using assms
proof (induction ps arbitrary: b pre rest rule: rev_induct)
  case Nil
  then show ?case by (cases b) simp
next
  case (snoc p ps)
  let ?n = "length ps"
  have up: "[0..<length (ps @ [p])] = 0 # map Suc [0..<?n]"
    by (simp add: map_Suc_upt upt_conv_Cons del: upt_Suc)
  obtain pre' q where pre: "pre = pre' @ q" "length pre' = 13 * ?n" "length q = 13"
  proof
    show "pre = take (13 * ?n) pre @ drop (13 * ?n) pre" by simp
  qed (use snoc.prems(6) in simp_all)
  have p: "length p \<le> 13" using snoc.prems(2) by simp
  define b' where "b' = b\<lparr>lb_index := of_nat (Suc ?n), lb_buf := pre' @ padded p @ rest\<rparr>"
  have "overwrite (13 * (Suc ?n - 1)) (padded p) (lb_buf b) = pre' @ padded p @ rest"
    using pre p snoc.prems(5) by (simp add: overwrite_def)
  then have first: "lb_process (lfn_entry_of (of_nat (Suc ?n)) chk p) b = Returns b'"
    using lb_process_next [of "Suc ?n" b chk p] snoc.prems p unfolding b'_def by simp
  have "lb_process_all
      (map (\<lambda>k. lfn_entry_of (of_nat (?n - k)) chk (rev ps ! k)) [0..<?n]) b' =
    Returns (b'\<lparr>lb_index := 1, lb_buf := concat (map padded ps) @ padded p @ rest\<rparr>)"
    by (rule snoc.IH [where pre = pre']) (use snoc.prems pre in \<open>auto simp: b'_def\<close>)
  then show ?case
    unfolding up using first by (simp add: comp_def b'_def del: upt_Suc of_nat_Suc)
qed

text \<open>Strip the terminator and the padding again.\<close>

lemma strip_end_append:
  assumes "\<forall>x \<in> set ys. \<not> P x" and "xs = [] \<or> P (last xs)"
  shows "strip_end P (xs @ ys) = xs"
proof -
  have "dropWhile (\<lambda>x. \<not> P x) (rev ys @ rev xs) = dropWhile (\<lambda>x. \<not> P x) (rev xs)"
    using assms(1) by (intro dropWhile_append2) auto
  moreover have "dropWhile (\<lambda>x. \<not> P x) (rev xs) = rev xs"
    using assms(2) by (cases xs rule: rev_cases) auto
  ultimately show ?thesis by (simp add: strip_end_def)
qed

lemma lfn_roundtrip:
  assumes "units \<noteq> []" and "length units \<le> 255" and "last units \<notin> {0, 0xFFFF}" and "lb_buf b = []"
  shows "\<exists>b'. lb_process_all (lg_collect (lg_new units (lfn_checksum name))) b = Returns b' \<and>
    lb_into_buf (lb_validate_chksum name b') = units"
proof -
  define chk where "chk = lfn_checksum name"
  define cs where "cs = chunks 13 units"
  define n where "n = length cs"
  have cs: "\<forall>c \<in> set cs. length c \<le> 13" "n = (length units + 12) div 13"
    using chunks_spec [of units] by (simp_all add: cs_def n_def)
  obtain pad where pad: "concat (map padded cs) = units @ pad" "set pad \<subseteq> {0, 0xFFFF}"
    using chunks_spec(4) [of units] unfolding cs_def by blast
  have "0 < length units" using assms(1) by simp
  then have n: "0 < n" "n \<le> 20" using assms(2) unfolding cs(2) by (simp_all add: div_greater_zero_iff Suc_le_eq)
  then obtain init p where ip: "cs = init @ [p]" by (cases cs rule: rev_cases) (auto simp: n_def)
  then have ni: "n = Suc (length init)" by (simp add: n_def)
  define g where "g = lg_new units chk"
  have g: "lg_parts g = rev cs" "\<not> lg_ended g" "lg_index g = 0" "lg_num g = n" "lg_checksum g = chk"
    by (simp_all add: g_def lg_new_def LFN_PART_LEN_def cs_def cs(2))
  have up: "[0..<length (rev cs)] = 0 # map Suc [0..<length init]"
    using ni by (simp add: n_def map_Suc_upt upt_conv_Cons del: upt_Suc)
  have "lg_collect g = map (\<lambda>k. lfn_entry_of
      (if lg_index g + k = 0 then of_nat (lg_num g) OR 0x40 else of_nat (lg_num g - (lg_index g + k)))
      (lg_checksum g) (rev cs ! k)) [0..<length (rev cs)]"
    by (rule lg_collect_eq) (use g cs in auto)
  then have coll: "lg_collect g = lfn_entry_of (of_nat n OR 0x40) chk p #
      map (\<lambda>k. lfn_entry_of (of_nat (length init - k)) chk (rev init ! k)) [0..<length init]"
    unfolding up using g ni ip by (simp add: comp_def)
  define b1 where "b1 = \<lparr>lb_buf = replicate (13 * (n - 1)) 0 @ padded p, lb_chksum = chk, lb_index = of_nat n\<rparr>"
  have first: "lb_process (lfn_entry_of (of_nat n OR 0x40) chk p) b = Returns b1"
    unfolding b1_def by (rule lb_process_first) (use n assms(4) cs(1) ip in auto)
  have rest: "lb_process_all
      (map (\<lambda>k. lfn_entry_of (of_nat (length init - k)) chk (rev init ! k)) [0..<length init]) b1 =
    Returns (b1\<lparr>lb_index := 1, lb_buf := concat (map padded init) @ padded p\<rparr>)"
    by (rule lb_process_rest [where pre = "replicate (13 * (n - 1)) 0"])
      (use n ni cs(1) ip in \<open>auto simp: b1_def\<close>)
  define b' where "b' = b1\<lparr>lb_index := 1, lb_buf := units @ pad\<rparr>"
  have all: "lb_process_all (lg_collect g) b = Returns b'"
    using first rest pad ip unfolding coll b'_def by simp
  have "strip_end (\<lambda>c. c \<noteq> 0xFFFF \<and> c \<noteq> 0) (units @ pad) = units"
    by (rule strip_end_append) (use pad(2) assms(3) in auto)
  then have len: "stripped_len (\<lambda>c. c \<noteq> 0xFFFF \<and> c \<noteq> 0) (units @ pad) = length units"
    by (simp add: stripped_len_eq)
  have "lb_into_buf (lb_validate_chksum name b') = units"
    by (simp add: lb_validate_chksum_def lb_is_empty_def b'_def b1_def chk_def lb_into_buf_def
        lb_truncate_def len lfn_set_len_def)
  with all show ?thesis unfolding g_def chk_def by blast
qed

text \<open>On arbitrary entries the builder never indexes outside its buffer.\<close>

definition lb_wf :: "long_name_builder \<Rightarrow> bool" where
  "lb_wf b \<longleftrightarrow> 13 * unat (lb_index b) \<le> length (lb_buf b)"

lemma lb_wf_simps [simp]: "lb_wf lb_new" "lb_wf (lb_clear b)"
  by (simp_all add: lb_wf_def lb_new_def lb_clear_def)

lemma length_copy_name:
  assumes "dl_ok e" and "length old = 13"
  shows "length (copy_name_to_slice e old) = 13"
  using assms by (simp add: copy_name_to_slice_def dl_ok_def)

lemma lb_process_total:
  assumes "dl_ok e" and "lb_wf b"
  shows "\<exists>b'. lb_process e b = Returns b' \<and> lb_wf b'"
proof -
  define i where "i = dl_order e AND 0x1F"
  have copy: "\<exists>b''. (let pos = LFN_PART_LEN * unat (i - 1) in
      if pos + 13 \<le> length (lb_buf b')
      then Returns (b'\<lparr>lb_buf := overwrite pos (copy_name_to_slice e (slice_at pos 13 (lb_buf b'))) (lb_buf b')\<rparr>)
      else Panics) = Returns b'' \<and> lb_wf b''"
    if "i \<noteq> 0" "lb_index b' = i" "lb_wf b'" for b'
  proof -
    have "0 < unat i" using that(1) by (simp add: unat_gt_0)
    then have pos: "LFN_PART_LEN * unat (i - 1) + 13 = 13 * unat i"
      by (simp add: unat_minus_one [OF that(1)] LFN_PART_LEN_def)
    then have fits: "LFN_PART_LEN * unat (i - 1) + 13 \<le> length (lb_buf b')"
      using that(2,3) by (simp add: lb_wf_def)
    then have "length (copy_name_to_slice e (slice_at (LFN_PART_LEN * unat (i - 1)) 13 (lb_buf b'))) = 13"
      by (intro length_copy_name [OF assms(1)]) simp
    with fits that(3) show ?thesis by (simp add: lb_wf_def Let_def)
  qed
  show ?thesis
  proof (cases "i = 0 \<or> unat i > 20")
    case True
    then show ?thesis by (simp add: lb_process_def flip: i_def)
  next
    case False
    then have i: "i \<noteq> 0" by simp
    let ?b1 = "b\<lparr>lb_index := i, lb_chksum := dl_checksum e, lb_buf := lfn_set_len (unat i * LFN_PART_LEN) (lb_buf b)\<rparr>"
    let ?b2 = "b\<lparr>lb_index := lb_index b - 1\<rparr>"
    have "lb_wf ?b1" by (simp add: lb_wf_def lfn_set_len_def LFN_PART_LEN_def)
    moreover have "lb_wf ?b2" if "lb_index b \<noteq> 0"
      using assms(2) that by (simp add: lb_wf_def unat_minus_one)
    ultimately show ?thesis
      using False copy [OF i, of ?b1] copy [OF i, of ?b2]
      by (auto simp: lb_process_def Let_def simp flip: i_def)
  qed
qed

lemma lb_process_all_total:
  assumes "\<forall>e \<in> set es. dl_ok e" and "lb_wf b"
  shows "\<exists>b'. lb_process_all es b = Returns b' \<and> lb_wf b'"
  using assms
proof (induction es arbitrary: b)
  case (Cons e es)
  then obtain b1 where "lb_process e b = Returns b1" "lb_wf b1"
    using lb_process_total [of e b] by auto
  with Cons show ?case by simp
qed simp

section \<open>Short-name generation: correctness\<close>

definition sg_wf :: "short_name_generator \<Rightarrow> bool" where
  "sg_wf g \<longleftrightarrow> length (sg_short_name g) = 11 \<and> sg_basename_len g \<le> 8"

lemma to_from_digit:
  assumes "i < 10"
  shows "to_digit 10 (from_digit i) = Some i"
proof -
  have "i \<in> {..<10}" using assms by simp
  then have "i \<in> {0, 1, 2, 3, 4, 5, 6, 7, 8, 9}"
    by (simp add: lessThan_nat_numeral lessThan_Suc pred_numeral_simps) blast
  then show ?thesis by (elim insertE emptyE; simp add: to_digit_def from_digit_def)
qed

lemma upper_digit:
  assumes "n < 16"
  shows "to_digit 16 (byte_uppercase (from_digit n)) = Some n \<and> byte_uppercase (from_digit n) \<noteq> 0x2B"
proof -
  have "n \<in> {..<16}" using assms by simp
  then have "n \<in> {0, 1, 2, 3, 4, 5, 6, 7, 8, 9, 10, 11, 12, 13, 14, 15}"
    by (simp add: lessThan_nat_numeral lessThan_Suc pred_numeral_simps) blast
  then show ?thesis
    by (elim insertE emptyE; simp add: to_digit_def from_digit_def byte_uppercase_def)
qed

lemma from_hex_u16: "from_hex (u16_to_hex x) = Some x"
proof -
  define d where "d = (\<lambda>n. unat (drop_bit n x AND 0xF))"
  have d: "d n = unat x div 2 ^ n mod 16" for n
  proof -
    have "(0xF :: u16) = mask 4" by (simp add: mask_eq_exp_minus_1)
    then show ?thesis unfolding d_def by (simp only: mask_unat) simp
  qed
  then have lt: "d n < 16" for n by simp
  have x: "unat x < 2 ^ 16" using unat_lt [of x] by simp
  have "((d 12 * 16 + d 8) * 16 + d 4) * 16 + d 0 = unat x"
  proof -
    have "unat x div 4096 mod 16 = unat x div 4096" using x by simp
    moreover have "unat x div 256 = unat x div 4096 * 16 + unat x div 256 mod 16"
      "unat x div 16 = unat x div 256 * 16 + unat x div 16 mod 16"
      by (simp_all add: div_mult2_eq [of _ 256 16, simplified] div_mult2_eq [of _ 16 16, simplified])
    moreover have "unat x = unat x div 16 * 16 + unat x mod 16" by simp
    ultimately show ?thesis by (simp add: d)
  qed
  moreover have "u16_to_hex x = map (\<lambda>n. byte_uppercase (from_digit (d n))) [12, 8, 4, 0]"
    by (simp add: u16_to_hex_def d_def)
  ultimately show ?thesis
    using upper_digit [OF lt] x by (simp add: from_hex_def)
qed

lemma build_long:
  fixes g :: short_name_generator and i :: nat
  assumes "sg_wf g"
  defines "n \<equiv> build_prefixed_name g i False" and "k \<equiv> min (sg_basename_len g) 6"
  shows "length n = 11" "n ! k = 0x7E" "n ! (k + 1) = from_digit i"
    "take k n = take k (sg_short_name g)" "drop 8 n = drop 8 (sg_short_name g)"
proof -
  have k: "k \<le> 6" by (simp add: k_def)
  have len: "length (sg_short_name g) = 11" using assms(1) by (simp add: sg_wf_def)
  define buf where "buf = (overwrite 0 (take k (sg_short_name g)) (replicate 11 0x20))[k := 0x7E, k + 1 := from_digit i]"
  have n: "n = overwrite 8 (drop 8 (sg_short_name g)) buf"
    by (simp add: n_def build_prefixed_name_def buf_def SFN_SIZE_def SFN_PADDING_def Let_def flip: k_def)
  have lb: "length buf = 11" using k len by (simp add: buf_def)
  then show "length n = 11" using len by (simp add: n)
  show "n ! k = 0x7E" "n ! (k + 1) = from_digit i"
    using k len lb by (simp_all add: n nth_overwrite) (simp_all add: buf_def)
  show "take k n = take k (sg_short_name g)"
    using k len by (simp add: n overwrite_def min_absorb1 buf_def take_update_cancel)
  show "drop 8 n = drop 8 (sg_short_name g)" using lb len by (simp add: n overwrite_def)
qed

lemma build_short:
  fixes g :: short_name_generator and i :: nat
  assumes "sg_wf g"
  defines "n \<equiv> build_prefixed_name g i True" and "k \<equiv> min (sg_basename_len g) 2"
  shows "length n = 11" "n ! (k + 4) = 0x7E" "n ! (k + 4 + 1) = from_digit i"
    "take k n = take k (sg_short_name g)" "drop 8 n = drop 8 (sg_short_name g)"
    "slice_at k 4 n = u16_to_hex (sg_chksum g)"
proof -
  have k: "k \<le> 2" by (simp add: k_def)
  have len: "length (sg_short_name g) = 11" using assms(1) by (simp add: sg_wf_def)
  have hex: "length (u16_to_hex (sg_chksum g)) = 4" by (simp add: u16_to_hex_def)
  define buf0 where "buf0 = take k (sg_short_name g) @ u16_to_hex (sg_chksum g) @ replicate (7 - k) 0x20"
  define buf where "buf = buf0[k + 4 := 0x7E, k + 4 + 1 := from_digit i]"
  have "overwrite k (u16_to_hex (sg_chksum g)) (overwrite 0 (take k (sg_short_name g)) (replicate 11 0x20)) = buf0"
    using k len hex by (simp add: overwrite_def buf0_def)
  then have n: "n = overwrite 8 (drop 8 (sg_short_name g)) buf"
    by (simp add: n_def build_prefixed_name_def buf_def SFN_SIZE_def SFN_PADDING_def Let_def flip: k_def)
  have lb: "length buf = 11" "length buf0 = 11" using k len hex by (simp_all add: buf_def buf0_def)
  then show "length n = 11" using len by (simp add: n)
  show "n ! (k + 4) = 0x7E" "n ! (k + 4 + 1) = from_digit i"
    using k len lb by (simp_all add: n nth_overwrite) (simp_all add: buf_def)
  show "take k n = take k (sg_short_name g)"
    using k len by (simp add: n overwrite_def min_absorb1 buf_def take_update_cancel buf0_def)
  show "drop 8 n = drop 8 (sg_short_name g)" using lb len by (simp add: n overwrite_def)
  have "slice_at k 4 n = slice_at k 4 buf"
    unfolding n by (rule slice_overwrite_other) (use lb len k in auto)
  also have "\<dots> = slice_at k 4 buf0"
    by (rule nth_equalityI) (use lb in \<open>auto simp: nth_slice buf_def\<close>)
  also have "\<dots> = u16_to_hex (sg_chksum g)" using k len hex by (simp add: buf0_def slice_at_def)
  finally show "slice_at k 4 n = u16_to_hex (sg_chksum g)" .
qed

text \<open>The fields that adding a name leaves alone, and the marks that it only sets.\<close>

definition sg_base :: "short_name_generator \<Rightarrow> short_name_generator" where
  "sg_base g = g\<lparr>sg_long_prefix_bitmap := 0, sg_prefix_chksum_bitmap := 0, sg_exact_match := False\<rparr>"

lemma sg_base_build: "sg_base g = sg_base g' \<Longrightarrow> build_prefixed_name g = build_prefixed_name g'"
proof -
  have "build_prefixed_name g i c = build_prefixed_name (sg_base g) i c" for g i c
    by (cases c) (simp_all add: build_prefixed_name_def sg_base_def Let_def)
  then show "sg_base g = sg_base g' \<Longrightarrow> build_prefixed_name g = build_prefixed_name g'" by (intro ext) metis
qed

lemma check_long_cases:
  obtains m where "check_for_long_prefix_collision name g =
    g\<lparr>sg_long_prefix_bitmap := sg_long_prefix_bitmap g OR m\<rparr>"
proof -
  let ?k = "min (sg_basename_len g) 6"
  have same: "g\<lparr>sg_long_prefix_bitmap := sg_long_prefix_bitmap g OR 0\<rparr> = g" by simp
  show thesis
  proof (cases "name ! ?k = 0x7E \<and> take ?k name = take ?k (sg_short_name g) \<and>
      drop 8 name = drop 8 (sg_short_name g)")
    case True
    then show thesis
      using that [of 0] that unfolding same check_for_long_prefix_collision_def Let_def
      by (cases "to_digit 10 (name ! (?k + 1))") auto
  next
    case False
    then show thesis
      using that [of 0] unfolding same check_for_long_prefix_collision_def Let_def
      by (cases "to_digit 10 (name ! (?k + 1))") auto
  qed
qed

lemma check_short_cases:
  obtains m where "check_for_short_prefix_collision name g =
    g\<lparr>sg_prefix_chksum_bitmap := sg_prefix_chksum_bitmap g OR m\<rparr>"
proof -
  let ?k = "min (sg_basename_len g) 2"
  have same: "g\<lparr>sg_prefix_chksum_bitmap := sg_prefix_chksum_bitmap g OR 0\<rparr> = g" by simp
  show thesis
  proof (cases "name ! (?k + 4) = 0x7E \<and> take ?k name = take ?k (sg_short_name g) \<and>
      drop 8 name = drop 8 (sg_short_name g) \<and> from_hex (slice_at ?k 4 name) = Some (sg_chksum g)")
    case True
    then show thesis
      using that [of 0] that unfolding same check_for_short_prefix_collision_def Let_def
      by (cases "to_digit 10 (name ! (?k + 4 + 1))") auto
  next
    case False
    then show thesis
      using that [of 0] unfolding same check_for_short_prefix_collision_def Let_def
      by (cases "to_digit 10 (name ! (?k + 4 + 1))") auto
  qed
qed

lemma sg_base_long: "sg_base (check_for_long_prefix_collision name g) = sg_base g"
  by (rule check_long_cases [of name g]) (simp add: sg_base_def)

lemma sg_base_short: "sg_base (check_for_short_prefix_collision name g) = sg_base g"
  by (rule check_short_cases [of name g]) (simp add: sg_base_def)

lemma check_marks:
  "sg_exact_match (check_for_short_prefix_collision name g) = sg_exact_match g"
  "sg_exact_match (check_for_long_prefix_collision name g) = sg_exact_match g"
  "sg_long_prefix_bitmap (check_for_short_prefix_collision name g) = sg_long_prefix_bitmap g"
  "sg_prefix_chksum_bitmap (check_for_long_prefix_collision name g) = sg_prefix_chksum_bitmap g"
  "bit (sg_long_prefix_bitmap g) i \<Longrightarrow> bit (sg_long_prefix_bitmap (check_for_long_prefix_collision name g)) i"
  "bit (sg_prefix_chksum_bitmap g) i \<Longrightarrow> bit (sg_prefix_chksum_bitmap (check_for_short_prefix_collision name g)) i"
  by (rule check_short_cases [of name g], rule check_long_cases [of name g], simp add: bit_or_iff)+

lemma sg_base_add: "sg_base (add_existing name g) = sg_base g"
  by (simp add: add_existing_def sg_base_long sg_base_short) (simp add: sg_base_def)

lemma sg_base_fields:
  assumes "sg_base g = sg_base g'"
  shows "sg_short_name g = sg_short_name g'" "sg_basename_len g = sg_basename_len g'"
    "sg_chksum g = sg_chksum g'" "sg_lossy_conv g = sg_lossy_conv g'" "sg_name_fits g = sg_name_fits g'"
    "sg_wf g = sg_wf g'"
proof -
  have "sg_short_name g = sg_short_name (sg_base g)" "sg_basename_len g = sg_basename_len (sg_base g)"
    "sg_chksum g = sg_chksum (sg_base g)" "sg_lossy_conv g = sg_lossy_conv (sg_base g)"
    "sg_name_fits g = sg_name_fits (sg_base g)" for g by (simp_all add: sg_base_def)
  from this [of g] this [of g'] assms show "sg_short_name g = sg_short_name g'"
    "sg_basename_len g = sg_basename_len g'" "sg_chksum g = sg_chksum g'"
    "sg_lossy_conv g = sg_lossy_conv g'" "sg_name_fits g = sg_name_fits g'" by simp_all
  then show "sg_wf g = sg_wf g'" by (simp add: sg_wf_def)
qed

definition sg_covers :: "short_name_generator \<Rightarrow> u8 list \<Rightarrow> bool" where
  "sg_covers g name \<longleftrightarrow> (name = sg_short_name g \<longrightarrow> sg_exact_match g) \<and>
    (\<forall>i < 10. name = build_prefixed_name g i False \<longrightarrow> bit (sg_long_prefix_bitmap g) i) \<and>
    (\<forall>i < 10. name = build_prefixed_name g i True \<longrightarrow> bit (sg_prefix_chksum_bitmap g) i)"

lemma marks_mono:
  "sg_exact_match g \<Longrightarrow> sg_exact_match (add_existing name g)"
  "bit (sg_long_prefix_bitmap g) i \<Longrightarrow> bit (sg_long_prefix_bitmap (add_existing name g)) i"
  "bit (sg_prefix_chksum_bitmap g) i \<Longrightarrow> bit (sg_prefix_chksum_bitmap (add_existing name g)) i"
  by (simp_all add: add_existing_def check_marks)

lemma covers_mono: "sg_covers g m \<Longrightarrow> sg_covers (add_existing name g) m"
  using sg_base_fields(1) [OF sg_base_add, of name g] sg_base_build [OF sg_base_add, of name g]
    marks_mono [of g] by (auto simp: sg_covers_def)

lemma bit_push_one: "i < 10 \<Longrightarrow> bit (w OR 2 ^ i :: u16) i"
  by (simp add: bit_simps)

lemma covers_self:
  assumes "sg_wf g"
  shows "sg_covers (add_existing name g) name"
proof -
  let ?g1 = "if name = sg_short_name g then g\<lparr>sg_exact_match := True\<rparr> else g"
  let ?g2 = "check_for_long_prefix_collision name ?g1"
  note base = sg_base_add [of name g]
  have b1: "sg_base ?g1 = sg_base g" by (simp add: sg_base_def)
  then have b2: "sg_base ?g2 = sg_base g" by (simp add: sg_base_long)
  have wf: "sg_wf ?g1" "sg_wf ?g2" using assms sg_base_fields(6) [OF b1] sg_base_fields(6) [OF b2] by blast+
  have "sg_exact_match (add_existing name g)" if "name = sg_short_name g"
    using that by (simp add: add_existing_def check_marks)
  moreover have "bit (sg_long_prefix_bitmap (add_existing name g)) i"
    if "i < 10" "name = build_prefixed_name g i False" for i
  proof -
    have "name = build_prefixed_name ?g1 i False" using that(2) sg_base_build [OF b1] by simp
    with build_long [OF wf(1), of i] to_from_digit [OF that(1)]
    have "bit (sg_long_prefix_bitmap ?g2) i"
      by (simp only: check_for_long_prefix_collision_def Let_def) (simp add: bit_push_one that(1))
    then show ?thesis unfolding add_existing_def check_marks .
  qed
  moreover have "bit (sg_prefix_chksum_bitmap (add_existing name g)) i"
    if "i < 10" "name = build_prefixed_name g i True" for i
  proof -
    have "name = build_prefixed_name ?g2 i True" using that(2) sg_base_build [OF b2] by simp
    with build_short [OF wf(2), of i] to_from_digit [OF that(1)] from_hex_u16 [of "sg_chksum ?g2"]
    have "bit (sg_prefix_chksum_bitmap (check_for_short_prefix_collision name ?g2)) i"
      by (simp only: check_for_short_prefix_collision_def Let_def) (simp add: bit_push_one that(1))
    then show ?thesis unfolding add_existing_def .
  qed
  ultimately show ?thesis
    unfolding sg_covers_def sg_base_fields(1) [OF base] sg_base_build [OF base] by blast
qed

lemma covers_all:
  assumes "sg_wf g"
  shows "\<forall>m \<in> set names. sg_covers (fold add_existing names g) m"
    and "sg_base (fold add_existing names g) = sg_base g"
proof -
  have "sg_base (fold add_existing names g) = sg_base g \<and>
      (\<forall>m. sg_covers g m \<longrightarrow> sg_covers (fold add_existing names g) m) \<and>
      (\<forall>m \<in> set names. sg_covers (fold add_existing names g) m)"
    using assms
  proof (induction names arbitrary: g)
    case (Cons n names)
    have "sg_wf (add_existing n g)" using Cons.prems sg_base_fields(6) [OF sg_base_add] by blast
    from Cons.IH [OF this] covers_self [OF Cons.prems, of n] covers_mono [of g] sg_base_add [of n g]
    show ?case by auto
  qed simp
  then show "\<forall>m \<in> set names. sg_covers (fold add_existing names g) m"
    "sg_base (fold add_existing names g) = sg_base g" by blast+
qed

lemma flag_clear: "i < 10 \<Longrightarrow> w AND push_bit i 1 = 0 \<longleftrightarrow> \<not> bit (w :: u16) i"
  using and_exp_eq_0_iff_not_bit [of w i] by (simp add: push_bit_eq_mult)

lemma find_clear:
  assumes "find (\<lambda>i. w AND push_bit i 1 = 0) [1..<k] = Some i" and "k \<le> 10"
  shows "i < 10" "\<not> bit (w :: u16) i"
proof -
  from assms(1) have "w AND push_bit i 1 = 0" "i \<in> set [1..<k]"
    by (auto simp: find_Some_iff)
  with assms(2) show "i < 10" "\<not> bit w i" using flag_clear [of i w] by auto
qed

lemma generate_fresh:
  assumes "sg_wf g" and "\<forall>m \<in> set names. sg_covers g m" and "sg_generate g = Inr n"
  shows "n \<notin> set names" and "length n = 11"
proof -
  consider (plain) "n = sg_short_name g" "\<not> sg_exact_match g"
    | (long) i where "find (\<lambda>i. sg_long_prefix_bitmap g AND push_bit i 1 = 0) [1..<5] = Some i"
        "n = build_prefixed_name g i False"
    | (chk) i where "find (\<lambda>i. sg_prefix_chksum_bitmap g AND push_bit i 1 = 0) [1..<10] = Some i"
        "n = build_prefixed_name g i True"
    using assms(3) unfolding sg_generate_def by (auto split: if_splits option.splits)
  then have "n \<notin> set names \<and> length n = 11"
  proof cases
    case plain
    then show ?thesis using assms(1,2) by (auto simp: sg_covers_def sg_wf_def)
  next
    case long
    from find_clear [OF long(1)] long(2) assms(2) build_long(1) [OF assms(1)] show ?thesis
      by (auto simp: sg_covers_def)
  next
    case chk
    from find_clear [OF chk(1)] chk(2) assms(2) build_short(1) [OF assms(1)] show ?thesis
      by (auto simp: sg_covers_def)
  qed
  then show "n \<notin> set names" and "length n = 11" by blast+
qed

lemma copy_loop_bounds:
  assumes "copy_short_name_loop cs dst pos lossy = (dst', pos', fits, lossy')" and "pos \<le> length dst"
  shows "length dst' = length dst \<and> pos' \<le> length dst"
  using assms
proof (induction cs arbitrary: dst pos lossy)
  case (Cons c cs)
  show ?case
  proof (cases "pos = length dst")
    case True
    with Cons.prems show ?thesis by auto
  next
    case False
    show ?thesis
    proof (cases "c = 0x20 \<or> c = 0x2E")
      case True
      with Cons False show ?thesis by auto
    next
      case keep: False
      let ?f = "if short_name_char c then c else 0x5F"
      let ?d = "dst[pos := of_nat (to_ascii_uppercase ?f)]"
      have "copy_short_name_loop cs ?d (pos + 1) (lossy \<or> ?f \<noteq> c) = (dst', pos', fits, lossy')"
        using Cons.prems(1) False keep by (simp add: Let_def)
      moreover have "pos + 1 \<le> length ?d" using False Cons.prems(2) by simp
      ultimately have "length dst' = length ?d \<and> pos' \<le> length ?d" by (rule Cons.IH)
      then show ?thesis by simp
    qed
  qed
qed simp

lemma sg_split_wf: "sg_wf (sg_split name dot)"
proof -
  define pad where "pad = replicate 11 (0x20 :: u8)"
  define src where "src = (case dot of None \<Rightarrow> name | Some i \<Rightarrow> take i name)"
  obtain base blen bfits blossy where b: "copy_short_name_part (slice_at 0 8 pad) src = (base, blen, bfits, blossy)"
    by (metis prod_cases4)
  then have base: "length base = 8" "blen \<le> 8"
    using copy_loop_bounds [of src "slice_at 0 8 pad" 0 False]
    by (simp_all add: copy_short_name_part_def pad_def)
  define sn where "sn = overwrite 0 base pad"
  have sn: "length sn = 11" using base by (simp add: sn_def pad_def)
  show ?thesis
  proof (cases dot)
    case None
    with b sn base show ?thesis
      by (simp add: sg_split_def SFN_SIZE_def SFN_PADDING_def sg_wf_def src_def flip: pad_def sn_def)
  next
    case (Some i)
    obtain ext elen efits elossy where e: "copy_short_name_part (slice_at 8 3 sn) (drop (Suc i) name) =
        (ext, elen, efits, elossy)" by (metis prod_cases4)
    then have "length ext = 3"
      using copy_loop_bounds [of "drop (Suc i) name" "slice_at 8 3 sn" 0 False] sn
      by (simp add: copy_short_name_part_def)
    then have "length (overwrite 8 ext sn) = 11" using sn by simp
    with b e Some sn base show ?thesis
      by (simp add: sg_split_def SFN_SIZE_def SFN_PADDING_def sg_wf_def src_def flip: pad_def sn_def)
  qed
qed

lemma sg_new_wf:
  assumes "sg_new name = Returns g"
  shows "sg_wf g" "name \<noteq> []" "hd name < 0x80"
  using assms sg_split_wf by (auto simp: sg_new_def split: if_splits)

section \<open>Properties\<close>

text \<open>
  C20: A long name of 1 to 255 units that does not end in the terminator or the padding unit survives
  being split into directory entries and being rebuilt from them under the checksum of its short
  name. And whatever well-formed long-name entries a directory holds, in whatever order, the builder
  processes them without indexing outside its buffer.
\<close>

theorem long_name_roundtrip:
  assumes "units \<noteq> []" and "length units \<le> 255" and "last units \<notin> {0, 0xFFFF}"
    and "\<forall>e \<in> set es. dl_ok e"
  shows "\<exists>b b'. lb_process_all es lb_new = Returns b \<and>
    lb_process_all (lg_collect (lg_new units (lfn_checksum name))) (lb_clear b) = Returns b' \<and>
    lb_into_buf (lb_validate_chksum name b') = units"
proof -
  from lb_process_all_total [OF assms(4) lb_wf_simps(1)] obtain b where
    b: "lb_process_all es lb_new = Returns b" by blast
  have "lb_buf (lb_clear b) = []" by (simp add: lb_clear_def)
  from lfn_roundtrip [OF assms(1-3) this, of name] b show ?thesis by blast
qed

theorem long_name_roundtrip_witness:
  "\<exists>b b'. lb_process_all [dl_new 0x43 7] lb_new = Returns b \<and>
    lb_process_all (lg_collect (lg_new [0x66, 0x6F] (lfn_checksum [1, 2, 3]))) (lb_clear b) = Returns b' \<and>
    lb_into_buf (lb_validate_chksum [1, 2, 3] b') = [0x66, 0x6F]"
proof -
  have "dl_ok (dl_new 0x43 7)"
    by (simp add: dl_ok_def dl_new_def dl_default_def attrs_truncate_mask attrs_contains_def LFN_def
        READ_ONLY_def HIDDEN_def SYSTEM_def VOLUME_ID_def)
  then show ?thesis
    using long_name_roundtrip [of "[0x66, 0x6F]" "[dl_new 0x43 7]" "[1, 2, 3]"] by simp
qed

text \<open>
  The states of the generator in the successive rounds of \<open>check_for_existence\<close>: in each round all
  the names of the directory are added.
\<close>

fun sg_round :: "u8 list list \<Rightarrow> nat \<Rightarrow> short_name_generator \<Rightarrow> short_name_generator" where
  "sg_round names 0 g = fold add_existing names g"
| "sg_round names (Suc k) g = fold add_existing names (sg_next_iteration (sg_round names k g))"

lemma sg_round_covers:
  "sg_wf g \<Longrightarrow> sg_wf (sg_round names k g) \<and> (\<forall>m \<in> set names. sg_covers (sg_round names k g) m)"
proof (induction k)
  case 0
  then show ?case using covers_all [OF 0] sg_base_fields(6) [OF covers_all(2) [OF 0]] by auto
next
  case (Suc k)
  then have "sg_wf (sg_next_iteration (sg_round names k g))"
    by (simp add: sg_next_iteration_def sg_wf_def)
  from covers_all [OF this] sg_base_fields(6) [OF covers_all(2) [OF this]] this show ?case by auto
qed

text \<open>
  C21: The short name generated for a new file is eleven bytes long and differs from every name in
  the directory, in the first round as in the later ones that change the checksum. The
  generator cannot be created at all, and the call panics, for an empty name and for a name whose
  first character is not ASCII.
\<close>

theorem short_name_generation:
  "case sg_new name of
     Panics \<Rightarrow> name = [] \<or> 0x80 \<le> hd name
   | Returns g \<Rightarrow> name \<noteq> [] \<and> hd name < 0x80 \<and>
       (case sg_generate (sg_round names k g) of
          Inl e \<Rightarrow> e = EEXIST
        | Inr n \<Rightarrow> length n = 11 \<and> n \<notin> set names)"
proof (cases "sg_new name")
  case Panics
  then show ?thesis by (auto simp: sg_new_def split: if_splits)
next
  case (Returns g)
  let ?g = "sg_round names k g"
  have wf: "sg_wf ?g" "\<forall>m \<in> set names. sg_covers ?g m"
    using sg_round_covers [OF sg_new_wf(1) [OF Returns]] by blast+
  have "case sg_generate ?g of Inl e \<Rightarrow> e = EEXIST | Inr n \<Rightarrow> length n = 11 \<and> n \<notin> set names"
  proof (cases "sg_generate ?g")
    case (Inl e)
    then show ?thesis by (auto simp: sg_generate_def split: if_splits option.splits)
  next
    case (Inr n)
    with generate_fresh [OF wf Inr] show ?thesis by simp
  qed
  with Returns sg_new_wf(2,3) [OF Returns] show ?thesis by simp
qed

end
