(* ===== verification/Fat_Table.thy ===== *)
theory Fat_Table
  imports Fat_Raw Umio
begin

text \<open>
  The file allocation table (\<^verbatim>\<open>lib/afat32/src/table.rs\<close>): entries and their raw form, reading and
  writing single entries and batches on the device with all mirrors, the search for free clusters,
  allocation, the traversal of cluster chains, freeing and truncation.

  The operations take the device as the argument \<open>bio\<close> and pass its state. The two locks of the
  structure are held for the whole of an operation, so each operation is one step. The loops that
  follow the links of the table are partial functions, since a table may hold a cycle.
\<close>

section \<open>Entries\<close>

datatype fat_entry = Free | Next u32 | Bad | End

definition special_cluster :: "u32 \<Rightarrow> bool" where
  "special_cluster cluster \<longleftrightarrow> 0x0FFFFFF7 \<le> cluster \<and> cluster \<le> 0x0FFFFFFF"

definition from_raw :: "u32 \<Rightarrow> u32 \<Rightarrow> fat_entry" where
  "from_raw raw cluster =
    (let n = raw AND 0x0FFFFFFF in
     if n = 0 \<and> special_cluster cluster then Bad
     else if n = 0 then Free
     else if n = 0x0FFFFFF7 then Bad
     else if 0x0FFFFFF8 \<le> n \<and> n \<le> 0x0FFFFFFF then End
     else if special_cluster cluster then Bad
     else Next n)"

definition into_raw :: "fat_entry \<Rightarrow> u32 \<Rightarrow> u32 \<Rightarrow> u32 outcome" where
  "into_raw entry cluster old_raw =
    (if entry = Free \<and> special_cluster cluster then Panics
     else let raw = (case entry of Free \<Rightarrow> 0 | Bad \<Rightarrow> 0x0FFFFFF7 | End \<Rightarrow> 0x0FFFFFFF | Next n \<Rightarrow> n)
       in Returns (old_raw OR raw))"

section \<open>The table\<close>

record fat =
  start_offset :: usize
  cluster_count :: u32
  mirrors :: u8

definition ENTRY_SIZE :: usize where "ENTRY_SIZE = 4"

definition fat_new :: "bpb \<Rightarrow> fat outcome" where
  "fat_new b =
    (let (fat_first_sector, mirrors) =
       (if mirroring_enabled b then (ucast (reserved_sectors b), fats b)
        else let active = ucast (active_fat b) in
          (ucast (reserved_sectors b) + active * sectors_per_fat b, 1))
     in bind_out (total_clusters b) (\<lambda>clusters.
       Returns \<lparr>start_offset = bytes_from_sectors b fat_first_sector, cluster_count = clusters,
         mirrors = mirrors\<rparr>))"

definition fat_size :: "fat \<Rightarrow> usize" where
  "fat_size f = ucast (cluster_count f) * ENTRY_SIZE"

definition allocable_start :: u32 where
  "allocable_start = RESERVED_FAT_ENTRIES"

definition allocable_end :: "fat \<Rightarrow> u32" where
  "allocable_end f = cluster_count f + RESERVED_FAT_ENTRIES"

definition fat_offset :: "fat \<Rightarrow> u8 \<Rightarrow> u32 \<Rightarrow> usize" where
  "fat_offset f mirror cluster =
    start_offset f + fat_size f * ucast mirror + ucast cluster * ENTRY_SIZE"

definition fat_get_raw :: "'s block_io \<Rightarrow> fat \<Rightarrow> 's \<Rightarrow> u32 \<Rightarrow> ('s, u32) fres" where
  "fat_get_raw bio f s cluster =
    (if cluster \<ge> allocable_end f then Returns (s, Inl EINVAL)
     else io_bind (Returns (bio_read bio s (fat_offset f 0 cluster) 4)) (\<lambda>s buf.
       Returns (s, Inr (of_le buf))))"

text \<open>\<open>u32::try_from\<close> of a buffer length, and the words of a byte buffer.\<close>

definition try_u32 :: "nat \<Rightarrow> error + u32" where
  "try_u32 n = (if n < 2 ^ 32 then Inr (of_nat n) else Inl (error_of_try_from_int ()))"

fun u32s_of_bytes :: "u8 list \<Rightarrow> u32 list" where
  "u32s_of_bytes (a # b # c # d # bs) = of_le [a, b, c, d] # u32s_of_bytes bs"
| "u32s_of_bytes _ = []"

definition bytes_of_u32s :: "u32 list \<Rightarrow> u8 list" where
  "bytes_of_u32s ws = concat (map (le_bytes 4) ws)"

definition fat_get_range_raw :: "'s block_io \<Rightarrow> fat \<Rightarrow> 's \<Rightarrow> u32 \<Rightarrow> nat \<Rightarrow> ('s, u32 list) fres" where
  "fat_get_range_raw bio f s start buf_len =
    io_bind (Returns (s, try_u32 buf_len)) (\<lambda>s len.
      let fin = min (start + len) (allocable_end f) in
      if start > fin then Returns (s, Inl EINVAL)
      else if start = fin then Returns (s, Inr [])
      else let read_len = unat (fin - start) in
        io_bind (Returns (bio_read bio s (fat_offset f 0 start) (4 * read_len))) (\<lambda>s bytes.
          Returns (s, Inr (u32s_of_bytes bytes))))"

definition number_from :: "u32 \<Rightarrow> 'a list \<Rightarrow> (u32 \<times> 'a) list" where
  "number_from start xs = zip (map (\<lambda>i. start + of_nat i) [0..<length xs]) xs"

definition fat_get_range ::
  "'s block_io \<Rightarrow> fat \<Rightarrow> 's \<Rightarrow> u32 \<Rightarrow> nat \<Rightarrow> ('s, (u32 \<times> fat_entry) list) fres" where
  "fat_get_range bio f s start buf_len =
    io_bind (fat_get_range_raw bio f s start buf_len) (\<lambda>s raws.
      Returns (s, Inr (map (\<lambda>(cluster, raw). (cluster, from_raw raw cluster)) (number_from start raws))))"

text \<open>Writing the same bytes to every mirror; the first error ends the operation.\<close>

fun write_mirrors ::
  "'s block_io \<Rightarrow> fat \<Rightarrow> u32 \<Rightarrow> u8 list \<Rightarrow> nat list \<Rightarrow> 's \<Rightarrow> ('s, unit) fres" where
  "write_mirrors bio f cluster bytes [] s = Returns (s, Inr ())"
| "write_mirrors bio f cluster bytes (m # ms) s =
    io_bind (Returns (bio_write bio s (fat_offset f (of_nat m) cluster) bytes)) (\<lambda>s _.
      write_mirrors bio f cluster bytes ms s)"

fun merge_entries :: "(u32 \<times> u32) list \<Rightarrow> fat_entry list \<Rightarrow> u32 list outcome" where
  "merge_entries ((cluster, raw) # raws) (entry # entries) =
    bind_out (into_raw entry cluster (raw AND 0xF0000000)) (\<lambda>raw'.
    bind_out (merge_entries raws entries) (\<lambda>rest. Returns (raw' # rest)))"
| "merge_entries raws [] = Returns (map snd raws)"
| "merge_entries [] entries = Returns []"

definition fat_set_range ::
  "'s block_io \<Rightarrow> fat \<Rightarrow> 's \<Rightarrow> u32 \<Rightarrow> nat \<Rightarrow> fat_entry list \<Rightarrow> ('s, unit) fres" where
  "fat_set_range bio f s start buf_len entries =
    io_bind (fat_get_range_raw bio f s start buf_len) (\<lambda>s raws.
    bind_out (merge_entries (number_from start raws) entries) (\<lambda>raws'.
      write_mirrors bio f start (bytes_of_u32s raws') [0..<unat (mirrors f)] s))"

definition fat_get :: "'s block_io \<Rightarrow> fat \<Rightarrow> 's \<Rightarrow> u32 \<Rightarrow> ('s, fat_entry) fres" where
  "fat_get bio f s cluster =
    io_bind (fat_get_raw bio f s cluster) (\<lambda>s raw. Returns (s, Inr (from_raw raw cluster)))"

definition fat_set :: "'s block_io \<Rightarrow> fat \<Rightarrow> 's \<Rightarrow> u32 \<Rightarrow> fat_entry \<Rightarrow> ('s, unit) fres" where
  "fat_set bio f s cluster entry =
    io_bind (fat_get_raw bio f s cluster) (\<lambda>s raw.
    bind_out (into_raw entry cluster (raw AND 0xF0000000)) (\<lambda>raw'.
      write_mirrors bio f cluster (le_bytes 4 raw') [0..<unat (mirrors f)] s))"

section \<open>Free clusters\<close>

datatype bound = Included u32 | Excluded u32 | Unbounded

definition range_start :: "fat \<Rightarrow> bound \<Rightarrow> u32" where
  "range_start f b =
    (case b of
       Included bound \<Rightarrow> max bound allocable_start
     | Excluded bound \<Rightarrow> max (bound + 1) allocable_start
     | Unbounded \<Rightarrow> allocable_end f)"

definition range_end :: "fat \<Rightarrow> bound \<Rightarrow> u32" where
  "range_end f b =
    (case b of
       Included bound \<Rightarrow> min (bound + 1) (allocable_end f)
     | Excluded bound \<Rightarrow> min bound (allocable_end f)
     | Unbounded \<Rightarrow> allocable_end f)"

text \<open>
  The scan of one batch: \<open>Inl (count, cluster)\<close> is the early return, \<open>Inr (count, ret)\<close> the state at
  the end of the batch.
\<close>

fun scan_batch ::
  "(u32 \<times> fat_entry) list \<Rightarrow> nat \<Rightarrow> nat \<Rightarrow> u32 option \<Rightarrow> (nat \<times> u32 + nat \<times> u32 option) outcome" where
  "scan_batch [] num count ret = Returns (Inr (count, ret))"
| "scan_batch ((cluster, entry) # rest) num count ret =
    (if entry = Free then
       (if count \<ge> num then
          (case ret of None \<Rightarrow> Panics | Some c \<Rightarrow> Returns (Inl (count, c)))
        else scan_batch rest num (count + 1) (if count = 0 then Some cluster else ret))
     else case ret of
         Some c \<Rightarrow> Returns (Inl (count, c))
       | None \<Rightarrow> scan_batch rest num count ret)"

fun find_free_loop ::
  "'s block_io \<Rightarrow> fat \<Rightarrow> u32 \<Rightarrow> nat \<Rightarrow> nat \<Rightarrow> u32 list \<Rightarrow> 's \<Rightarrow> ('s, nat \<times> u32) fres" where
  "find_free_loop bio f fin num buf_len [] s = Returns (s, Inl ENOSPC)"
| "find_free_loop bio f fin num buf_len (start # starts) s =
    io_bind (fat_get_range bio f s start (min buf_len (unat (fin - start)))) (\<lambda>s entries.
    bind_out (scan_batch entries num 0 None) (\<lambda>r.
      case r of
        Inl found \<Rightarrow> Returns (s, Inr found)
      | Inr (count, Some cluster) \<Rightarrow> Returns (s, Inr (count, cluster))
      | Inr (count, None) \<Rightarrow> find_free_loop bio f fin num buf_len starts s))"

text \<open>\<open>(start..end).step_by(k)\<close>, which panics for \<open>k = 0\<close>.\<close>

definition step_by :: "u32 \<Rightarrow> u32 \<Rightarrow> nat \<Rightarrow> u32 list outcome" where
  "step_by start fin k =
    (if k = 0 then Panics
     else Returns (map (\<lambda>i. start + of_nat (i * k)) [0..<(unat fin - unat start + k - 1) div k]))"

definition fat_find_free ::
  "'s block_io \<Rightarrow> fat \<Rightarrow> 's \<Rightarrow> bound \<times> bound \<Rightarrow> nat \<Rightarrow> nat \<Rightarrow> ('s, nat \<times> u32) fres" where
  "fat_find_free bio f s cluster_range num buf_len =
    (let start = range_start f (fst cluster_range); fin = range_end f (snd cluster_range) in
     bind_out (step_by start fin buf_len) (\<lambda>starts. find_free_loop bio f fin num buf_len starts s))"

fun count_free_loop :: "'s block_io \<Rightarrow> fat \<Rightarrow> u32 list \<Rightarrow> nat \<Rightarrow> 's \<Rightarrow> ('s \<times> nat) outcome" where
  "count_free_loop bio f [] n s = Returns (s, n)"
| "count_free_loop bio f (c # cs) n s =
    bind_out (fat_get bio f s c) (\<lambda>(s, r).
      case r of
        Inl e \<Rightarrow> Panics
      | Inr e \<Rightarrow> count_free_loop bio f cs (if e = Free then n + 1 else n) s)"

definition count_free :: "'s block_io \<Rightarrow> fat \<Rightarrow> 's \<Rightarrow> ('s \<times> nat) outcome" where
  "count_free bio f s =
    count_free_loop bio f (map of_nat [unat allocable_start..<unat (allocable_end f)]) 0 s"

definition ALLOCATE_BATCH_LEN :: nat where "ALLOCATE_BATCH_LEN = 1024"
definition BATCH_LEN :: nat where "BATCH_LEN = 64"

definition fat_allocate ::
  "'s block_io \<Rightarrow> fat \<Rightarrow> 's \<Rightarrow> u32 option \<Rightarrow> u32 option \<Rightarrow> nat \<Rightarrow> ('s, nat \<times> u32) fres" where
  "fat_allocate bio f s prev hint num =
    (let hint = (case hint of None \<Rightarrow> allocable_start | Some h \<Rightarrow> h);
       buf_len = min ALLOCATE_BATCH_LEN num in
     bind_out (fat_find_free bio f s (Included hint, Unbounded) num buf_len) (\<lambda>(s, r).
     io_bind
       (case r of
          Inr found \<Rightarrow> Returns (s, Inr found)
        | Inl e \<Rightarrow> if e = ENOSPC then fat_find_free bio f s (Unbounded, Excluded hint) num buf_len
            else Returns (s, Inl e))
       (\<lambda>s (num, ret).
     io_bind (case prev of None \<Rightarrow> Returns (s, Inr ()) | Some prev \<Rightarrow> fat_set bio f s prev (Next ret))
       (\<lambda>s _.
     io_bind
       (if num > 1
        then fat_set_range bio f s ret (num - 1) (map (\<lambda>i. Next (ret + of_nat i)) [1..<num])
        else Returns (s, Inr ()))
       (\<lambda>s _.
     io_bind (fat_set bio f s (ret + of_nat num - 1) End) (\<lambda>s _. Returns (s, Inr (num, ret))))))))"

section \<open>Chains\<close>

definition iter_next :: "'s block_io \<Rightarrow> fat \<Rightarrow> 's \<Rightarrow> u32 \<Rightarrow> ('s, u32 option) fres" where
  "iter_next bio f s cluster =
    io_bind (fat_get bio f s cluster) (\<lambda>s e.
      Returns (s, Inr (case e of Next n \<Rightarrow> Some n | _ \<Rightarrow> None)))"

text \<open>The \<open>map_while\<close> over the entries paired with their predecessors.\<close>

fun ranged_next :: "fat_entry \<Rightarrow> (u32 \<times> fat_entry) list \<Rightarrow> u32 list" where
  "ranged_next before [] = []"
| "ranged_next before ((cluster, entry) # rest) =
    (if (case before of Next last_next \<Rightarrow> last_next \<noteq> cluster | _ \<Rightarrow> False) then []
     else case entry of Next n \<Rightarrow> n # ranged_next entry rest | _ \<Rightarrow> [])"

definition iter_ranged_next :: "'s block_io \<Rightarrow> fat \<Rightarrow> 's \<Rightarrow> u32 \<Rightarrow> nat \<Rightarrow> ('s, u32 list) fres" where
  "iter_ranged_next bio f s start buf_len =
    io_bind (fat_get_range bio f s start buf_len) (\<lambda>s entries.
      Returns (s, Inr (ranged_next (Next start) entries)))"

partial_function (option) all_clusters_loop ::
  "'s block_io \<Rightarrow> fat \<Rightarrow> 's \<Rightarrow> u32 \<Rightarrow> u32 list \<Rightarrow> ('s, u32 list) fres option" where
  "all_clusters_loop bio f s start ret =
    (case iter_ranged_next bio f s start BATCH_LEN of
       Panics \<Rightarrow> Some Panics
     | Returns (s, r) \<Rightarrow>
      (case r of
         Inl e \<Rightarrow> Some (Returns (s, Inl e))
       | Inr nexts \<Rightarrow>
          (if nexts = [] then Some (Returns (s, Inr ret))
           else all_clusters_loop bio f s (last nexts) (ret @ nexts))))"

text \<open>The backward pass that gives each cluster the end of its contiguous run.\<close>

fun run_ends :: "u32 list \<Rightarrow> (u32 \<times> u32) list" where
  "run_ends [] = []"
| "run_ends (c # cs) =
    (case run_ends cs of
       [] \<Rightarrow> [(c, c)]
     | (prev, prev_end) # rest \<Rightarrow>
        (c, if c + 1 = prev then prev_end else c) # (prev, prev_end) # rest)"

definition all_clusters ::
  "'s block_io \<Rightarrow> fat \<Rightarrow> 's \<Rightarrow> u32 \<Rightarrow> ('s, (u32 \<times> u32) list) fres option" where
  "all_clusters bio f s start =
    Option.bind (all_clusters_loop bio f s start [start]) (\<lambda>r.
      Some (io_bind r (\<lambda>s cs. Returns (s, Inr (run_ends cs)))))"

text \<open>
  The stream \<open>cluster_chain\<close> folded by \<open>free\<close>: the link of a cluster is read before the cluster is
  handed out and freed.
\<close>

partial_function (option) free_loop ::
  "'s block_io \<Rightarrow> fat \<Rightarrow> 's \<Rightarrow> (error + u32) option \<Rightarrow> nat \<Rightarrow> ('s, nat) fres option" where
  "free_loop bio f s cluster acc =
    (case cluster of
       None \<Rightarrow> Some (Returns (s, Inr acc))
     | Some (Inl e) \<Rightarrow> Some (Returns (s, Inl e))
     | Some (Inr c) \<Rightarrow>
      (case iter_next bio f s c of
         Panics \<Rightarrow> Some Panics
       | Returns (s, r) \<Rightarrow>
        (case fat_set bio f s c Free of
           Panics \<Rightarrow> Some Panics
         | Returns (s, Inl e) \<Rightarrow> Some (Returns (s, Inl e))
         | Returns (s, Inr _) \<Rightarrow>
            free_loop bio f s
              (case r of Inl e \<Rightarrow> Some (Inl e) | Inr None \<Rightarrow> None | Inr (Some n) \<Rightarrow> Some (Inr n))
              (acc + 1))))"

definition fat_free :: "'s block_io \<Rightarrow> fat \<Rightarrow> 's \<Rightarrow> u32 \<Rightarrow> ('s, nat) fres option" where
  "fat_free bio f s chain_start = free_loop bio f s (Some (Inr chain_start)) 0"

definition fat_truncate :: "'s block_io \<Rightarrow> fat \<Rightarrow> 's \<Rightarrow> u32 \<Rightarrow> ('s, nat) fres option" where
  "fat_truncate bio f s chain_start =
    (case fat_set bio f s chain_start End of
       Panics \<Rightarrow> Some Panics
     | Returns (s, Inl e) \<Rightarrow> Some (Returns (s, Inl e))
     | Returns (s, Inr _) \<Rightarrow>
      (case iter_next bio f s chain_start of
         Panics \<Rightarrow> Some Panics
       | Returns (s, Inl e) \<Rightarrow> Some (Returns (s, Inl e))
       | Returns (s, Inr None) \<Rightarrow> Some (Returns (s, Inr 0))
       | Returns (s, Inr (Some n)) \<Rightarrow> fat_free bio f s n))"

end
