(* ===== verification/Fat_Chains.thy ===== *)
theory Fat_Chains
  imports Fat_Table
begin

text \<open>
  Correctness of the file allocation table of the theory of tables: the entries as a function from
  cluster numbers, what reading and writing does to that view on any device under the contract
  \<open>block_device\<close>, the search for free clusters and allocation, and the traversal and release of
  chains.
\<close>

section \<open>Entries\<close>

definition entry_ok :: "fat_entry \<Rightarrow> bool" where
  "entry_ok e \<longleftrightarrow> (case e of Next n \<Rightarrow> 0 < unat n \<and> unat n < 0x0FFFFFF7 | _ \<Rightarrow> True)"

lemma and_low: "w AND 0x0FFFFFFF = take_bit 28 (w :: u32)"
  by (simp add: take_bit_eq_mask mask_eq_exp_minus_1)

lemma and_high: "w AND 0xF0000000 = w AND NOT (mask 28 :: u32)"
proof -
  have "(0xF0000000 :: u32) + 0x10000000 = 0" by simp
  then have "(0xF0000000 :: u32) = - 0x10000000" by (simp only: eq_neg_iff_add_eq_0)
  moreover have "NOT (mask 28 :: u32) = - 0x10000000" by (simp add: mask_eq_exp_minus_1)
  ultimately show ?thesis by (simp only:)
qed

lemma merge_low:
  assumes "unat (n :: u32) < 2 ^ 28"
  shows "((w AND 0xF0000000) OR n) AND 0x0FFFFFFF = n"
  unfolding and_low and_high using small_word_no_bit [OF assms]
  by (auto simp: bit_simps not_le [symmetric] intro!: bit_word_eqI)

definition entry_raw :: "fat_entry \<Rightarrow> u32" where
  "entry_raw e = (case e of Free \<Rightarrow> 0 | Bad \<Rightarrow> 0x0FFFFFF7 | End \<Rightarrow> 0x0FFFFFFF | Next n \<Rightarrow> n)"

lemma into_raw_ok:
  "\<not> special_cluster c \<Longrightarrow> into_raw e c w = Returns (w OR entry_raw e)"
  by (simp add: into_raw_def entry_raw_def Let_def)

lemma from_into_raw:
  assumes "\<not> special_cluster c" and "entry_ok e"
  shows "from_raw ((w AND 0xF0000000) OR entry_raw e) c = e"
proof -
  have small: "unat (entry_raw e) < 2 ^ 28"
    using assms(2) by (cases e) (auto simp: entry_raw_def entry_ok_def)
  show ?thesis
    unfolding from_raw_def merge_low [OF small] using assms
    by (cases e) (auto simp: entry_raw_def entry_ok_def Let_def word_le_nat_alt word_unat_eq_iff)
qed

lemma from_raw_ok: "entry_ok (from_raw raw c)"
proof -
  have "raw AND 0x0FFFFFFF \<noteq> 0 \<Longrightarrow> 0 < unat (raw AND 0x0FFFFFFF)" by (simp add: unat_gt_0)
  moreover have "unat (raw AND 0x0FFFFFFF) \<le> 0x0FFFFFFF"
    unfolding and_low unsigned_take_bit_eq using take_bit_nat_less_exp [of 28 "unat raw"] by simp
  ultimately show ?thesis
    by (auto simp: from_raw_def entry_ok_def Let_def word_le_nat_alt word_unat_eq_iff)
qed

section \<open>The view\<close>

definition fat_limit :: "fat \<Rightarrow> nat" where
  "fat_limit f = unat (cluster_count f) + 2"

definition fat_fits :: "fat \<Rightarrow> u8 list \<Rightarrow> bool" where
  "fat_fits f cs \<longleftrightarrow> unat (start_offset f) + 4 * unat (cluster_count f) * (unat (mirrors f) - 1) +
    4 * fat_limit f \<le> length cs"

definition fat_word :: "fat \<Rightarrow> u8 list \<Rightarrow> nat \<Rightarrow> u32" where
  "fat_word f cs c = of_le (slice_at (unat (start_offset f) + 4 * c) 4 cs)"

definition fat_view :: "fat \<Rightarrow> u8 list \<Rightarrow> nat \<Rightarrow> fat_entry" where
  "fat_view f cs c = from_raw (fat_word f cs c) (of_nat c)"

definition fat_ok :: "fat \<Rightarrow> bool" where
  "fat_ok f \<longleftrightarrow> 0 < unat (mirrors f) \<and> fat_limit f \<le> 0x0FFFFFF7"

lemma unat_ucast_usize: "unat (ucast (w :: u32) :: usize) = unat w"
  using unat_lt [of w] by (simp add: unsigned_ucast_eq take_bit_nat_eq_self)

lemma unat_mult_small: "unat (a :: usize) * unat b < 2 ^ 64 \<Longrightarrow> unat (a * b) = unat a * unat b"
  by (simp add: unat_word_ariths)

lemma unat_fat_size: "unat (fat_size f) = 4 * unat (cluster_count f)"
proof -
  have "unat (ucast (cluster_count f) :: usize) * unat ENTRY_SIZE < 2 ^ 64"
    using unat_lt [of "cluster_count f"] by (simp add: unat_ucast_usize ENTRY_SIZE_def)
  from unat_mult_small [OF this] show ?thesis
    unfolding fat_size_def by (simp add: unat_ucast_usize ENTRY_SIZE_def)
qed

lemma fat_offset_eq:
  assumes "fat_fits f cs" and "length cs < 2 ^ 64" and "m < unat (mirrors f)" and "unat c < fat_limit f"
  shows "unat (fat_offset f (of_nat m) c) = unat (start_offset f) + 4 * unat (cluster_count f) * m + 4 * unat c"
    and "unat (start_offset f) + 4 * unat (cluster_count f) * m + 4 * fat_limit f \<le> length cs"
proof -
  let ?n = "4 * unat (cluster_count f)"
  have "?n * m \<le> ?n * (unat (mirrors f) - 1)" using assms(3) by (intro mult_le_mono2) simp
  then show le: "unat (start_offset f) + ?n * m + 4 * fat_limit f \<le> length cs"
    using assms(1) unfolding fat_fits_def by linarith
  have m: "unat (of_nat m :: u8) = m" using assms(3) unat_lt [of "mirrors f"] by (simp add: unat_of_nat)
  then have um: "unat (ucast (of_nat m :: u8) :: usize) = m"
    using assms(3) unat_lt [of "mirrors f"] by (simp add: unsigned_ucast_eq take_bit_nat_eq_self)
  have p1: "unat (fat_size f * ucast (of_nat m :: u8)) = ?n * m"
  proof (rule trans [OF unat_mult_small])
    show "unat (fat_size f) * unat (ucast (of_nat m :: u8) :: usize) < 2 ^ 64"
      using le assms(2) unfolding um unat_fat_size by linarith
  qed (simp add: um unat_fat_size)
  have p2: "unat (ucast c * ENTRY_SIZE :: usize) = 4 * unat c"
    using unat_mult_small [of "ucast c" ENTRY_SIZE] unat_lt [of c]
    by (simp add: unat_ucast_usize ENTRY_SIZE_def)
  have s1: "unat (start_offset f + fat_size f * ucast (of_nat m :: u8)) = unat (start_offset f) + ?n * m"
    using le assms(2) by (subst unat_add_no_overflow) (simp_all add: p1)
  show "unat (fat_offset f (of_nat m) c) = unat (start_offset f) + ?n * m + 4 * unat c"
    unfolding fat_offset_def using le assms(2,4)
    by (subst unat_add_no_overflow) (simp_all add: s1 p2)
qed

lemma unat_allocable_end:
  "fat_ok f \<Longrightarrow> unat (allocable_end f) = fat_limit f"
  unfolding allocable_end_def RESERVED_FAT_ENTRIES_def
  by (subst unat_add_no_overflow) (simp_all add: fat_ok_def fat_limit_def)

lemma not_special:
  "fat_ok f \<Longrightarrow> unat c < fat_limit f \<Longrightarrow> \<not> special_cluster c"
  by (simp add: special_cluster_def fat_ok_def word_le_nat_alt)

lemma not_special_nat:
  "fat_ok f \<Longrightarrow> c < fat_limit f \<Longrightarrow> unat (of_nat c :: u32) = c \<and> \<not> special_cluster (of_nat c)"
  using not_special [of f "of_nat c"] by (simp add: fat_ok_def unat_of_nat)

lemma list_4: "length xs = 4 \<Longrightarrow> \<exists>a b c d. xs = [a, b, c, d]"
  by (auto simp: length_Suc_conv numeral_eq_Suc)

lemma u32s_of_bytes_slice:
  assumes "off + 4 * k \<le> length cs"
  shows "u32s_of_bytes (slice_at off (4 * k) cs) = map (\<lambda>i. of_le (slice_at (off + 4 * i) 4 cs)) [0..<k]"
  using assms
proof (induction k arbitrary: off)
  case 0
  then show ?case by (simp add: slice_at_def)
next
  case (Suc k)
  have l4: "length (slice_at off 4 cs) = 4" using Suc.prems by simp
  from list_4 [OF this] obtain a b c d where abcd: "slice_at off 4 cs = [a, b, c, d]" by blast
  have "slice_at off (4 * Suc k) cs = slice_at off 4 cs @ slice_at (off + 4) (4 * k) cs"
    using slice_append [of off 4 cs "4 * k"] by simp
  moreover have "[0..<Suc k] = 0 # map Suc [0..<k]" by (simp add: map_Suc_upt upt_conv_Cons del: upt_Suc)
  ultimately show ?case
    using Suc.IH [of "off + 4"] Suc.prems abcd
    by (simp add: comp_def add_ac del: of_le.simps upt_Suc)
qed

lemma length_bytes_of_u32s [simp]: "length (bytes_of_u32s ws) = 4 * length ws"
  by (induction ws) (simp_all add: bytes_of_u32s_def)

lemma slice_bytes_of_u32s: "i < length ws \<Longrightarrow> slice_at (4 * i) 4 (bytes_of_u32s ws) = le_bytes 4 (ws ! i)"
proof (induction ws arbitrary: i)
  case (Cons w ws)
  then show ?case
    by (cases i) (auto simp: bytes_of_u32s_def slice_at_def)
qed simp

text \<open>The cells that link to another cluster.\<close>

definition links :: "fat \<Rightarrow> u8 list \<Rightarrow> nat set" where
  "links f cs = {c. c < fat_limit f \<and> (\<exists>n. fat_view f cs c = Next n)}"

definition links_ok :: "fat \<Rightarrow> u8 list \<Rightarrow> bool" where
  "links_ok f cs \<longleftrightarrow> (\<forall>c < fat_limit f. \<forall>n. fat_view f cs c = Next n \<longrightarrow> 2 \<le> unat n)"

lemma finite_links: "finite (links f cs)"
  by (simp add: links_def)

text \<open>A chain: clusters linked one to the next, ending in a cell that links nowhere.\<close>

fun chain_of :: "fat \<Rightarrow> u8 list \<Rightarrow> nat list \<Rightarrow> bool" where
  "chain_of f cs [] \<longleftrightarrow> False"
| "chain_of f cs [c] \<longleftrightarrow> 2 \<le> c \<and> c < fat_limit f \<and> (\<forall>n. fat_view f cs c \<noteq> Next n)"
| "chain_of f cs (c # d # ds) \<longleftrightarrow>
    2 \<le> c \<and> c < fat_limit f \<and> fat_view f cs c = Next (of_nat d) \<and> chain_of f cs (d # ds)"

lemma chain_of_bounds: "chain_of f cs ks \<Longrightarrow> \<forall>c \<in> set ks. 2 \<le> c \<and> c < fat_limit f"
  by (induction f cs ks rule: chain_of.induct) auto

lemma chain_of_cong:
  "chain_of f cs ks \<Longrightarrow> \<forall>c \<in> set ks. fat_view f cs' c = fat_view f cs c \<Longrightarrow> chain_of f cs' ks"
  by (induction f cs ks rule: chain_of.induct) auto

text \<open>
  The table after an allocation of \<open>n\<close> clusters from \<open>c\<close>: each links to the following one, the last
  ends the chain, and the cluster before, if any, links to the first.
\<close>

definition allocated ::
  "nat \<Rightarrow> nat \<Rightarrow> nat option \<Rightarrow> (nat \<Rightarrow> fat_entry) \<Rightarrow> nat \<Rightarrow> fat_entry" where
  "allocated c n prev v c' =
    (if c' + 1 = c + n then End
     else if c \<le> c' \<and> c' < c + n then Next (of_nat (c' + 1))
     else if prev = Some c' then Next (of_nat c)
     else v c')"

text \<open>
  What the backward pass computes: every cluster of the list is paired with the last cluster of the
  longest run of consecutive cluster numbers that starts at its position.
\<close>

definition run_end_at :: "u32 list \<Rightarrow> nat \<Rightarrow> u32 \<Rightarrow> bool" where
  "run_end_at cs i e \<longleftrightarrow>
    (\<exists>k. i + k < length cs \<and> e = cs ! (i + k) \<and> (\<forall>j < k. cs ! (i + j) + 1 = cs ! (i + j + 1)) \<and>
      (i + k + 1 < length cs \<longrightarrow> cs ! (i + k) + 1 \<noteq> cs ! (i + k + 1)))"

lemma run_end_at_Suc: "run_end_at cs i e \<Longrightarrow> run_end_at (c # cs) (Suc i) e"
  by (auto simp: run_end_at_def)

lemma run_end_at_0:
  "run_end_at (c # cs) 0 e \<longleftrightarrow>
    (if cs \<noteq> [] \<and> c + 1 = hd cs then run_end_at cs 0 e else e = c)"
proof (cases "cs \<noteq> [] \<and> c + 1 = hd cs")
  case True
  then have h: "cs \<noteq> []" "cs ! 0 = c + 1" by (simp_all add: hd_conv_nth)
  have step: "(\<forall>j < Suc k. (c # cs) ! j + 1 = cs ! j) = (\<forall>j < k. cs ! j + 1 = cs ! Suc j)" for k
    using h(2) by (auto simp: less_Suc_eq_0_disj)
  have "run_end_at (c # cs) 0 e \<longleftrightarrow> (\<exists>k. k < length cs \<and> e = cs ! k \<and>
      (\<forall>j < Suc k. (c # cs) ! j + 1 = cs ! j) \<and> (Suc k < length cs \<longrightarrow> cs ! k + 1 \<noteq> cs ! Suc k))"
    (is "?l = ?r")
  proof
    assume ?l
    then obtain k where k: "k < Suc (length cs)" "e = (c # cs) ! k" "\<forall>j < k. (c # cs) ! j + 1 = cs ! j"
      "k < length cs \<longrightarrow> (c # cs) ! k + 1 \<noteq> cs ! k" by (auto simp: run_end_at_def)
    have "k \<noteq> 0"
    proof
      assume "k = 0"
      with k(4) h show False by simp
    qed
    then show ?r using k by (cases k) auto
  next
    assume ?r
    then obtain k where "k < length cs" "e = cs ! k" "\<forall>j < Suc k. (c # cs) ! j + 1 = cs ! j"
      "Suc k < length cs \<longrightarrow> cs ! k + 1 \<noteq> cs ! Suc k" by blast
    then show ?l unfolding run_end_at_def by (intro exI [of _ "Suc k"]) auto
  qed
  then show ?thesis using True by (simp add: step run_end_at_def)
next
  case False
  have "run_end_at (c # cs) 0 e \<longleftrightarrow> e = c"
  proof
    assume "run_end_at (c # cs) 0 e"
    then obtain k where k: "e = (c # cs) ! k" "\<forall>j < k. (c # cs) ! j + 1 = cs ! j" "k \<le> length cs"
      by (auto simp: run_end_at_def)
    have "k = 0"
    proof (rule ccontr)
      assume "k \<noteq> 0"
      then have "c + 1 = cs ! 0" "cs \<noteq> []" using k(2,3) by auto
      with False show False by (simp add: hd_conv_nth)
    qed
    with k(1) show "e = c" by simp
  next
    assume "e = c"
    then show "run_end_at (c # cs) 0 e"
      unfolding run_end_at_def using False by (intro exI [of _ 0]) (auto simp: hd_conv_nth)
  qed
  then show ?thesis using False by auto
qed

lemma run_ends_correct:
  "map fst (run_ends cs) = cs \<and> (\<forall>i < length cs. run_end_at cs i (snd (run_ends cs ! i)))"
proof (induction cs)
  case (Cons c cs)
  show ?case
  proof (cases "run_ends cs")
    case Nil
    then have "cs = []" using Cons.IH by auto
    then show ?thesis by (simp add: run_end_at_0)
  next
    case (Cons p rest)
    obtain a b where p: "p = (a, b)" by force
    have cs: "cs = a # map fst rest" using Cons.IH unfolding Cons p by simp
    have b: "run_end_at cs 0 b" using Cons.IH unfolding Cons p by (force simp: cs)
    let ?e = "if c + 1 = a then b else c"
    have eq: "run_ends (c # cs) = (c, ?e) # run_ends cs" by (simp add: Cons p)
    have "run_end_at (c # cs) i (snd (run_ends (c # cs) ! i))" if "i < length (c # cs)" for i
    proof (cases i)
      case 0
      show ?thesis unfolding eq 0 using b by (simp add: run_end_at_0 cs)
    next
      case (Suc j)
      show ?thesis
        unfolding eq Suc using Cons.IH that Suc by (simp add: run_end_at_Suc)
    qed
    then show ?thesis unfolding eq using Cons.IH by simp
  qed
qed simp

section \<open>Scanning a batch\<close>

definition free_run :: "(nat \<Rightarrow> fat_entry) \<Rightarrow> nat \<Rightarrow> nat \<Rightarrow> bool" where
  "free_run v c k \<longleftrightarrow> (\<forall>j < k. v (c + j) = Free)"

abbreviation cells :: "(nat \<Rightarrow> fat_entry) \<Rightarrow> nat \<Rightarrow> nat \<Rightarrow> (u32 \<times> fat_entry) list" where
  "cells v a b \<equiv> map (\<lambda>c. (of_nat c, v c)) [a..<b]"

lemma scan_run:
  assumes "0 < k" and "k \<le> num" and "free_run v c k" and "c + k \<le> b"
  shows "\<exists>k'. 0 < k' \<and> k' \<le> num \<and> free_run v c k' \<and> c + k' \<le> b \<and>
    scan_batch (cells v (c + k) b) num k (Some x) \<in>
      {Returns (Inl (k', x)), Returns (Inr (k', Some x))}"
  using assms
proof (induction "b - (c + k)" arbitrary: k)
  case 0
  then show ?case by (intro exI [of _ k]) auto
next
  case (Suc n)
  then have up: "[c + k..<b] = (c + k) # [c + Suc k..<b]" by (simp add: upt_conv_Cons)
  show ?case
  proof (cases "v (c + k) = Free \<and> k < num")
    case False
    with Suc.prems up show ?thesis by (intro exI [of _ k]) auto
  next
    case True
    then have run: "free_run v c (Suc k)" using Suc.prems(3) by (auto simp: free_run_def less_Suc_eq)
    have "\<exists>k'. 0 < k' \<and> k' \<le> num \<and> free_run v c k' \<and> c + k' \<le> b \<and>
        scan_batch (cells v (c + Suc k) b) num (Suc k) (Some x) \<in>
          {Returns (Inl (k', x)), Returns (Inr (k', Some x))}"
      by (rule Suc.hyps(1)) (use Suc.hyps(2) Suc.prems True run in auto)
    with True Suc.prems up show ?thesis by simp
  qed
qed

lemma scan_first:
  assumes "0 < num"
  shows "(\<forall>c \<in> {a..<b}. v c \<noteq> Free) \<and> scan_batch (cells v a b) num 0 None = Returns (Inr (0, None)) \<or>
    (\<exists>c k. a \<le> c \<and> (\<forall>c' \<in> {a..<c}. v c' \<noteq> Free) \<and> 0 < k \<and> k \<le> num \<and> free_run v c k \<and> c + k \<le> b \<and>
      scan_batch (cells v a b) num 0 None \<in>
        {Returns (Inl (k, of_nat c)), Returns (Inr (k, Some (of_nat c)))})"
proof (induction "b - a" arbitrary: a)
  case 0
  then show ?case by auto
next
  case (Suc n)
  then have up: "[a..<b] = a # [Suc a..<b]" by (simp add: upt_conv_Cons)
  show ?case
  proof (cases "v a = Free")
    case True
    then have "free_run v a 1" by (simp add: free_run_def)
    moreover have "a + 1 \<le> b" using Suc.hyps(2) by simp
    ultimately obtain k where
      "0 < k" "k \<le> num" "free_run v a k" "a + k \<le> b"
      "scan_batch (cells v (a + 1) b) num 1 (Some (of_nat a)) \<in>
        {Returns (Inl (k, of_nat a)), Returns (Inr (k, Some (of_nat a)))}"
      using scan_run [of 1 num v a b "of_nat a"] assms by fastforce
    with True assms up show ?thesis by (intro disjI2 exI [of _ a] exI [of _ k]) auto
  next
    case False
    have eq: "scan_batch (cells v a b) num 0 None = scan_batch (cells v (Suc a) b) num 0 None"
      using False up by simp
    have "b - Suc a = n" using Suc.hyps(2) by simp
    from Suc.hyps(1) [OF this [symmetric]] show ?thesis
    proof (elim disjE exE conjE)
      assume "\<forall>c \<in> {Suc a..<b}. v c \<noteq> Free"
      then have "\<forall>c \<in> {a..<b}. v c \<noteq> Free" using False by (metis Suc_leI atLeastLessThan_iff le_neq_implies_less)
      moreover assume "scan_batch (cells v (Suc a) b) num 0 None = Returns (Inr (0, None))"
      ultimately show ?thesis unfolding eq by blast
    next
      fix c k
      assume c: "Suc a \<le> c" "\<forall>c' \<in> {Suc a..<c}. v c' \<noteq> Free"
      have "\<forall>c' \<in> {a..<c}. v c' \<noteq> Free"
        using c(2) False by (metis Suc_leI atLeastLessThan_iff le_neq_implies_less)
      moreover assume "0 < k" "k \<le> num" "free_run v c k" "c + k \<le> b"
        "scan_batch (cells v (Suc a) b) num 0 None \<in>
          {Returns (Inl (k, of_nat c)), Returns (Inr (k, Some (of_nat c)))}"
      ultimately show ?thesis unfolding eq using c(1) by (intro disjI2 exI [of _ c] exI [of _ k]) auto
    qed
  qed
qed

section \<open>Reading and writing entries\<close>

locale fat_volume = block_device bio contents for bio :: "'s block_io" and contents :: "'s \<Rightarrow> u8 list" +
  fixes f :: fat
  assumes ok: "fat_ok f"
begin

lemma mirrors_pos: "0 < unat (mirrors f)" and limit_small: "fat_limit f \<le> 0x0FFFFFF7"
  using ok by (simp_all add: fat_ok_def)

lemmas end_eq = unat_allocable_end [OF ok]

lemma get_raw_ok:
  assumes "fat_fits f (contents s)" and "unat c < fat_limit f"
  shows "\<exists>s'. fat_get_raw bio f s c = Returns (s', Inr (fat_word f (contents s) (unat c))) \<and>
    contents s' = contents s"
proof -
  note off = fat_offset_eq [OF assms(1) bio_small mirrors_pos assms(2)]
  have "unat (fat_offset f 0 c) + 4 \<le> length (contents s)" using off assms(2) by simp
  from bio_read_ok [OF this] obtain s' where
    "bio_read bio s (fat_offset f 0 c) 4 =
      (s', Inr (slice_at (unat (fat_offset f 0 c)) 4 (contents s)))" "contents s' = contents s" by blast
  moreover have "\<not> allocable_end f \<le> c" using assms(2) end_eq by (simp add: word_le_nat_alt)
  ultimately show ?thesis using off(1) by (simp add: fat_get_raw_def fat_word_def)
qed

lemma get_ok:
  assumes "fat_fits f (contents s)" and "unat c < fat_limit f"
  shows "\<exists>s'. fat_get bio f s c = Returns (s', Inr (fat_view f (contents s) (unat c))) \<and>
    contents s' = contents s"
  using get_raw_ok [OF assms] by (auto simp: fat_get_def fat_view_def)

lemma get_out: "fat_limit f \<le> unat c \<Longrightarrow> fat_get bio f s c = Returns (s, Inl EINVAL)"
  using end_eq by (simp add: fat_get_def fat_get_raw_def word_le_nat_alt)

lemma write_mirrors_ok:
  assumes "fat_fits f (contents s)" and "\<forall>m \<in> set ms. m < unat (mirrors f)" and "2 \<le> unat c"
    and "length bytes = 4 * k" and "unat c + k \<le> fat_limit f" and "0 < k"
  shows "\<exists>s'. write_mirrors bio f c bytes ms s = Returns (s', Inr ()) \<and>
    fat_fits f (contents s') \<and>
    (\<forall>c' < fat_limit f. fat_word f (contents s') c' =
      (if 0 \<in> set ms \<and> unat c \<le> c' \<and> c' < unat c + k then of_le (slice_at (4 * (c' - unat c)) 4 bytes)
       else fat_word f (contents s) c'))"
  using assms(1,2)
proof (induction ms arbitrary: s)
  case Nil
  then show ?case by simp
next
  case (Cons m ms)
  have m: "m < unat (mirrors f)" using Cons.prems(2) by simp
  have c: "unat c < fat_limit f" using assms(5,6) by simp
  note off = fat_offset_eq [OF Cons.prems(1) bio_small m c]
  let ?off = "unat (fat_offset f (of_nat m) c)"
  have fits: "?off + length bytes \<le> length (contents s)" using off assms(4,5) by simp
  from bio_write_ok [OF this] obtain s1 where s1: "bio_write bio s (fat_offset f (of_nat m) c) bytes = (s1, Inr ())"
    "contents s1 = overwrite ?off bytes (contents s)" by blast
  have f1: "fat_fits f (contents s1)" using Cons.prems(1) fits by (simp add: fat_fits_def s1(2))
  have word: "fat_word f (contents s1) c' =
      (if m = 0 \<and> unat c \<le> c' \<and> c' < unat c + k then of_le (slice_at (4 * (c' - unat c)) 4 bytes)
       else fat_word f (contents s) c')" if c': "c' < fat_limit f" for c'
  proof (cases "m = 0 \<and> unat c \<le> c' \<and> c' < unat c + k")
    case True
    then obtain j where j: "c' = unat c + j" "j < k" by (metis le_Suc_ex nat_add_left_cancel_less)
    then have "slice_at (unat (start_offset f) + 4 * c') 4 (contents s1) =
        slice_at (4 * (c' - unat c)) 4 (slice_at ?off (4 * k) (contents s1))"
      using True off(1) by (subst slice_slice) (simp_all add: add_ac)
    also have "slice_at ?off (4 * k) (contents s1) = bytes"
      unfolding s1(2) by (rule slice_overwrite_same) (use fits assms(4) in auto)
    finally show ?thesis using True by (simp add: fat_word_def)
  next
    case False
    have "unat (start_offset f) + 4 * c' + 4 \<le> ?off \<or> ?off + length bytes \<le> unat (start_offset f) + 4 * c'"
    proof (cases "m = 0")
      case True
      with False off(1) assms(4) show ?thesis by auto
    next
      case m0: False
      then have "4 * unat (cluster_count f) \<le> 4 * unat (cluster_count f) * m" by simp
      then have "unat (start_offset f) + 4 * c' + 4 \<le> ?off"
        using off(1) assms(3) c' unfolding fat_limit_def by linarith
      then show ?thesis ..
    qed
    from slice_overwrite_other [OF fits this] False show ?thesis by (auto simp: fat_word_def s1(2))
  qed
  from Cons.IH [OF f1] Cons.prems(2) obtain s' where s': "write_mirrors bio f c bytes ms s1 = Returns (s', Inr ())"
    "fat_fits f (contents s')"
    "\<forall>c' < fat_limit f. fat_word f (contents s') c' =
      (if 0 \<in> set ms \<and> unat c \<le> c' \<and> c' < unat c + k then of_le (slice_at (4 * (c' - unat c)) 4 bytes)
       else fat_word f (contents s1) c')" by auto
  show ?case
  proof (intro exI conjI)
    show "write_mirrors bio f c bytes (m # ms) s = Returns (s', Inr ())" using s1(1) s'(1) by simp
    show "fat_fits f (contents s')" by fact
    show "\<forall>c' < fat_limit f. fat_word f (contents s') c' =
      (if 0 \<in> set (m # ms) \<and> unat c \<le> c' \<and> c' < unat c + k
       then of_le (slice_at (4 * (c' - unat c)) 4 bytes) else fat_word f (contents s) c')"
      using s'(3) word by auto
  qed
qed

lemma set_ok:
  assumes "fat_fits f (contents s)" and "2 \<le> unat c" and "unat c < fat_limit f" and "entry_ok e"
  shows "\<exists>s'. fat_set bio f s c e = Returns (s', Inr ()) \<and> fat_fits f (contents s') \<and>
    (\<forall>c' < fat_limit f. fat_view f (contents s') c' =
      (if c' = unat c then e else fat_view f (contents s) c'))"
proof -
  note ns = not_special [OF ok assms(3)]
  from get_raw_ok [OF assms(1,3)] obtain s1 where s1:
    "fat_get_raw bio f s c = Returns (s1, Inr (fat_word f (contents s) (unat c)))"
    "contents s1 = contents s" by blast
  let ?w = "(fat_word f (contents s) (unat c) AND 0xF0000000) OR entry_raw e"
  have mem: "\<forall>m \<in> set [0..<unat (mirrors f)]. m < unat (mirrors f)" "0 \<in> set [0..<unat (mirrors f)]"
    using mirrors_pos by auto
  from write_mirrors_ok [of s1 "[0..<unat (mirrors f)]" c "le_bytes 4 ?w" 1] s1(2) assms mem
  obtain s' where s': "write_mirrors bio f c (le_bytes 4 ?w) [0..<unat (mirrors f)] s1 = Returns (s', Inr ())"
    "fat_fits f (contents s')"
    "\<forall>c' < fat_limit f. fat_word f (contents s') c' =
      (if unat c \<le> c' \<and> c' < unat c + 1 then of_le (slice_at (4 * (c' - unat c)) 4 (le_bytes 4 ?w))
       else fat_word f (contents s) c')" by auto
  have sl: "slice_at 0 4 (le_bytes 4 ?w) = le_bytes 4 ?w" by (simp add: slice_at_def)
  have "fat_view f (contents s') c' = (if c' = unat c then e else fat_view f (contents s) c')"
    if "c' < fat_limit f" for c'
    using s'(3) that from_into_raw [OF ns assms(4)] sl by (auto simp: fat_view_def)
  then show ?thesis using s1(1) s'(1,2) by (auto simp: fat_set_def into_raw_ok [OF ns])
qed

lemma iter_next_ok:
  assumes "fat_fits f (contents s)" and "unat c < fat_limit f"
  shows "\<exists>s'. iter_next bio f s c = Returns (s', Inr (case fat_view f (contents s) (unat c) of
      Next n \<Rightarrow> Some n | _ \<Rightarrow> None)) \<and> contents s' = contents s"
  using get_ok [OF assms] by (auto simp: iter_next_def)

lemma iter_next_out: "fat_limit f \<le> unat c \<Longrightarrow> iter_next bio f s c = Returns (s, Inl EINVAL)"
  using get_out by (simp add: iter_next_def)

lemma set_out: "fat_limit f \<le> unat c \<Longrightarrow> fat_set bio f s c e = Returns (s, Inl EINVAL)"
  using end_eq by (simp add: fat_set_def fat_get_raw_def word_le_nat_alt)

lemma truncate_ok:
  assumes "fat_fits f (contents s)" and "2 \<le> unat c" and "unat c < fat_limit f"
  shows "\<exists>s'. fat_truncate bio f s c = Some (Returns (s', Inr 0)) \<and>
    (\<forall>c' < fat_limit f. fat_view f (contents s') c' =
      (if c' = unat c then End else fat_view f (contents s) c'))"
proof -
  have "entry_ok End" by (simp add: entry_ok_def)
  from set_ok [OF assms this] obtain s1 where s1: "fat_set bio f s c End = Returns (s1, Inr ())"
    "fat_fits f (contents s1)"
    "\<forall>c' < fat_limit f. fat_view f (contents s1) c' =
      (if c' = unat c then End else fat_view f (contents s) c')" by blast
  from iter_next_ok [OF s1(2) assms(3)] s1(3) assms(3) obtain s2 where
    "iter_next bio f s1 c = Returns (s2, Inr None)" "contents s2 = contents s1" by auto
  then show ?thesis using s1 by (auto simp: fat_truncate_def)
qed

lemma free_loop_None: "free_loop bio f s None acc = Some (Returns (s, Inr acc))"
  by (subst free_loop.simps) simp

lemma free_loop_total:
  assumes "fat_fits f (contents s)" and "links_ok f (contents s)"
    and "\<forall>c. cur = Some (Inr c) \<longrightarrow> 2 \<le> unat c"
  shows "\<exists>s' r. free_loop bio f s cur acc = Some (Returns (s', r)) \<and> fat_fits f (contents s') \<and>
    (\<forall>c < fat_limit f. fat_view f (contents s') c \<in> {fat_view f (contents s) c, Free})"
  using assms
proof (induction "card (links f (contents s)) + (if cur = None \<or> (\<exists>e. cur = Some (Inl e)) then 0 else 1)"
    arbitrary: s cur acc rule: less_induct)
  case less
  consider (none) "cur = None" | (err) e where "cur = Some (Inl e)" | (cl) c where "cur = Some (Inr c)"
    by (cases cur; cases "the cur") auto
  then show ?case
  proof cases
    case none
    then show ?thesis using less.prems by (subst free_loop.simps) auto
  next
    case err
    then show ?thesis using less.prems by (subst free_loop.simps) auto
  next
    case cl
    then have c2: "2 \<le> unat c" using less.prems(3) by simp
    show ?thesis
    proof (cases "unat c < fat_limit f")
      case False
      then show ?thesis
        using less.prems cl by (subst free_loop.simps) (auto simp: iter_next_out set_out)
    next
      case True
      let ?e = "fat_view f (contents s) (unat c)"
      from iter_next_ok [OF less.prems(1) True] obtain s1 where s1:
        "iter_next bio f s c = Returns (s1, Inr (case ?e of Next n \<Rightarrow> Some n | _ \<Rightarrow> None))"
        "contents s1 = contents s" by blast
      have "entry_ok Free" by (simp add: entry_ok_def)
      from set_ok [OF _ c2 True this, of s1] less.prems(1) s1(2) obtain s2 where s2:
        "fat_set bio f s1 c Free = Returns (s2, Inr ())" "fat_fits f (contents s2)"
        "\<forall>c' < fat_limit f. fat_view f (contents s2) c' =
          (if c' = unat c then Free else fat_view f (contents s) c')" by auto
      have lk: "links f (contents s2) = links f (contents s) - {unat c}"
        using s2(3) by (auto simp: links_def split: if_splits)
      have ok2: "links_ok f (contents s2)"
        using less.prems(2) s2(3) by (auto simp: links_ok_def split: if_splits)
      have step: "free_loop bio f s cur acc = free_loop bio f s2
          (case ?e of Next n \<Rightarrow> Some (Inr n) | _ \<Rightarrow> None) (acc + 1)"
        using cl s1 s2(1) by (subst free_loop.simps) (auto split: fat_entry.splits)
      have "\<exists>s' r. free_loop bio f s2 (case ?e of Next n \<Rightarrow> Some (Inr n) | _ \<Rightarrow> None) (acc + 1) =
          Some (Returns (s', r)) \<and> fat_fits f (contents s') \<and>
        (\<forall>c < fat_limit f. fat_view f (contents s') c \<in> {fat_view f (contents s2) c, Free})"
      proof (cases "\<exists>n. ?e = Next n")
        case False
        then have eq: "(case ?e of Next n \<Rightarrow> Some (Inr n) | _ \<Rightarrow> None) = None"
          by (auto split: fat_entry.splits)
        show ?thesis unfolding eq free_loop_None using s2(2) by blast
      next
        case nx: True
        then obtain n where n: "?e = Next n" by blast
        then have "unat c \<in> links f (contents s)" using True by (auto simp: links_def)
        then have "card (links f (contents s2)) < card (links f (contents s))"
          unfolding lk using finite_links [of f "contents s"] by (metis card_Diff1_less)
        moreover have "2 \<le> unat n" using less.prems(2) True n by (auto simp: links_ok_def)
        ultimately show ?thesis
          using less.hyps [of s2 "Some (Inr n)" "acc + 1"] s2(2) ok2 cl n by auto
      qed
      then show ?thesis using step s2(3) by (auto split: if_splits)
    qed
  qed
qed

lemma unat_of_cluster: "c < fat_limit f \<Longrightarrow> unat (of_nat c :: u32) = c"
  using not_special_nat [OF ok] by blast

lemma free_chain:
  assumes "fat_fits f (contents s)" and "chain_of f (contents s) ks" and "distinct ks"
  shows "\<exists>s'. free_loop bio f s (Some (Inr (of_nat (hd ks)))) acc =
      Some (Returns (s', Inr (acc + length ks))) \<and> fat_fits f (contents s') \<and>
    (\<forall>c < fat_limit f. fat_view f (contents s') c =
      (if c \<in> set ks then Free else fat_view f (contents s) c))"
  using assms
proof (induction ks arbitrary: s acc)
  case (Cons k ks)
  have k: "2 \<le> k" "k < fat_limit f" using chain_of_bounds [OF Cons.prems(2)] by auto
  let ?c = "of_nat k :: u32"
  have uk: "unat ?c = k" by (rule unat_of_cluster) (rule k)
  let ?e = "fat_view f (contents s) k"
  from iter_next_ok [OF Cons.prems(1), of ?c] k uk obtain s1 where s1:
    "iter_next bio f s ?c = Returns (s1, Inr (case ?e of Next n \<Rightarrow> Some n | _ \<Rightarrow> None))"
    "contents s1 = contents s" by auto
  have "entry_ok Free" by (simp add: entry_ok_def)
  from set_ok [of s1 ?c Free] this Cons.prems(1) s1(2) k uk obtain s2 where s2:
    "fat_set bio f s1 ?c Free = Returns (s2, Inr ())" "fat_fits f (contents s2)"
    "\<forall>c' < fat_limit f. fat_view f (contents s2) c' =
      (if c' = k then Free else fat_view f (contents s) c')" by auto
  show ?case
  proof (cases ks)
    case Nil
    with Cons.prems(2) have "(case ?e of Next n \<Rightarrow> Some n | _ \<Rightarrow> None) = None"
      by (auto split: fat_entry.splits)
    then have "free_loop bio f s (Some (Inr ?c)) acc = Some (Returns (s2, Inr (acc + 1)))"
      using s1(1) s2(1) by (subst free_loop.simps) (simp add: free_loop_None)
    then show ?thesis using Nil s2(2,3) by auto
  next
    case (Cons d ds)
    with Cons.prems(2) have e: "?e = Next (of_nat d)" and ch: "chain_of f (contents s) ks" by auto
    have "chain_of f (contents s2) ks"
      by (rule chain_of_cong [OF ch])
        (use s2(3) chain_of_bounds [OF ch] Cons.prems(3) in auto)
    from Cons.IH [OF s2(2) this, of "acc + 1"] Cons.prems(3) obtain s' where s':
      "free_loop bio f s2 (Some (Inr (of_nat (hd ks)))) (acc + 1) = Some (Returns (s', Inr (acc + 1 + length ks)))"
      "fat_fits f (contents s')"
      "\<forall>c < fat_limit f. fat_view f (contents s') c =
        (if c \<in> set ks then Free else fat_view f (contents s2) c)" by auto
    have "free_loop bio f s (Some (Inr ?c)) acc = free_loop bio f s2 (Some (Inr (of_nat (hd ks)))) (acc + 1)"
      using s1(1) s2(1) e Cons by (subst free_loop.simps) simp
    then show ?thesis using s' s2(3) by auto
  qed
qed simp

lemma get_range_raw_ok:
  assumes "fat_fits f (contents s)" and "unat start \<le> fat_limit f" and "n < 2 ^ 28"
  shows "\<exists>s'. fat_get_range_raw bio f s start n = Returns (s', Inr
      (map (fat_word f (contents s)) [unat start..<min (unat start + n) (fat_limit f)])) \<and>
    contents s' = contents s"
proof -
  define fin where "fin = min (start + of_nat n) (allocable_end f)"
  have n: "unat (of_nat n :: u32) = n" using assms(3) by (simp add: unat_of_nat)
  have "unat (start + of_nat n) = unat start + n"
    using assms(2,3) limit_small by (subst unat_add_no_overflow) (simp_all add: n)
  then have fin: "unat fin = min (unat start + n) (fat_limit f)"
    unfolding fin_def by (simp add: min_def word_le_nat_alt end_eq)
  have le: "unat start \<le> unat fin" using fin assms(2) by simp
  have call: "fat_get_range_raw bio f s start n =
      (if start = fin then Returns (s, Inr [])
       else io_bind (Returns (bio_read bio s (fat_offset f 0 start) (4 * unat (fin - start)))) (\<lambda>s bytes.
         Returns (s, Inr (u32s_of_bytes bytes))))"
    using le assms(3)
    by (simp add: fat_get_range_raw_def try_u32_def Let_def word_less_nat_alt flip: fin_def)
  show ?thesis
  proof (cases "start = fin")
    case True
    then have "[unat start..<min (unat start + n) (fat_limit f)] = []" using fin by simp
    with True call show ?thesis by (simp del: upt_eq_Nil_conv)
  next
    case False
    then have lt: "unat start < unat fin" using le by (simp add: word_unat_eq_iff)
    then have s_lt: "unat start < fat_limit f" using fin by simp
    define k where "k = unat fin - unat start"
    have k: "unat (fin - start) = k" using le by (simp add: unat_sub word_le_nat_alt k_def)
    note off = fat_offset_eq [OF assms(1) bio_small mirrors_pos s_lt]
    have "unat fin \<le> fat_limit f" using fin by simp
    then have fits: "unat (fat_offset f 0 start) + 4 * k \<le> length (contents s)"
      using off lt by (simp add: k_def)
    from bio_read_ok [OF this] obtain s' where s':
      "bio_read bio s (fat_offset f 0 start) (4 * k) =
        (s', Inr (slice_at (unat (fat_offset f 0 start)) (4 * k) (contents s)))"
      "contents s' = contents s" by blast
    have "u32s_of_bytes (slice_at (unat (fat_offset f 0 start)) (4 * k) (contents s)) =
        map (\<lambda>i. fat_word f (contents s) (unat start + i)) [0..<k]"
      using u32s_of_bytes_slice [OF fits] off(1) by (simp add: fat_word_def add_ac)
    also have "\<dots> = map (fat_word f (contents s)) (map (\<lambda>i. i + unat start) [0..<k])"
      by (simp add: comp_def add.commute)
    also have "map (\<lambda>i. i + unat start) [0..<k] = [unat start..<unat fin]"
      using map_add_upt [of "unat start" k] lt by (simp add: k_def)
    finally show ?thesis
      using s' False fin by (intro exI [of _ s']) (simp add: call k)
  qed
qed

lemma number_from_upt:
  assumes "b \<le> fat_limit f"
  shows "number_from start (map g [unat start..<b]) = map (\<lambda>c. (of_nat c, g c)) [unat start..<b]"
proof -
  have "map (\<lambda>i. start + of_nat i) [0..<b - unat start] = map of_nat [unat start..<b]"
  proof (rule nth_equalityI)
    fix i assume "i < length (map (\<lambda>i. start + of_nat i :: u32) [0..<b - unat start])"
    then show "map (\<lambda>i. start + of_nat i) [0..<b - unat start] ! i = (map of_nat [unat start..<b] ! i :: u32)"
      by simp
  qed simp
  then show ?thesis by (simp add: number_from_def zip_map_map zip_same_conv_map comp_def)
qed

lemma get_range_ok:
  assumes "fat_fits f (contents s)" and "unat start \<le> fat_limit f" and "n < 2 ^ 28"
  shows "\<exists>s'. fat_get_range bio f s start n = Returns (s', Inr
      (map (\<lambda>c. (of_nat c, fat_view f (contents s) c)) [unat start..<min (unat start + n) (fat_limit f)])) \<and>
    contents s' = contents s"
  using get_range_raw_ok [OF assms]
  by (auto simp: fat_get_range_def number_from_upt fat_view_def comp_def)

lemma merge_entries_ok:
  assumes "length entries = length raws" and "\<forall>(c, r) \<in> set raws. \<not> special_cluster c"
  shows "merge_entries raws entries =
    Returns (map (\<lambda>((c, r), e). (r AND 0xF0000000) OR entry_raw e) (zip raws entries))"
  using assms
proof (induction raws entries rule: merge_entries.induct)
  case (1 c r raws e entries)
  then show ?case by (simp add: into_raw_ok)
qed simp_all

lemma set_range_ok:
  assumes "fat_fits f (contents s)" and "2 \<le> unat start" and "unat start + length entries \<le> fat_limit f"
    and "0 < length entries" and "list_all entry_ok entries"
  shows "\<exists>s'. fat_set_range bio f s start (length entries) entries = Returns (s', Inr ()) \<and>
    fat_fits f (contents s') \<and>
    (\<forall>c < fat_limit f. fat_view f (contents s') c =
      (if unat start \<le> c \<and> c < unat start + length entries then entries ! (c - unat start)
       else fat_view f (contents s) c))"
proof -
  let ?n = "length entries"
  have n: "?n < 2 ^ 28" using assms(3) limit_small by simp
  from get_range_raw_ok [OF assms(1) _ n, of start] assms(3) obtain s1 where s1:
    "fat_get_range_raw bio f s start ?n = Returns (s1, Inr
      (map (fat_word f (contents s)) [unat start..<unat start + ?n]))"
    "contents s1 = contents s" by (auto simp: min_absorb1)
  define raws where "raws = map (\<lambda>c. (of_nat c :: u32, fat_word f (contents s) c)) [unat start..<unat start + ?n]"
  have nf: "number_from start (map (fat_word f (contents s)) [unat start..<unat start + ?n]) = raws"
    unfolding raws_def by (rule number_from_upt) (rule assms(3))
  define ws where "ws = map (\<lambda>((c, r), e). (r AND 0xF0000000) OR entry_raw e) (zip raws entries)"
  have merge: "merge_entries raws entries = Returns ws"
    unfolding ws_def by (rule merge_entries_ok) (use not_special_nat [OF ok] assms(3) in \<open>auto simp: raws_def\<close>)
  have len: "length ws = ?n" by (simp add: ws_def raws_def)
  have mem: "\<forall>m \<in> set [0..<unat (mirrors f)]. m < unat (mirrors f)" "0 \<in> set [0..<unat (mirrors f)]"
    using mirrors_pos by auto
  from write_mirrors_ok [of s1 "[0..<unat (mirrors f)]" start "bytes_of_u32s ws" ?n] s1(2) assms mem len
  obtain s' where s': "write_mirrors bio f start (bytes_of_u32s ws) [0..<unat (mirrors f)] s1 = Returns (s', Inr ())"
    "fat_fits f (contents s')"
    "\<forall>c < fat_limit f. fat_word f (contents s') c =
      (if unat start \<le> c \<and> c < unat start + ?n
       then of_le (slice_at (4 * (c - unat start)) 4 (bytes_of_u32s ws)) else fat_word f (contents s) c)"
    by auto
  have view: "fat_view f (contents s') c =
      (if unat start \<le> c \<and> c < unat start + ?n then entries ! (c - unat start)
       else fat_view f (contents s) c)" if c: "c < fat_limit f" for c
  proof (cases "unat start \<le> c \<and> c < unat start + ?n")
    case True
    define i where "i = c - unat start"
    have i: "i < ?n" "c = unat start + i" using True by (auto simp: i_def)
    have ns: "\<not> special_cluster (of_nat c)" using not_special_nat [OF ok c] by blast
    have eo: "entry_ok (entries ! i)" using assms(5) i(1) by (simp add: list_all_length)
    have "ws ! i = (fat_word f (contents s) c AND 0xF0000000) OR entry_raw (entries ! i)"
      using i by (simp add: ws_def raws_def)
    then have "fat_word f (contents s') c = (fat_word f (contents s) c AND 0xF0000000) OR entry_raw (entries ! i)"
      using s'(3) c True slice_bytes_of_u32s [of i ws] i len by (simp add: i_def [symmetric])
    then show ?thesis using True from_into_raw [OF ns eo] by (simp add: fat_view_def i_def)
  next
    case False
    then show ?thesis using s'(3) c by (auto simp: fat_view_def)
  qed
  show ?thesis
    using s1(1) merge s'(1,2) view by (auto simp: fat_set_range_def nf)
qed

lemma find_free_loop_ok:
  assumes "fat_fits f (contents s)" and "unat fin \<le> fat_limit f" and "0 < num" and "0 < k" and "k < 2 ^ 28"
    and "st \<le> fat_limit f"
  shows "\<exists>s'. contents s' = contents s \<and>
    (let r = find_free_loop bio f fin num k
        (map (\<lambda>i. of_nat (st + i * k)) [0..<(unat fin - st + k - 1) div k]) s in
     (\<forall>c \<in> {st..<unat fin}. fat_view f (contents s) c \<noteq> Free) \<and> r = Returns (s', Inl ENOSPC) \<or>
     (\<exists>c n. st \<le> c \<and> (\<forall>c' \<in> {st..<c}. fat_view f (contents s) c' \<noteq> Free) \<and> 0 < n \<and> n \<le> num \<and>
       n \<le> k \<and> free_run (fat_view f (contents s)) c n \<and> c + n \<le> unat fin \<and> r = Returns (s', Inr (n, of_nat c))))"
  using assms(1,6)
proof (induction "unat fin - st" arbitrary: s st rule: less_induct)
  case less
  let ?v = "fat_view f (contents s)"
  let ?starts = "\<lambda>st. map (\<lambda>i. of_nat (st + i * k) :: u32) [0..<(unat fin - st + k - 1) div k]"
  show ?case
  proof (cases "st < unat fin")
    case False
    then have "?starts st = []" using assms(4) by simp
    then show ?thesis using False by (intro exI [of _ s]) (auto simp: Let_def)
  next
    case True
    have m: "(unat fin - st + k - 1) div k = Suc ((unat fin - (st + k) + k - 1) div k)"
    proof (cases "st + k \<le> unat fin")
      case True
      then have eq: "unat fin - st + k - 1 = (unat fin - (st + k) + k - 1) + k" using assms(4) by simp
      have "((unat fin - (st + k) + k - 1) + k) div k = Suc ((unat fin - (st + k) + k - 1) div k)"
        using div_add_self2 [of k "unat fin - (st + k) + k - 1"] assms(4) by simp
      then show ?thesis unfolding eq .
    next
      case far: False
      then have eq: "unat fin - st + k - 1 = (unat fin - st - 1) + k" "unat fin - st - 1 < k"
        using True assms(4) by simp_all
      have "((unat fin - st - 1) + k) div k = Suc 0"
        using div_add_self2 [of k "unat fin - st - 1"] eq(2) assms(4) by simp
      moreover have "(unat fin - (st + k) + k - 1) div k = 0" using far assms(4) by simp
      ultimately show ?thesis unfolding eq(1) by simp
    qed
    have starts: "?starts st = of_nat st # ?starts (st + k)"
    proof -
      have up: "[0..<Suc j] = 0 # map Suc [0..<j]" for j
        by (simp add: map_Suc_upt upt_conv_Cons del: upt_Suc)
      have "st + Suc i * k = st + k + i * k" for i by simp
      then show ?thesis unfolding m up by (simp only: list.map map_map comp_def mult_0 add_0_right)
    qed
    have st: "unat (of_nat st :: u32) = st" by (rule unat_of_cluster) (use True assms(2) in simp)
    define b where "b = min (st + k) (unat fin)"
    have sub: "unat (fin - of_nat st) = unat fin - st"
      using True st by (simp add: unat_sub word_le_nat_alt)
    have range: "min (st + min k (unat fin - st)) (fat_limit f) = b"
      using True assms(2) unfolding b_def by linarith
    have small: "min k (unat fin - st) < 2 ^ 28" using assms(5) by simp
    have "unat (of_nat st :: u32) \<le> fat_limit f" using st less.prems(2) by simp
    from get_range_ok [OF less.prems(1) this small] obtain s1 where s1: "fat_get_range bio f s (of_nat st) (min k (unat fin - st)) =
        Returns (s1, Inr (cells ?v st b))" "contents s1 = contents s"
      unfolding st by (auto simp: range)
    from scan_first [OF assms(3), of st b ?v] show ?thesis
    proof (elim disjE exE conjE)
      fix c n
      assume c: "st \<le> c" "\<forall>c' \<in> {st..<c}. ?v c' \<noteq> Free" "0 < n" "n \<le> num" "free_run ?v c n" "c + n \<le> b"
        "scan_batch (cells ?v st b) num 0 None \<in>
          {Returns (Inl (n, of_nat c)), Returns (Inr (n, Some (of_nat c)))}"
      then have "find_free_loop bio f fin num k (?starts st) s = Returns (s1, Inr (n, of_nat c))"
        unfolding starts using s1(1) by (auto simp: sub)
      moreover have "n \<le> k" "c + n \<le> unat fin" using c(1,6) by (simp_all add: b_def)
      ultimately show ?thesis
        unfolding Let_def using c(1-5) s1(2) by blast
    next
      assume none: "\<forall>c \<in> {st..<b}. ?v c \<noteq> Free"
        "scan_batch (cells ?v st b) num 0 None = Returns (Inr (0, None))"
      then have step: "find_free_loop bio f fin num k (?starts st) s =
          find_free_loop bio f fin num k (?starts (st + k)) s1"
        unfolding starts using s1(1) by (simp add: sub)
      show ?thesis
      proof (cases "st + k \<le> unat fin")
        case False
        then have "?starts (st + k) = []" using assms(4) by simp
        moreover have "b = unat fin" using False by (simp add: b_def)
        ultimately show ?thesis
          unfolding Let_def step using none(1) s1(2) by (intro exI [of _ s1]) auto
      next
        case in_range: True
        then have b: "b = st + k" by (simp add: b_def)
        have "unat fin - (st + k) < unat fin - st" using True assms(4) by simp
        from less.hyps [OF this, of s1] less.prems s1(2) in_range assms(2) obtain s' where
          "contents s' = contents s" and
          r: "(\<forall>c \<in> {st + k..<unat fin}. ?v c \<noteq> Free) \<and>
              find_free_loop bio f fin num k (?starts (st + k)) s1 = Returns (s', Inl ENOSPC) \<or>
            (\<exists>c n. st + k \<le> c \<and> (\<forall>c' \<in> {st + k..<c}. ?v c' \<noteq> Free) \<and> 0 < n \<and> n \<le> num \<and> n \<le> k \<and>
              free_run ?v c n \<and> c + n \<le> unat fin \<and>
              find_free_loop bio f fin num k (?starts (st + k)) s1 = Returns (s', Inr (n, of_nat c)))"
          by (auto simp: Let_def)
        have ext: "\<forall>c' \<in> {st..<c}. ?v c' \<noteq> Free" if "\<forall>c' \<in> {st + k..<c}. ?v c' \<noteq> Free" for c
          using none(1) that unfolding b by (metis atLeastLessThan_iff not_le)
        show ?thesis
          unfolding Let_def step
        proof (intro exI [of _ s'] conjI)
          show "contents s' = contents s" by fact
          from r show "(\<forall>c \<in> {st..<unat fin}. ?v c \<noteq> Free) \<and>
              find_free_loop bio f fin num k (?starts (st + k)) s1 = Returns (s', Inl ENOSPC) \<or>
            (\<exists>c n. st \<le> c \<and> (\<forall>c' \<in> {st..<c}. ?v c' \<noteq> Free) \<and> 0 < n \<and> n \<le> num \<and> n \<le> k \<and>
              free_run ?v c n \<and> c + n \<le> unat fin \<and>
              find_free_loop bio f fin num k (?starts (st + k)) s1 = Returns (s', Inr (n, of_nat c)))"
            using ext by (meson add_leD1)
        qed
      qed
    qed
  qed
qed

lemma step_by_eq:
  "0 < k \<Longrightarrow> step_by start fin k =
    Returns (map (\<lambda>i. of_nat (unat start + i * k)) [0..<(unat fin - unat start + k - 1) div k])"
  by (simp add: step_by_def)

lemma unat_allocable_start: "unat allocable_start = 2"
  by (simp add: allocable_start_def RESERVED_FAT_ENTRIES_def)

lemma find_free_from:
  assumes "fat_fits f (contents s)" and "0 < num" and "0 < k" and "k < 2 ^ 28"
    and st_def: "st = max (unat h) 2"
  shows "\<exists>s'. contents s' = contents s \<and>
    (let r = fat_find_free bio f s (Included h, Unbounded) num k in
     (\<forall>c \<in> {st..<fat_limit f}. fat_view f (contents s) c \<noteq> Free) \<and> r = Returns (s', Inl ENOSPC) \<or>
     (\<exists>c n. st \<le> c \<and> (\<forall>c' \<in> {st..<c}. fat_view f (contents s) c' \<noteq> Free) \<and> 0 < n \<and> n \<le> num \<and>
       n \<le> k \<and> free_run (fat_view f (contents s)) c n \<and> c + n \<le> fat_limit f \<and>
       r = Returns (s', Inr (n, of_nat c))))"
proof -
  have start: "unat (range_start f (Included h)) = st"
    unfolding range_start_def st_def
    by (simp add: max_def word_le_nat_alt unat_allocable_start)
  have fin: "unat (range_end f Unbounded) = fat_limit f" by (simp add: range_end_def end_eq)
  have eq: "fat_find_free bio f s (Included h, Unbounded) num k =
      find_free_loop bio f (range_end f Unbounded) num k
        (map (\<lambda>i. of_nat (st + i * k)) [0..<(unat (range_end f Unbounded) - st + k - 1) div k]) s"
    unfolding fat_find_free_def Let_def fst_conv snd_conv step_by_eq [OF assms(3)] start by simp
  show ?thesis
  proof (cases "st \<le> fat_limit f")
    case True
    from find_free_loop_ok [OF assms(1) _ assms(2,3,4) True, of "range_end f Unbounded"] fin
    show ?thesis unfolding eq by simp
  next
    case False
    then have "(unat (range_end f Unbounded) - st + k - 1) div k = 0" using assms(3) fin by simp
    then show ?thesis unfolding eq using False by (intro exI [of _ s]) (simp add: Let_def)
  qed
qed

lemma find_free_below:
  assumes "0 < k"
  shows "fat_find_free bio f s (Unbounded, Excluded h) num k = Returns (s, Inl ENOSPC)"
proof -
  have "unat (range_end f (Excluded h)) \<le> unat (range_start f Unbounded)"
    by (simp add: range_end_def range_start_def word_le_nat_alt [symmetric])
  then have "(unat (range_end f (Excluded h)) - unat (range_start f Unbounded) + k - 1) div k = 0"
    using assms by simp
  then show ?thesis unfolding fat_find_free_def Let_def fst_conv snd_conv step_by_eq [OF assms] by simp
qed

lemma allocate_none:
  assumes "fat_fits f (contents s)" and "0 < num"
    and "\<forall>c \<in> {max (unat (case hint of None \<Rightarrow> allocable_start | Some h \<Rightarrow> h)) 2..<fat_limit f}.
      fat_view f (contents s) c \<noteq> Free"
  shows "\<exists>s'. fat_allocate bio f s prev hint num = Returns (s', Inl ENOSPC) \<and> contents s' = contents s"
proof -
  let ?h = "case hint of None \<Rightarrow> allocable_start | Some h \<Rightarrow> h"
  let ?k = "min ALLOCATE_BATCH_LEN num"
  have k: "0 < ?k" "?k < 2 ^ 28" using assms(2) by (simp_all add: ALLOCATE_BATCH_LEN_def)
  from find_free_from [OF assms(1,2) k refl, of ?h] obtain s' where s': "contents s' = contents s"
    "fat_find_free bio f s (Included ?h, Unbounded) num ?k = Returns (s', Inl ENOSPC) \<or>
      (\<exists>c n. max (unat ?h) 2 \<le> c \<and> 0 < n \<and> free_run (fat_view f (contents s)) c n \<and> c + n \<le> fat_limit f)"
    unfolding Let_def by blast
  have False if "max (unat ?h) 2 \<le> c" "0 < n" "free_run (fat_view f (contents s)) c n" "c + n \<le> fat_limit f"
    for c n
  proof -
    have "fat_view f (contents s) c = Free" using that(2,3) by (auto simp: free_run_def)
    moreover have "c \<in> {max (unat ?h) 2..<fat_limit f}" using that by simp
    ultimately show False using assms(3) by blast
  qed
  with s' have "fat_find_free bio f s (Included ?h, Unbounded) num ?k = Returns (s', Inl ENOSPC)" by blast
  with s'(1) show ?thesis
    unfolding fat_allocate_def Let_def by (simp add: find_free_below [OF k(1)])
qed

lemma entry_ok_Next: "0 < c \<Longrightarrow> c < fat_limit f \<Longrightarrow> entry_ok (Next (of_nat c))"
  using unat_of_cluster [of c] limit_small by (simp add: entry_ok_def)

lemma set_prev_ok:
  assumes "fat_fits f (contents s)" and "0 < c" and "c < fat_limit f"
    and "case prev of None \<Rightarrow> True | Some p \<Rightarrow> 2 \<le> unat p \<and> unat p < fat_limit f"
  shows "\<exists>s'. (case prev of None \<Rightarrow> Returns (s, Inr ()) | Some p \<Rightarrow> fat_set bio f s p (Next (of_nat c))) =
      Returns (s', Inr ()) \<and> fat_fits f (contents s') \<and>
    (\<forall>c' < fat_limit f. fat_view f (contents s') c' =
      (if map_option unat prev = Some c' then Next (of_nat c) else fat_view f (contents s) c'))"
proof (cases prev)
  case (Some p)
  with assms(4) set_ok [OF assms(1), of p, OF _ _ entry_ok_Next [OF assms(2,3)]] show ?thesis
    by (auto 4 3)
qed (use assms(1) in simp)

lemma set_links_ok:
  assumes "fat_fits f (contents s)" and "2 \<le> c" and "0 < n" and "c + n \<le> fat_limit f"
  shows "\<exists>s'. (if n > 1
        then fat_set_range bio f s (of_nat c) (n - 1) (map (\<lambda>i. Next (of_nat c + of_nat i)) [1..<n])
        else Returns (s, Inr ())) = Returns (s', Inr ()) \<and> fat_fits f (contents s') \<and>
    (\<forall>c' < fat_limit f. fat_view f (contents s') c' =
      (if c \<le> c' \<and> c' + 1 < c + n then Next (of_nat (c' + 1)) else fat_view f (contents s) c'))"
proof (cases "n > 1")
  case True
  let ?es = "map (\<lambda>i. Next (of_nat c + of_nat i)) [1..<n]"
  have uc: "unat (of_nat c :: u32) = c" by (rule unat_of_cluster) (use assms in simp)
  have "list_all entry_ok ?es"
    unfolding list_all_iff
  proof
    fix e assume "e \<in> set ?es"
    then obtain i where i: "e = Next (of_nat (c + i))" "i < n" by auto
    show "entry_ok e" unfolding i(1) by (rule entry_ok_Next) (use assms i in simp_all)
  qed
  moreover have "unat (of_nat c :: u32) + length ?es \<le> fat_limit f" using assms by (simp add: uc)
  moreover have "0 < length ?es" using True by simp
  moreover have "2 \<le> unat (of_nat c :: u32)" using assms by (simp add: uc)
  ultimately obtain s' where s': "fat_set_range bio f s (of_nat c) (length ?es) ?es = Returns (s', Inr ())"
    "fat_fits f (contents s')"
    "\<forall>c' < fat_limit f. fat_view f (contents s') c' =
      (if c \<le> c' \<and> c' < c + length ?es then ?es ! (c' - c) else fat_view f (contents s) c')"
    using set_range_ok [OF assms(1), of "of_nat c" ?es] unfolding uc by blast
  have nth: "?es ! (c' - c) = Next (of_nat (c' + 1))" if "c \<le> c'" "c' + 1 < c + n" for c'
  proof -
    have "of_nat c + of_nat (1 + (c' - c)) = (of_nat (c + (1 + (c' - c))) :: u32)" by simp
    also have "c + (1 + (c' - c)) = c' + 1" using that(1) by simp
    finally show ?thesis using that by simp
  qed
  have len: "length ?es = n - 1" by simp
  have "(c' < c + (n - 1)) = (c' + 1 < c + n)" for c' using True by linarith
  then have "\<forall>c' < fat_limit f. fat_view f (contents s') c' =
      (if c \<le> c' \<and> c' + 1 < c + n then Next (of_nat (c' + 1)) else fat_view f (contents s) c')"
    using s'(3) nth unfolding len by presburger
  then show ?thesis using True s'(1,2) unfolding len by auto
qed (use assms(1) in auto)

lemma allocate_some:
  assumes "fat_fits f (contents s)" and "0 < num"
    and prev: "case prev of None \<Rightarrow> True | Some p \<Rightarrow> 2 \<le> unat p \<and> unat p < fat_limit f"
    and st: "st = max (unat (case hint of None \<Rightarrow> allocable_start | Some h \<Rightarrow> h)) 2"
    and free: "c0 \<in> {st..<fat_limit f}" "fat_view f (contents s) c0 = Free"
  shows "\<exists>s' c n. fat_allocate bio f s prev hint num = Returns (s', Inr (n, of_nat c)) \<and>
    st \<le> c \<and> (\<forall>c' \<in> {st..<c}. fat_view f (contents s) c' \<noteq> Free) \<and>
    0 < n \<and> n \<le> num \<and> n \<le> ALLOCATE_BATCH_LEN \<and> c + n \<le> fat_limit f \<and>
    free_run (fat_view f (contents s)) c n \<and> fat_fits f (contents s') \<and>
    (\<forall>c' < fat_limit f. fat_view f (contents s') c' =
      allocated c n (map_option unat prev) (fat_view f (contents s)) c')"
proof -
  let ?h = "case hint of None \<Rightarrow> allocable_start | Some h \<Rightarrow> h"
  let ?k = "min ALLOCATE_BATCH_LEN num"
  let ?v = "fat_view f (contents s)"
  have k: "0 < ?k" "?k < 2 ^ 28" using assms(2) by (simp_all add: ALLOCATE_BATCH_LEN_def)
  from find_free_from [OF assms(1,2) k st] free obtain s1 c n where s1: "contents s1 = contents s"
    and c: "st \<le> c" "\<forall>c' \<in> {st..<c}. ?v c' \<noteq> Free" "0 < n" "n \<le> num" "n \<le> ?k" "free_run ?v c n"
      "c + n \<le> fat_limit f"
    and found: "fat_find_free bio f s (Included ?h, Unbounded) num ?k = Returns (s1, Inr (n, of_nat c))"
    unfolding Let_def by blast
  have c2: "2 \<le> c" "c < fat_limit f" using c st by simp_all
  have "fat_fits f (contents s1)" "0 < c" using assms(1) c2 by (simp_all add: s1)
  from set_prev_ok [OF this c2(2) prev, unfolded s1] obtain s2 where s2:
    "(case prev of None \<Rightarrow> Returns (s1, Inr ()) | Some p \<Rightarrow> fat_set bio f s1 p (Next (of_nat c))) = Returns (s2, Inr ())"
    "fat_fits f (contents s2)" "\<forall>c' < fat_limit f. fat_view f (contents s2) c' =
      (if map_option unat prev = Some c' then Next (of_nat c) else ?v c')"
    by blast
  from set_links_ok [OF s2(2) c2(1) c(3,7)] obtain s3 where s3:
    "(if n > 1
        then fat_set_range bio f s2 (of_nat c) (n - 1) (map (\<lambda>i. Next (of_nat c + of_nat i)) [1..<n])
        else Returns (s2, Inr ())) = Returns (s3, Inr ())" "fat_fits f (contents s3)"
    "\<forall>c' < fat_limit f. fat_view f (contents s3) c' =
      (if c \<le> c' \<and> c' + 1 < c + n then Next (of_nat (c' + 1)) else fat_view f (contents s2) c')" by blast
  have e: "of_nat c + of_nat n - 1 = (of_nat (c + n - 1) :: u32)" using c(3) by (simp add: of_nat_diff)
  have u: "unat (of_nat (c + n - 1) :: u32) = c + n - 1" by (rule unat_of_cluster) (use c in simp)
  have "2 \<le> unat (of_nat (c + n - 1) :: u32)" "unat (of_nat (c + n - 1) :: u32) < fat_limit f" "entry_ok End"
    unfolding u using c c2 by (simp_all add: entry_ok_def)
  from set_ok [OF s3(2) this, folded e, unfolded e u] obtain s4 where
    s4: "fat_set bio f s3 (of_nat c + of_nat n - 1) End = Returns (s4, Inr ())"
    "fat_fits f (contents s4)" "\<forall>c' < fat_limit f. fat_view f (contents s4) c' =
      (if c' = c + n - 1 then End else fat_view f (contents s3) c')"
    unfolding e by blast
  have "fat_allocate bio f s prev hint num = Returns (s4, Inr (n, of_nat c))"
    unfolding fat_allocate_def Let_def using found s2(1) s3(1) s4(1) by simp
  moreover have "\<forall>c' < fat_limit f. fat_view f (contents s4) c' = allocated c n (map_option unat prev) ?v c'"
    using s4(3) s3(3) s2(3) c(3) by (auto simp: allocated_def)
  ultimately show ?thesis using c s4(2) by (intro exI [of _ s4] exI [of _ c] exI [of _ n]) simp
qed

lemma ranged_next_chain:
  assumes "chain_of f cs (c # ks)" and "c < b"
  shows "\<exists>pre suf. ranged_next (Next (of_nat c)) (cells (fat_view f cs) c b) = map of_nat pre \<and>
    ks = pre @ suf \<and> (pre = [] \<longrightarrow> ks = [])"
  using assms
proof (induction ks arbitrary: c)
  case Nil
  then have up: "[c..<b] = c # [Suc c..<b]" by (simp add: upt_conv_Cons)
  show ?case using Nil unfolding up by (cases "fat_view f cs c") auto
next
  case (Cons d ks)
  then have up: "[c..<b] = c # [Suc c..<b]" by (simp add: upt_conv_Cons)
  have d: "fat_view f cs c = Next (of_nat d)" "chain_of f cs (d # ks)" using Cons.prems by simp_all
  have dl: "d < fat_limit f" using chain_of_bounds [OF d(2)] by simp
  have eq: "ranged_next (Next (of_nat c)) (cells (fat_view f cs) c b) =
      of_nat d # ranged_next (Next (of_nat d)) (cells (fat_view f cs) (Suc c) b)"
    unfolding up using d(1) by simp
  show ?case
  proof (cases "Suc c < b \<and> d = Suc c")
    case True
    with Cons.IH [OF d(2)] obtain pre suf where
      "ranged_next (Next (of_nat d)) (cells (fat_view f cs) (Suc c) b) = map of_nat pre" "ks = pre @ suf"
      by auto
    then show ?thesis unfolding eq by (intro exI [of _ "d # pre"] exI [of _ suf]) simp
  next
    case False
    have "ranged_next (Next (of_nat d)) (cells (fat_view f cs) (Suc c) b) = []"
    proof (cases "Suc c < b")
      case True
      then have "d \<noteq> Suc c" using False by simp
      moreover have "Suc c < 2 ^ 32"
        using chain_of_bounds [OF Cons.prems(1)] limit_small by simp
      then have "unat (of_nat (Suc c) :: u32) = Suc c" by (simp add: unat_of_nat del: of_nat_Suc)
      ultimately have "(of_nat d :: u32) \<noteq> of_nat (Suc c)" using unat_of_cluster [OF dl] by metis
      moreover have "[Suc c..<b] = Suc c # [Suc (Suc c)..<b]" using True by (simp add: upt_conv_Cons)
      ultimately show ?thesis by simp
    qed simp
    then show ?thesis unfolding eq by (intro exI [of _ "[d]"] exI [of _ ks]) simp
  qed
qed

end

end
