(* ===== verification/Fat_Properties.thy ===== *)
theory Fat_Properties
  imports Fat_Chains
begin

text \<open>
  The operations of the file allocation table on whole chains: the list of all clusters of a chain,
  the count of free clusters, a volume to which the results apply, and the properties of the table.
\<close>

section \<open>Whole chains\<close>

text \<open>A set of clusters that link only to one another.\<close>

definition cyclic :: "fat \<Rightarrow> u8 list \<Rightarrow> nat set \<Rightarrow> bool" where
  "cyclic f cs C \<longleftrightarrow> (\<forall>c \<in> C. c < fat_limit f \<and> (\<exists>d \<in> C. fat_view f cs c = Next (of_nat d)))"

context fat_volume
begin

lemma iter_ranged_next_chain:
  assumes "fat_fits f (contents s)" and "chain_of f (contents s) (c # ks)"
  shows "\<exists>s' pre suf. iter_ranged_next bio f s (of_nat c) BATCH_LEN = Returns (s', Inr (map of_nat pre)) \<and>
    contents s' = contents s \<and> ks = pre @ suf \<and> (pre = [] \<longrightarrow> ks = [])"
proof -
  have c: "c < fat_limit f" using chain_of_bounds [OF assms(2)] by simp
  note uc = unat_of_cluster [OF c]
  have "unat (of_nat c :: u32) \<le> fat_limit f" "BATCH_LEN < 2 ^ 28" using c uc by (simp_all add: BATCH_LEN_def)
  from get_range_ok [OF assms(1) this] obtain s' where s': "contents s' = contents s"
    "fat_get_range bio f s (of_nat c) BATCH_LEN = Returns (s', Inr
      (cells (fat_view f (contents s)) c (min (c + BATCH_LEN) (fat_limit f))))"
    unfolding uc by blast
  have "c < min (c + BATCH_LEN) (fat_limit f)" using c by (simp add: BATCH_LEN_def)
  from ranged_next_chain [OF assms(2) this] s' show ?thesis
    unfolding iter_ranged_next_def by auto
qed

lemma chain_of_append:
  "chain_of f cs (c # pre @ suf) \<Longrightarrow> chain_of f cs (last (c # pre) # suf)"
proof (induction pre arbitrary: c)
  case (Cons d pre)
  then have "chain_of f cs (d # pre @ suf)" by simp
  from Cons.IH [OF this] show ?case by simp
qed simp

lemma all_clusters_loop_chain:
  assumes "fat_fits f (contents s)" and "chain_of f (contents s) (c # ks)"
  shows "\<exists>s'. all_clusters_loop bio f s (of_nat c) ret = Some (Returns (s', Inr (ret @ map of_nat ks))) \<and>
    contents s' = contents s"
  using assms
proof (induction "length ks" arbitrary: s c ks ret rule: less_induct)
  case less
  from iter_ranged_next_chain [OF less.prems] obtain s1 pre suf where s1:
    "iter_ranged_next bio f s (of_nat c) BATCH_LEN = Returns (s1, Inr (map of_nat pre))"
    "contents s1 = contents s" "ks = pre @ suf" "pre = [] \<longrightarrow> ks = []" by blast
  show ?case
  proof (cases "pre = []")
    case True
    then show ?thesis using s1 by (subst all_clusters_loop.simps) simp
  next
    case False
    have "length suf < length ks" using False s1(3) by simp
    moreover have "chain_of f (contents s1) (last pre # suf)"
      using chain_of_append [of "contents s" c pre suf] less.prems(2) s1(2,3) False by simp
    ultimately obtain s' where s': "contents s' = contents s1"
      "all_clusters_loop bio f s1 (of_nat (last pre)) (ret @ map of_nat pre) =
        Some (Returns (s', Inr ((ret @ map of_nat pre) @ map of_nat suf)))"
      using less.hyps [of suf s1 "last pre" "ret @ map of_nat pre"] less.prems(1) s1(2) by auto
    have "last (map of_nat pre) = (of_nat (last pre) :: u32)" using False by (simp add: last_map)
    then have "all_clusters_loop bio f s (of_nat c) ret =
        all_clusters_loop bio f s1 (of_nat (last pre)) (ret @ map of_nat pre)"
      using False s1(1) by (subst all_clusters_loop.simps) simp
    then show ?thesis using s' s1(2,3) by simp
  qed
qed

lemma ranged_next_cyclic:
  assumes "cyclic f cs C" and "c \<in> C" and "c < b" and "b \<le> fat_limit f"
  shows "\<exists>d ds. ranged_next (Next (of_nat c)) (cells (fat_view f cs) c b) = map of_nat (d # ds) \<and>
    set (d # ds) \<subseteq> C"
  using assms(2-4)
proof (induction "b - c" arbitrary: c)
  case (Suc n)
  then have up: "[c..<b] = c # [Suc c..<b]" by (simp add: upt_conv_Cons)
  from Suc.prems(1) assms(1) obtain d where d: "d \<in> C" "fat_view f cs c = Next (of_nat d)" "d < fat_limit f"
    unfolding cyclic_def by blast
  have eq: "ranged_next (Next (of_nat c)) (cells (fat_view f cs) c b) =
      of_nat d # ranged_next (Next (of_nat d)) (cells (fat_view f cs) (Suc c) b)"
    unfolding up using d(2) by simp
  show ?case
  proof (cases "Suc c < b \<and> d = Suc c")
    case True
    have "n = b - d" using Suc.hyps(2) True by simp
    from Suc.hyps(1) [OF this d(1)] True Suc.prems(3) obtain e es where
      "ranged_next (Next (of_nat d)) (cells (fat_view f cs) (Suc c) b) = map of_nat (e # es)" "set (e # es) \<subseteq> C"
      by auto
    then show ?thesis unfolding eq using d(1) by (intro exI [of _ d] exI [of _ "e # es"]) simp
  next
    case False
    have "ranged_next (Next (of_nat d)) (cells (fat_view f cs) (Suc c) b) = []"
    proof (cases "Suc c < b")
      case True
      then have ne: "d \<noteq> Suc c" using False by simp
      have "Suc c < fat_limit f" using True Suc.prems by simp
      then have "(of_nat d :: u32) \<noteq> of_nat (Suc c)" using ne d(3) by (metis unat_of_cluster)
      moreover have "[Suc c..<b] = Suc c # [Suc (Suc c)..<b]" using True by (simp add: upt_conv_Cons)
      ultimately show ?thesis by simp
    qed simp
    then show ?thesis unfolding eq using d(1) by (intro exI [of _ d] exI [of _ "[]"]) simp
  qed
qed simp

lemma iter_ranged_next_cyclic:
  assumes "fat_fits f (contents s)" and "cyclic f (contents s) C" and "c \<in> C"
  shows "\<exists>s' d ds. iter_ranged_next bio f s (of_nat c) BATCH_LEN = Returns (s', Inr (map of_nat (d # ds))) \<and>
    contents s' = contents s \<and> set (d # ds) \<subseteq> C"
proof -
  have c: "c < fat_limit f" using assms(2,3) unfolding cyclic_def by blast
  note uc = unat_of_cluster [OF c]
  have "unat (of_nat c :: u32) \<le> fat_limit f" "BATCH_LEN < 2 ^ 28" using c uc by (simp_all add: BATCH_LEN_def)
  from get_range_ok [OF assms(1) this] obtain s' where s': "contents s' = contents s"
    "fat_get_range bio f s (of_nat c) BATCH_LEN = Returns (s', Inr
      (cells (fat_view f (contents s)) c (min (c + BATCH_LEN) (fat_limit f))))"
    unfolding uc by blast
  have "c < min (c + BATCH_LEN) (fat_limit f)" using c by (simp add: BATCH_LEN_def)
  from ranged_next_cyclic [OF assms(2,3) this] s' show ?thesis
    unfolding iter_ranged_next_def by fastforce
qed

lemma all_clusters_loop_cyclic:
  assumes "fat_fits f cs" and "cyclic f cs C" and "all_clusters_loop bio' f' s start ret = Some y"
  shows "\<not> (bio' = bio \<and> f' = f \<and> contents s = cs \<and> start \<in> of_nat ` C)"
proof (rule all_clusters_loop.raw_induct [OF _ assms(3)], rule notI)
  fix loop bio' f' s start and ret :: "u32 list" and y
  assume IH: "\<And>bio' f' s start ret y. loop bio' f' s start ret = Some y \<Longrightarrow>
      \<not> (bio' = bio \<and> f' = f \<and> contents s = cs \<and> start \<in> of_nat ` C)"
    and body: "(case iter_ranged_next bio' f' s start BATCH_LEN of
       Returns (s, Inl e) \<Rightarrow> Some (Returns (s, Inl e))
     | Returns (s, Inr nexts) \<Rightarrow>
        (if nexts = [] then Some (Returns (s, Inr ret)) else loop bio' f' s (last nexts) (ret @ nexts))
     | Panics \<Rightarrow> Some Panics) = Some y"
    and here: "bio' = bio \<and> f' = f \<and> contents s = cs \<and> start \<in> of_nat ` C"
  then obtain c where c: "c \<in> C" "start = of_nat c" by blast
  from iter_ranged_next_cyclic [of s C c] assms(1,2) c(1) here obtain s1 d ds where s1:
    "iter_ranged_next bio f s (of_nat c) BATCH_LEN = Returns (s1, Inr (map of_nat (d # ds)))"
    "contents s1 = contents s" "set (d # ds) \<subseteq> C" by auto
  have "last (d # ds) \<in> C" using s1(3) last_in_set [of "d # ds"] by blast
  moreover have l: "last (map of_nat (d # ds)) = (of_nat (last (d # ds)) :: u32)" by (rule last_map) simp
  ultimately have "last (map of_nat (d # ds)) \<in> (of_nat :: nat \<Rightarrow> u32) ` C" unfolding l by blast
  moreover have "loop bio f s1 (last (map of_nat (d # ds))) (ret @ map of_nat (d # ds)) = Some y"
    using body here s1(1) c(2) by simp
  ultimately show False using IH s1(2) here by blast
qed

lemma all_clusters_cyclic:
  assumes "fat_fits f (contents s)" and "cyclic f (contents s) C" and "c \<in> C"
  shows "all_clusters bio f s (of_nat c) = None"
proof -
  have "all_clusters_loop bio f s (of_nat c) [of_nat c] = None"
    using all_clusters_loop_cyclic [OF assms(1,2), of bio f s "of_nat c"] assms(3) by (meson image_eqI not_None_eq)
  then show ?thesis by (simp add: all_clusters_def)
qed

lemma all_clusters_chain:
  assumes "fat_fits f (contents s)" and "chain_of f (contents s) (c # ks)"
  shows "\<exists>s'. all_clusters bio f s (of_nat c) = Some (Returns (s', Inr (run_ends (map of_nat (c # ks))))) \<and>
    contents s' = contents s"
  using all_clusters_loop_chain [OF assms, of "[of_nat c]"] by (auto simp: all_clusters_def)

lemma count_free_loop_ok:
  assumes "fat_fits f (contents s)" and "\<forall>c \<in> set cs. c < fat_limit f"
  shows "\<exists>s'. count_free_loop bio f (map of_nat cs) n s =
      Returns (s', n + length (filter (\<lambda>c. fat_view f (contents s) c = Free) cs)) \<and> contents s' = contents s"
  using assms
proof (induction cs arbitrary: n s)
  case (Cons c cs)
  have c: "c < fat_limit f" using Cons.prems by simp
  note uc = unat_of_cluster [OF c]
  from get_ok [OF Cons.prems(1), of "of_nat c"] c obtain s1 where
    s1: "fat_get bio f s (of_nat c) = Returns (s1, Inr (fat_view f (contents s) c))" "contents s1 = contents s"
    unfolding uc by blast
  let ?n = "if fat_view f (contents s) c = Free then n + 1 else n"
  have "fat_fits f (contents s1)" "\<forall>c \<in> set cs. c < fat_limit f" using Cons.prems s1(2) by simp_all
  from Cons.IH [OF this, of ?n] obtain s' where "contents s' = contents s"
    "count_free_loop bio f (map of_nat cs) ?n s1 =
      Returns (s', ?n + length (filter (\<lambda>c. fat_view f (contents s) c = Free) cs))"
    unfolding s1(2) by blast
  then show ?case by (intro exI [of _ s']) (simp add: s1(1))
qed simp

lemma count_free_ok:
  assumes "fat_fits f (contents s)"
  shows "\<exists>s'. count_free bio f s =
    Returns (s', card {c \<in> {2..<fat_limit f}. fat_view f (contents s) c = Free}) \<and> contents s' = contents s"
proof -
  have "length (filter P [2..<fat_limit f]) = card {c \<in> {2..<fat_limit f}. P c}" for P
    by (simp add: distinct_length_filter Int_def conj_commute)
  then show ?thesis
    using count_free_loop_ok [OF assms, of "[2..<fat_limit f]" 0]
    unfolding count_free_def unat_allocable_start end_eq by simp
qed

end

section \<open>A volume\<close>

text \<open>A table of six clusters with two mirrors at the start of a memory disk of 56 bytes.\<close>

definition fat_example :: fat where
  "fat_example = \<lparr>start_offset = 0, cluster_count = 6, mirrors = 2\<rparr>"

interpretation small_volume: fat_volume "block_of_io ram_io" disk_bytes fat_example
proof (intro fat_volume.intro fat_volume_axioms.intro)
  show "block_device (block_of_io ram_io) disk_bytes" by (rule ram.block.block_device_axioms)
  show "fat_ok fat_example" by (simp add: fat_ok_def fat_limit_def fat_example_def)
qed

definition disk_example :: small_disk where
  "disk_example = disk_make (bytes_of_u32s
    [0x0FFFFFF8, 0x0FFFFFFF, 3, 5, 0, 0x0FFFFFFF, 0, 0, 0, 0, 0, 0, 0, 0]) 0"

lemma disk_example_bytes:
  "disk_bytes disk_example = bytes_of_u32s
    [0x0FFFFFF8, 0x0FFFFFFF, 3, 5, 0, 0x0FFFFFFF, 0, 0, 0, 0, 0, 0, 0, 0]"
  unfolding disk_example_def by (simp add: bytes_of_u32s_def)

lemma fat_example_fits: "fat_fits fat_example (disk_bytes disk_example)"
  unfolding disk_example_bytes by (simp add: fat_fits_def fat_limit_def fat_example_def)

lemma fat_limit_example [simp]: "fat_limit fat_example = 8"
  by (simp add: fat_limit_def fat_example_def)

lemma fat_example_view:
  assumes "c < 8"
  shows "fat_view fat_example (disk_bytes disk_example) c = from_raw
    ([0x0FFFFFF8, 0x0FFFFFFF, 3, 5, 0, 0x0FFFFFFF, 0, 0, 0, 0, 0, 0, 0, 0] ! c) (of_nat c)"
proof -
  have "slice_at (4 * c) 4 (disk_bytes disk_example) = le_bytes 4
      ([0x0FFFFFF8, 0x0FFFFFFF, 3, 5, 0, 0x0FFFFFFF, 0, 0, 0, 0, 0, 0, 0, 0 :: u32] ! c)"
    unfolding disk_example_bytes by (rule slice_bytes_of_u32s) (use assms in simp)
  moreover have "start_offset fat_example = 0" by (simp add: fat_example_def)
  ultimately show ?thesis unfolding fat_view_def fat_word_def by simp
qed

lemma fat_example_cells:
  "fat_view fat_example (disk_bytes disk_example) 2 = Next 3"
  "fat_view fat_example (disk_bytes disk_example) 3 = Next 5"
  "fat_view fat_example (disk_bytes disk_example) 5 = End"
  "fat_view fat_example (disk_bytes disk_example) 6 = Free"
  by (simp_all add: fat_example_view from_raw_def special_cluster_def)

lemma fat_example_chain: "chain_of fat_example (disk_bytes disk_example) [2, 3, 5]"
  by (simp add: fat_example_cells)

section \<open>Properties\<close>

text \<open>
  C16: Allocation takes the first free cluster at or above the hint and the run of free clusters that
  follows it, at most as many as asked for; it links the run, ends it, hangs it behind the given
  cluster and changes no other entry. When there is no free cluster at or above the hint it reports
  \<open>ENOSPC\<close> and changes nothing, even when there are free clusters below the hint: the second search
  covers an empty range.
\<close>

theorem fat_allocate_spec:
  assumes "fat_volume bio contents f" and "fat_fits f (contents s)" and "0 < num"
    and "case prev of None \<Rightarrow> True | Some p \<Rightarrow> 2 \<le> unat p \<and> unat p < fat_limit f"
    and "st = max (unat (case hint of None \<Rightarrow> allocable_start | Some h \<Rightarrow> h)) 2"
  shows "if \<exists>c \<in> {st..<fat_limit f}. fat_view f (contents s) c = Free
    then \<exists>s' c n. fat_allocate bio f s prev hint num = Returns (s', Inr (n, of_nat c)) \<and>
      st \<le> c \<and> (\<forall>c' \<in> {st..<c}. fat_view f (contents s) c' \<noteq> Free) \<and>
      0 < n \<and> n \<le> num \<and> n \<le> ALLOCATE_BATCH_LEN \<and> c + n \<le> fat_limit f \<and>
      free_run (fat_view f (contents s)) c n \<and>
      (\<forall>c' < fat_limit f. fat_view f (contents s') c' =
        allocated c n (map_option unat prev) (fat_view f (contents s)) c')
    else \<exists>s'. fat_allocate bio f s prev hint num = Returns (s', Inl ENOSPC) \<and> contents s' = contents s"
proof (cases "\<exists>c \<in> {st..<fat_limit f}. fat_view f (contents s) c = Free")
  case True
  then obtain c0 where "c0 \<in> {st..<fat_limit f}" "fat_view f (contents s) c0 = Free" by blast
  from fat_volume.allocate_some [OF assms this] True show ?thesis by auto
next
  case False
  then have "\<forall>c \<in> {max (unat (case hint of None \<Rightarrow> allocable_start | Some h \<Rightarrow> h)) 2..<fat_limit f}.
      fat_view f (contents s) c \<noteq> Free" unfolding assms(5) by blast
  from fat_volume.allocate_none [OF assms(1-3) this] False show ?thesis by auto
qed

theorem fat_allocate_spec_witness:
  "\<exists>s' n. fat_allocate (block_of_io ram_io) fat_example disk_example (Some 5) (Some 6) 2 = Returns (s', Inr (n, 6)) \<and>
    fat_view fat_example (disk_bytes s') 5 = Next 6"
proof -
  let ?v = "fat_view fat_example (disk_bytes disk_example)"
  have st: "6 = max (unat (case Some 6 of None \<Rightarrow> allocable_start | Some h \<Rightarrow> (h :: u32))) 2" by simp
  have prev: "case Some (5 :: u32) of None \<Rightarrow> True | Some p \<Rightarrow> 2 \<le> unat p \<and> unat p < fat_limit fat_example" by simp
  have free: "?v 6 = Free" "(6 :: nat) \<in> {6..<fat_limit fat_example}" by (simp_all add: fat_example_cells)
  then have ex: "\<exists>c \<in> {6..<fat_limit fat_example}. ?v c = Free" by blast
  from fat_allocate_spec [OF small_volume.fat_volume_axioms fat_example_fits zero_less_numeral [of "num.Bit0 num.One"] prev st,
    unfolded if_P [OF ex]]
  obtain s' c n where r:
    "fat_allocate (block_of_io ram_io) fat_example disk_example (Some 5) (Some 6) 2 = Returns (s', Inr (n, of_nat c))"
    "6 \<le> c" "\<forall>c' \<in> {6..<c}. ?v c' \<noteq> Free" "0 < n"
    "\<forall>c' < fat_limit fat_example. fat_view fat_example (disk_bytes s') c' =
      allocated c n (map_option unat (Some (5 :: u32))) ?v c'"
    by blast
  have c: "c = 6"
  proof (rule ccontr)
    assume "c \<noteq> 6"
    then have "6 \<in> {6..<c}" using r(2) by simp
    with r(3) free(1) show False by blast
  qed
  have "fat_view fat_example (disk_bytes s') 5 = Next 6"
    using r(5) r(4) by (simp add: c allocated_def)
  then show ?thesis using r(1) c by auto
qed

text \<open>
  C17: Freeing the start of a chain without repetitions frees exactly its clusters and returns how many
  there were, and counting the free clusters afterwards agrees with the table. On any table, however
  corrupted, in which no link points at the two reserved entries, freeing returns, and it only turns
  entries into free ones.
\<close>

theorem fat_free_spec:
  assumes "fat_volume bio contents f" and "fat_fits f (contents s)"
  shows "(chain_of f (contents s) (c # ks) \<and> distinct (c # ks) \<longrightarrow>
      (\<exists>s' s''. fat_free bio f s (of_nat c) = Some (Returns (s', Inr (length (c # ks)))) \<and>
        (\<forall>c' < fat_limit f. fat_view f (contents s') c' =
          (if c' \<in> set (c # ks) then Free else fat_view f (contents s) c')) \<and>
        count_free bio f s' = Returns (s'',
          card {c' \<in> {2..<fat_limit f}. c' \<in> set (c # ks) \<or> fat_view f (contents s) c' = Free}))) \<and>
    (links_ok f (contents s) \<and> 2 \<le> unat start \<longrightarrow>
      (\<exists>s' r. fat_free bio f s start = Some (Returns (s', r)) \<and>
        (\<forall>c' < fat_limit f. fat_view f (contents s') c' \<in> {fat_view f (contents s) c', Free})))"
proof (intro conjI impI)
  assume a: "chain_of f (contents s) (c # ks) \<and> distinct (c # ks)"
  from fat_volume.free_chain [OF assms, of "c # ks" 0] a obtain s' where s':
    "fat_free bio f s (of_nat c) = Some (Returns (s', Inr (length (c # ks))))" "fat_fits f (contents s')"
    and v: "\<forall>c' < fat_limit f. fat_view f (contents s') c' =
      (if c' \<in> set (c # ks) then Free else fat_view f (contents s) c')"
    by (auto simp: fat_free_def)
  have eq: "{c' \<in> {2..<fat_limit f}. fat_view f (contents s') c' = Free} =
      {c' \<in> {2..<fat_limit f}. c' \<in> set (c # ks) \<or> fat_view f (contents s) c' = Free}"
    using v by (auto split: if_splits)
  from fat_volume.count_free_ok [OF assms(1) s'(2), unfolded eq] s'(1) v show "\<exists>s' s''.
      fat_free bio f s (of_nat c) = Some (Returns (s', Inr (length (c # ks)))) \<and>
      (\<forall>c' < fat_limit f. fat_view f (contents s') c' =
        (if c' \<in> set (c # ks) then Free else fat_view f (contents s) c')) \<and>
      count_free bio f s' = Returns (s'',
        card {c' \<in> {2..<fat_limit f}. c' \<in> set (c # ks) \<or> fat_view f (contents s) c' = Free})"
    by blast
next
  assume "links_ok f (contents s) \<and> 2 \<le> unat start"
  then show "\<exists>s' r. fat_free bio f s start = Some (Returns (s', r)) \<and>
      (\<forall>c' < fat_limit f. fat_view f (contents s') c' \<in> {fat_view f (contents s) c', Free})"
    using fat_volume.free_loop_total [OF assms, of "Some (Inr start)" 0] unfolding fat_free_def by auto
qed

theorem fat_free_spec_witness:
  "\<exists>s'. fat_free (block_of_io ram_io) fat_example disk_example 2 = Some (Returns (s', Inr 3)) \<and>
    fat_view fat_example (disk_bytes s') 5 = Free"
proof -
  have "chain_of fat_example (disk_bytes disk_example) [2, 3, 5] \<and> distinct [2, 3, 5 :: nat]"
    using fat_example_chain by simp
  with fat_free_spec [OF small_volume.fat_volume_axioms fat_example_fits, of 2 "[3, 5]" 0] obtain s' where
    r: "fat_free (block_of_io ram_io) fat_example disk_example (of_nat 2) = Some (Returns (s', Inr (length [2, 3, 5 :: nat])))"
    "\<forall>c' < fat_limit fat_example. fat_view fat_example (disk_bytes s') c' =
      (if c' \<in> set [2, 3, 5] then Free else fat_view fat_example (disk_bytes disk_example) c')" by blast
  then show ?thesis by auto
qed

text \<open>
  C19: Truncating a chain after its first cluster never frees the rest: the entry is made the end of
  its chain before the link to the rest is read from it, so the call returns 0 and the rest stays
  allocated, a chain that nothing refers to.
\<close>

theorem fat_truncate_leaks:
  assumes "fat_volume bio contents f" and "fat_fits f (contents s)"
    and "chain_of f (contents s) (c # ks)" and "c \<notin> set ks"
  shows "\<exists>s'. fat_truncate bio f s (of_nat c) = Some (Returns (s', Inr 0)) \<and>
    chain_of f (contents s') [c] \<and>
    (\<forall>c' < fat_limit f. fat_view f (contents s') c' = (if c' = c then End else fat_view f (contents s) c')) \<and>
    (ks \<noteq> [] \<longrightarrow> chain_of f (contents s') ks)"
proof -
  have c: "2 \<le> c" "c < fat_limit f" using chain_of_bounds [OF assms(3)] by simp_all
  note uc = fat_volume.unat_of_cluster [OF assms(1) c(2)]
  from fat_volume.truncate_ok [OF assms(1,2), of "of_nat c"] c obtain s' where s':
    "fat_truncate bio f s (of_nat c) = Some (Returns (s', Inr 0))"
    "\<forall>c' < fat_limit f. fat_view f (contents s') c' = (if c' = c then End else fat_view f (contents s) c')"
    unfolding uc by blast
  have "chain_of f (contents s') ks" if "ks \<noteq> []"
  proof (rule chain_of_cong)
    show ch: "chain_of f (contents s) ks" using assms(3) that by (cases ks) auto
    show "\<forall>d \<in> set ks. fat_view f (contents s') d = fat_view f (contents s) d"
      using chain_of_bounds [OF ch] s'(2) assms(4) by auto
  qed
  then show ?thesis using s' c by (intro exI [of _ s']) simp
qed

theorem fat_truncate_leaks_witness:
  "\<exists>s'. fat_truncate (block_of_io ram_io) fat_example disk_example 2 = Some (Returns (s', Inr 0)) \<and>
    chain_of fat_example (disk_bytes s') [3, 5]"
proof -
  have "2 \<notin> set [3, 5 :: nat]" by simp
  from fat_truncate_leaks [OF small_volume.fat_volume_axioms fat_example_fits fat_example_chain this]
  show ?thesis by fastforce
qed

text \<open>
  C18: \<open>all_clusters\<close>, which reads the table in batches of 64 entries and follows links inside a batch,
  lists exactly the clusters of the chain in order, each with the last cluster of the longest
  consecutive run that starts at it, and changes nothing. On a chain that runs into a cycle it
  never returns.
\<close>

theorem all_clusters_spec:
  assumes "fat_volume bio contents f" and "fat_fits f (contents s)"
  shows "(chain_of f (contents s) (c # ks) \<longrightarrow>
      (\<exists>s' rs. all_clusters bio f s (of_nat c) = Some (Returns (s', Inr rs)) \<and> contents s' = contents s \<and>
        map fst rs = map of_nat (c # ks) \<and>
        (\<forall>i < length rs. run_end_at (map fst rs) i (snd (rs ! i))))) \<and>
    (cyclic f (contents s) C \<and> c \<in> C \<longrightarrow> all_clusters bio f s (of_nat c) = None)"
proof (intro conjI impI)
  assume "chain_of f (contents s) (c # ks)"
  from fat_volume.all_clusters_chain [OF assms this] obtain s' where
    "all_clusters bio f s (of_nat c) = Some (Returns (s', Inr (run_ends (map of_nat (c # ks)))))"
    "contents s' = contents s" by blast
  moreover have "length (run_ends (map of_nat (c # ks))) = length (map (of_nat :: nat \<Rightarrow> u32) (c # ks))"
    using arg_cong [OF conjunct1 [OF run_ends_correct [of "map of_nat (c # ks)"]], of length] unfolding length_map .
  ultimately show "\<exists>s' rs. all_clusters bio f s (of_nat c) = Some (Returns (s', Inr rs)) \<and> contents s' = contents s \<and>
      map fst rs = map of_nat (c # ks) \<and> (\<forall>i < length rs. run_end_at (map fst rs) i (snd (rs ! i)))"
    using conjunct1 [OF run_ends_correct [of "map of_nat (c # ks)"]] conjunct2 [OF run_ends_correct [of "map of_nat (c # ks)"]]
    by (intro exI [of _ s'] exI [of _ "run_ends (map of_nat (c # ks))"]) (simp only: simp_thms)
next
  assume "cyclic f (contents s) C \<and> c \<in> C"
  then show "all_clusters bio f s (of_nat c) = None" using fat_volume.all_clusters_cyclic [OF assms] by blast
qed

theorem all_clusters_spec_witness:
  "\<exists>s' rs. all_clusters (block_of_io ram_io) fat_example disk_example 2 = Some (Returns (s', Inr rs)) \<and>
    map fst rs = [2, 3, 5]"
  using all_clusters_spec [OF small_volume.fat_volume_axioms fat_example_fits, of 2 "[3, 5]" "{}"]
    fat_example_chain by auto

end
