(* ===== verification/Fat_Confined.thy ===== *)
theory Fat_Confined
  imports Fat_Properties
begin

text \<open>
  The operations of the file allocation table write nothing outside the table, whatever its entries
  and whatever the arguments, also when they fail.
\<close>

definition table_end :: "fat \<Rightarrow> nat" where
  "table_end f = unat (start_offset f) + 4 * unat (cluster_count f) * (unat (mirrors f) - 1) + 4 * fat_limit f"

definition same_data :: "fat \<Rightarrow> u8 list \<Rightarrow> u8 list \<Rightarrow> bool" where
  "same_data f cs cs' \<longleftrightarrow> length cs' = length cs \<and> take (unat (start_offset f)) cs' = take (unat (start_offset f)) cs \<and>
    drop (table_end f) cs' = drop (table_end f) cs"

lemma same_data_refl [simp]: "same_data f cs cs"
  by (simp add: same_data_def)

lemma same_data_trans: "same_data f a b \<Longrightarrow> same_data f b c \<Longrightarrow> same_data f a c"
  by (simp add: same_data_def)

lemma fat_fits_eq: "fat_fits f cs \<longleftrightarrow> table_end f \<le> length cs"
  by (simp add: fat_fits_def table_end_def)

lemma same_data_fits: "same_data f cs cs' \<Longrightarrow> fat_fits f cs \<Longrightarrow> fat_fits f cs'"
  by (simp add: same_data_def fat_fits_eq)

lemma same_data_overwrite:
  assumes "unat (start_offset f) \<le> off" and "off + length bs \<le> table_end f" and "fat_fits f cs"
  shows "same_data f cs (overwrite off bs cs)"
  using assms by (simp add: same_data_def fat_fits_eq overwrite_def)

lemma same_data_slice:
  assumes "same_data f cs cs'" and "table_end f \<le> off"
  shows "slice_at off n cs' = slice_at off n cs"
proof -
  have "drop off xs = drop (off - table_end f) (drop (table_end f) xs)" for xs :: "u8 list"
    using assms(2) by simp
  then show ?thesis using assms(1) unfolding slice_at_def same_data_def by metis
qed

context fat_volume
begin

lemma write_mirrors_same:
  assumes "fat_fits f (contents s)" and "\<forall>m \<in> set ms. m < unat (mirrors f)"
    and "length bytes = 4 * k" and "unat c + k \<le> fat_limit f" and "0 < k"
    and "write_mirrors bio f c bytes ms s = Returns (s', r)"
  shows "same_data f (contents s) (contents s')"
  using assms(1,2,6)
proof (induction ms arbitrary: s)
  case (Cons m ms)
  have m: "m < unat (mirrors f)" using Cons.prems(2) by simp
  have c: "unat c < fat_limit f" using assms(4,5) by simp
  note off = fat_offset_eq [OF Cons.prems(1) bio_small m c]
  let ?off = "unat (fat_offset f (of_nat m) c)"
  have "?off + length bytes \<le> length (contents s)" using off assms(3,4) by simp
  from bio_write_ok [OF this] obtain s1 where s1: "bio_write bio s (fat_offset f (of_nat m) c) bytes = (s1, Inr ())"
    "contents s1 = overwrite ?off bytes (contents s)" by blast
  have le: "4 * unat (cluster_count f) * m \<le> 4 * unat (cluster_count f) * (unat (mirrors f) - 1)"
    using m by (intro mult_left_mono) auto
  have "unat (start_offset f) \<le> ?off" using off(1) by simp
  moreover have "?off + length bytes \<le> table_end f"
    using off(1) le assms(3,4) unfolding table_end_def by linarith
  ultimately have same: "same_data f (contents s) (contents s1)"
    unfolding s1(2) using Cons.prems(1) by (rule same_data_overwrite)
  have "write_mirrors bio f c bytes ms s1 = Returns (s', r)" using Cons.prems(3) s1(1) by simp
  from Cons.IH [OF same_data_fits [OF same Cons.prems(1)] _ this] Cons.prems(2) show ?case
    using same_data_trans [OF same] by simp
qed simp

lemma set_same:
  assumes "fat_fits f (contents s)" and "fat_set bio f s c e = Returns (s', r)"
  shows "same_data f (contents s) (contents s')"
proof (cases "unat c < fat_limit f")
  case False
  with set_out [of c s e] assms(2) show ?thesis by simp
next
  case True
  from get_raw_ok [OF assms(1) True] obtain s1 where s1:
    "fat_get_raw bio f s c = Returns (s1, Inr (fat_word f (contents s) (unat c)))"
    "contents s1 = contents s" by blast
  from not_special [OF ok True] assms(2) s1(1) obtain w where
    w: "write_mirrors bio f c (le_bytes 4 (w :: u32)) [0..<unat (mirrors f)] s1 = Returns (s', r)"
    by (auto simp: fat_set_def into_raw_ok)
  have "same_data f (contents s1) (contents s')"
    by (rule write_mirrors_same [OF _ _ _ _ _ w, where k = 1]) (use assms(1) s1(2) True in auto)
  then show ?thesis by (simp add: s1(2))
qed

lemma set_total: "fat_fits f (contents s) \<Longrightarrow> fat_set bio f s c e \<noteq> Panics"
proof (cases "unat c < fat_limit f")
  case False
  then show ?thesis using set_out [of c s e] by simp
next
  case True
  assume fits: "fat_fits f (contents s)"
  from get_raw_ok [OF this True] obtain s1 where s1:
    "fat_get_raw bio f s c = Returns (s1, Inr (fat_word f (contents s) (unat c)))" by blast
  have "write_mirrors bio f c bytes ms s1 \<noteq> Panics" for bytes ms
    by (induction ms arbitrary: s1) (auto simp: io_bind_def bind_out_def split: sum.splits prod.splits)
  then show ?thesis using s1 not_special [OF ok True] by (simp add: fat_set_def into_raw_ok)
qed

lemma set_range_same:
  assumes "fat_fits f (contents s)" and "2 \<le> unat start" and "unat start + length entries \<le> fat_limit f"
    and "0 < length entries" and "fat_set_range bio f s start (length entries) entries = Returns (s', r)"
  shows "same_data f (contents s) (contents s')"
proof -
  let ?n = "length entries"
  have n: "?n < 2 ^ 28" using assms(3) limit_small by simp
  from get_range_raw_ok [OF assms(1) _ n, of start] assms(3) obtain s1 where s1:
    "fat_get_range_raw bio f s start ?n = Returns (s1, Inr
      (map (fat_word f (contents s)) [unat start..<unat start + ?n]))"
    "contents s1 = contents s" by (auto simp: min_absorb1)
  have nf: "number_from start (map (fat_word f (contents s)) [unat start..<unat start + ?n]) =
      map (\<lambda>c. (of_nat c, fat_word f (contents s) c)) [unat start..<unat start + ?n]"
    by (rule number_from_upt) (rule assms(3))
  have ns: "\<forall>(c, x) \<in> set (map (\<lambda>c. (of_nat c, fat_word f (contents s) c)) [unat start..<unat start + ?n]). \<not> special_cluster c"
    using not_special_nat [OF ok] assms(3) by auto
  from merge_entries_ok [OF _ ns, of entries] obtain ws where
    ws: "merge_entries (map (\<lambda>c. (of_nat c, fat_word f (contents s) c)) [unat start..<unat start + ?n]) entries = Returns ws"
      "length ws = ?n" by simp
  have w: "write_mirrors bio f start (bytes_of_u32s ws) [0..<unat (mirrors f)] s1 = Returns (s', r)"
    using assms(5) s1(1) ws(1) by (simp add: fat_set_range_def nf)
  have "same_data f (contents s1) (contents s')"
    by (rule write_mirrors_same [OF _ _ _ _ _ w, where k = ?n]) (use assms s1(2) ws(2) in auto)
  then show ?thesis by (simp add: s1(2))
qed

lemma allocate_same:
  assumes "fat_fits f (contents s)" and "0 < num" and "fat_allocate bio f s prev hint num = Returns (s', r)"
  shows "same_data f (contents s) (contents s')"
proof -
  let ?h = "case hint of None \<Rightarrow> allocable_start | Some h \<Rightarrow> h"
  let ?k = "min ALLOCATE_BATCH_LEN num"
  have k: "0 < ?k" "?k < 2 ^ 28" using assms(2) by (simp_all add: ALLOCATE_BATCH_LEN_def)
  from find_free_from [OF assms(1,2) k refl, of ?h] obtain s1 where s1: "contents s1 = contents s" and
    found: "fat_find_free bio f s (Included ?h, Unbounded) num ?k = Returns (s1, Inl ENOSPC) \<or>
      (\<exists>c n. 2 \<le> c \<and> 0 < n \<and> c + n \<le> fat_limit f \<and>
        fat_find_free bio f s (Included ?h, Unbounded) num ?k = Returns (s1, Inr (n, of_nat c)))"
    unfolding Let_def by (metis max.bounded_iff)
  from found show ?thesis
  proof (elim disjE exE conjE)
    assume "fat_find_free bio f s (Included ?h, Unbounded) num ?k = Returns (s1, Inl ENOSPC)"
    then have "fat_allocate bio f s prev hint num = Returns (s1, Inl ENOSPC)"
      unfolding fat_allocate_def Let_def by (simp add: find_free_below [OF k(1)])
    with assms(3) s1 show ?thesis by simp
  next
    fix c n
    assume c: "2 \<le> c" "0 < n" "c + n \<le> fat_limit f"
      and fnd: "fat_find_free bio f s (Included ?h, Unbounded) num ?k = Returns (s1, Inr (n, of_nat c))"
    let ?set = "case prev of None \<Rightarrow> Returns (s1, Inr ()) | Some p \<Rightarrow> fat_set bio f s1 p (Next (of_nat c))"
    have f1: "fat_fits f (contents s1)" using assms(1) by (simp add: s1)
    obtain s2 r2 where s2: "?set = Returns (s2, r2)"
      using set_total [OF f1] by (cases ?set) (auto split: option.splits)
    have same2: "same_data f (contents s) (contents s2)"
      using s2 set_same [OF f1] s1 by (auto split: option.splits)
    note f2 = same_data_fits [OF same2 assms(1)]
    have run: "fat_allocate bio f s prev hint num = io_bind (Returns (s2, r2)) (\<lambda>s _.
        io_bind (if n > 1
          then fat_set_range bio f s (of_nat c) (n - 1) (map (\<lambda>i. Next (of_nat c + of_nat i)) [1..<n])
          else Returns (s, Inr ())) (\<lambda>s _.
        io_bind (fat_set bio f s (of_nat c + of_nat n - 1) End) (\<lambda>s _. Returns (s, Inr (n, of_nat c)))))"
      unfolding fat_allocate_def Let_def using fnd s2 by simp
    show ?thesis
    proof (cases r2)
      case (Inl e)
      with run assms(3) same2 show ?thesis by simp
    next
      case (Inr u)
      from set_links_ok [OF f2 c] obtain s3 where s3:
        "(if n > 1
          then fat_set_range bio f s2 (of_nat c) (n - 1) (map (\<lambda>i. Next (of_nat c + of_nat i)) [1..<n])
          else Returns (s2, Inr ())) = Returns (s3, Inr ())" by blast
      have same3: "same_data f (contents s2) (contents s3)"
      proof (cases "n > 1")
        case True
        have uc: "unat (of_nat c :: u32) = c" by (rule unat_of_cluster) (use c in simp)
        show ?thesis
          by (rule set_range_same [OF f2, of "of_nat c" "map (\<lambda>i. Next (of_nat c + of_nat i)) [1..<n]" s3 "Inr ()"])
            (use c uc True s3 in auto)
      next
        case False
        with s3 show ?thesis by simp
      qed
      note same = same_data_trans [OF same2 same3]
      note f3 = same_data_fits [OF same assms(1)]
      obtain s4 r4 where s4: "fat_set bio f s3 (of_nat c + of_nat n - 1) End = Returns (s4, r4)"
        using set_total [OF f3] by (cases "fat_set bio f s3 (of_nat c + of_nat n - 1) End") auto
      have "s' = s4" using run assms(3) Inr s3 s4 by (cases r4) (auto simp: io_bind_def)
      then show ?thesis using same_data_trans [OF same set_same [OF f3 s4]] by simp
    qed
  qed
qed

lemma iter_next_same:
  assumes "fat_fits f (contents s)" and "iter_next bio f s c = Returns (s', r)"
  shows "contents s' = contents s"
proof (cases "unat c < fat_limit f")
  case True
  from iter_next_ok [OF assms(1) True] assms(2) show ?thesis by auto
next
  case False
  with iter_next_out [of c s] assms(2) show ?thesis by simp
qed

lemma free_loop_same:
  assumes "free_loop bio' f' s cur acc = Some y"
  shows "bio' = bio \<longrightarrow> f' = f \<longrightarrow> fat_fits f (contents s) \<longrightarrow> y = Returns (s', r) \<longrightarrow> same_data f (contents s) (contents s')"
proof (rule free_loop.raw_induct [OF _ assms], intro impI)
  fix loop bio' f' s cur and acc :: nat and y
  assume IH: "\<And>bio' f' s cur acc y. loop bio' f' s cur acc = Some y \<Longrightarrow> bio' = bio \<longrightarrow> f' = f \<longrightarrow>
      fat_fits f (contents s) \<longrightarrow> y = Returns (s', r) \<longrightarrow> same_data f (contents s) (contents s')"
    and body: "(case cur of
       None \<Rightarrow> Some (Returns (s, Inr acc))
     | Some (Inl e) \<Rightarrow> Some (Returns (s, Inl e))
     | Some (Inr c) \<Rightarrow>
      (case iter_next bio' f' s c of
         Returns (s, r) \<Rightarrow>
        (case fat_set bio' f' s c Free of
           Returns (s, Inl e) \<Rightarrow> Some (Returns (s, Inl e))
         | Returns (s, Inr _) \<Rightarrow>
            loop bio' f' s
              (case r of Inl e \<Rightarrow> Some (Inl e) | Inr None \<Rightarrow> None | Inr (Some n) \<Rightarrow> Some (Inr n))
              (acc + 1)
         | Panics \<Rightarrow> Some Panics)
       | Panics \<Rightarrow> Some Panics)) = Some y"
    and h: "bio' = bio" "f' = f" "fat_fits f (contents s)" "y = Returns (s', r)"
  show "same_data f (contents s) (contents s')"
  proof (cases "\<exists>c. cur = Some (Inr c)")
    case False
    with body h show ?thesis by (auto split: option.splits sum.splits)
  next
    case True
    then obtain c where c: "cur = Some (Inr c)" by blast
    from body c h obtain s1 r1 where s1: "iter_next bio f s c = Returns (s1, r1)"
      by (cases "iter_next bio f s c") auto
    note same1 = iter_next_same [OF h(3) s1]
    have f1: "fat_fits f (contents s1)" using h(3) by (simp add: same1)
    from body c h s1 obtain s2 r2 where s2: "fat_set bio f s1 c Free = Returns (s2, r2)"
      by (cases "fat_set bio f s1 c Free") auto
    note same2 = set_same [OF f1 s2]
    show ?thesis
    proof (cases r2)
      case (Inl e)
      with body c h s1 s2 same1 same2 show ?thesis by simp
    next
      case (Inr u)
      with body c h s1 s2 have "loop bio f s2
          (case r1 of Inl e \<Rightarrow> Some (Inl e) | Inr None \<Rightarrow> None | Inr (Some n) \<Rightarrow> Some (Inr n)) (acc + 1) = Some y"
        by simp
      from IH [OF this] h(4) same_data_fits [OF same2 f1] have "same_data f (contents s2) (contents s')" by simp
      with same2 show ?thesis unfolding same1 by (rule same_data_trans)
    qed
  qed
qed

lemma free_same:
  assumes "fat_fits f (contents s)" and "fat_free bio f s c = Some (Returns (s', r))"
  shows "same_data f (contents s) (contents s')"
  using free_loop_same [of bio f s "Some (Inr c)" 0 "Returns (s', r)" s' r] assms by (simp add: fat_free_def)

lemma truncate_same:
  assumes "fat_fits f (contents s)" and "fat_truncate bio f s c = Some (Returns (s', r))"
  shows "same_data f (contents s) (contents s')"
proof -
  from assms(2) obtain s1 r1 where s1: "fat_set bio f s c End = Returns (s1, r1)"
    by (cases "fat_set bio f s c End") (auto simp: fat_truncate_def)
  note same1 = set_same [OF assms(1) s1]
  note f1 = same_data_fits [OF same1 assms(1)]
  show ?thesis
  proof (cases r1)
    case (Inl e)
    with assms(2) s1 same1 show ?thesis by (simp add: fat_truncate_def)
  next
    case (Inr u)
    with assms(2) s1 obtain s2 r2 where s2: "iter_next bio f s1 c = Returns (s2, r2)"
      by (cases "iter_next bio f s1 c") (auto simp: fat_truncate_def)
    note same2 = iter_next_same [OF f1 s2]
    show ?thesis
    proof (cases "\<exists>n. r2 = Inr (Some n)")
      case True
      then obtain n where "fat_free bio f s2 n = Some (Returns (s', r))"
        using assms(2) s1 s2 Inr by (auto simp: fat_truncate_def)
      from free_same [OF _ this] f1 same2 have "same_data f (contents s1) (contents s')" by simp
      with same1 show ?thesis by (rule same_data_trans)
    next
      case False
      then have "s' = s2" using assms(2) s1 s2 Inr by (auto simp: fat_truncate_def split: sum.splits option.splits)
      with same1 same2 show ?thesis by simp
    qed
  qed
qed

end

section \<open>Properties\<close>

text \<open>
  C34: No operation of the table writes outside the table: after an allocation, a release or a
  truncation, with any arguments, on any table however corrupted, and whether or not it succeeds,
  the device has the same length and the same bytes before and behind the table.
\<close>

theorem table_confined:
  assumes "fat_volume bio contents f" and "fat_fits f (contents s)"
  shows "(fat_set bio f s c e = Returns (s', r0) \<longrightarrow> same_data f (contents s) (contents s')) \<and>
    (0 < num \<and> fat_allocate bio f s prev hint num = Returns (s', r1) \<longrightarrow> same_data f (contents s) (contents s')) \<and>
    (fat_free bio f s c = Some (Returns (s', r2)) \<longrightarrow> same_data f (contents s) (contents s')) \<and>
    (fat_truncate bio f s c = Some (Returns (s', r3)) \<longrightarrow> same_data f (contents s) (contents s'))"
  using fat_volume.set_same [OF assms] fat_volume.allocate_same [OF assms] fat_volume.free_same [OF assms]
    fat_volume.truncate_same [OF assms] by blast

theorem table_confined_witness:
  "\<exists>s' r. fat_set (block_of_io ram_io) fat_example disk_example 4 End = Returns (s', r) \<and>
    same_data fat_example (disk_bytes disk_example) (disk_bytes s')"
proof -
  obtain s' r where "fat_set (block_of_io ram_io) fat_example disk_example 4 End = Returns (s', r)"
    using small_volume.set_total [OF fat_example_fits, of 4 End]
    by (cases "fat_set (block_of_io ram_io) fat_example disk_example 4 End") auto
  with table_confined [OF small_volume.fat_volume_axioms fat_example_fits, of 4 End s' r] show ?thesis by blast
qed

end
