(* ===== verification/Umifs.thy ===== *)
theory Umifs
  imports Umio
begin

text \<open>
  The vocabulary of the file system layer (\<^verbatim>\<open>umifs/src/types.rs\<close>, \<^verbatim>\<open>misc.rs\<close>): open options,
  permissions, file types and metadata, and the null and zero devices. A set of flags is the word of
  its bits.
\<close>

section \<open>Flags\<close>

definition flags_contain :: "'a :: len word \<Rightarrow> 'a word \<Rightarrow> bool" where
  "flags_contain s f \<longleftrightarrow> s AND f = f"

type_synonym open_options = u32

definition OPEN_CREAT :: open_options where "OPEN_CREAT = 0x40"
definition OPEN_EXCL :: open_options where "OPEN_EXCL = 0x80"
definition OPEN_DIRECTORY :: open_options where "OPEN_DIRECTORY = 0x10000"

type_synonym permissions = u32

definition SELF_R :: permissions where "SELF_R = push_bit 8 1"
definition SELF_W :: permissions where "SELF_W = push_bit 7 1"
definition SELF_X :: permissions where "SELF_X = push_bit 6 1"
definition GROUP_R :: permissions where "GROUP_R = push_bit 5 1"
definition GROUP_W :: permissions where "GROUP_W = push_bit 4 1"
definition GROUP_X :: permissions where "GROUP_X = push_bit 3 1"
definition OTHERS_R :: permissions where "OTHERS_R = push_bit 2 1"
definition OTHERS_W :: permissions where "OTHERS_W = push_bit 1 1"
definition OTHERS_X :: permissions where "OTHERS_X = push_bit 0 1"

definition permissions_all :: permissions where
  "permissions_all = SELF_R OR SELF_W OR SELF_X OR GROUP_R OR GROUP_W OR GROUP_X OR
    OTHERS_R OR OTHERS_W OR OTHERS_X"

definition all_same :: "bool \<Rightarrow> bool \<Rightarrow> bool \<Rightarrow> permissions" where
  "all_same readable writable executable = (let r = 0;
      r = (if readable then r OR (SELF_R OR GROUP_R OR OTHERS_R) else r);
      r = (if writable then r OR (SELF_W OR GROUP_W OR OTHERS_W) else r)
    in if executable then r OR (SELF_X OR GROUP_X OR OTHERS_X) else r)"

definition perm_me :: "bool \<Rightarrow> bool \<Rightarrow> bool \<Rightarrow> permissions" where
  "perm_me readable writable executable = (let r = 0;
      r = (if readable then r OR SELF_R else r);
      r = (if writable then r OR SELF_W else r)
    in if executable then r OR SELF_X else r)"

type_synonym file_type = u8

definition FT_CHR :: file_type where "FT_CHR = 2"
definition FT_DIR :: file_type where "FT_DIR = 4"
definition FT_REG :: file_type where "FT_REG = 8"
definition FT_FILE :: file_type where "FT_FILE = FT_REG"

definition file_type_is :: "file_type \<Rightarrow> file_type \<Rightarrow> bool" where
  "file_type_is self ty = flags_contain self ty"

section \<open>Metadata\<close>

text \<open>The time stamps of an object; an instant is what the timer component makes of it.\<close>

record 'i times =
  last_access :: "'i option"
  last_modified :: "'i option"
  last_created :: "'i option"

definition times_default :: "'i times" where
  "times_default = \<lparr>last_access = None, last_modified = None, last_created = None\<rparr>"

record 'i metadata =
  md_ty :: file_type
  md_len :: usize
  md_offset :: u64
  md_perm :: permissions
  md_block_size :: usize
  md_block_count :: usize
  md_times :: "'i times"

record 'i set_metadata =
  sm_len :: "usize option"
  sm_perm :: "permissions option"
  sm_times :: "'i times"

record fs_stat =
  fstat_ty :: string
  fstat_block_size :: usize
  fstat_block_count :: usize
  fstat_block_free :: usize
  fstat_file_count :: usize

section \<open>Devices without contents\<close>

text \<open>
  \<open>open_file\<close>: an object that is not a directory is opened by the empty path, never created, and only
  with permissions it has. The result is the object itself.
\<close>

definition open_file :: "'o \<Rightarrow> string \<Rightarrow> open_options \<Rightarrow> permissions \<Rightarrow> permissions \<Rightarrow> error + 'o \<times> bool" where
  "open_file this path options perm self_perm =
    (if path \<noteq> [] \<or> flags_contain options OPEN_DIRECTORY then Inl ENOTDIR
     else if flags_contain options (OPEN_CREAT OR OPEN_EXCL) then Inl EEXIST
     else if \<not> flags_contain self_perm perm then Inl EPERM
     else Inr (this, False))"

definition null_io :: "unit io_ops" where
  "null_io = \<lparr>
    io_seek = (\<lambda>s _. (s, Inr 0)),
    io_read_at = (\<lambda>s _ bufs. (s, bufs, Inr 0)),
    io_write_at = (\<lambda>s _ bufs. (s, Inr (of_nat (ioslice_len bufs)))),
    io_flush = (\<lambda>s. (s, Inr ()))\<rparr>"

definition zero_io :: "unit io_ops" where
  "zero_io = \<lparr>
    io_seek = (\<lambda>s _. (s, Inr 0)),
    io_read_at = (\<lambda>s _ bufs.
      (s, map (map (\<lambda>_. 0)) bufs, Inr (of_nat (foldl (\<lambda>len buf. len + length buf) 0 bufs)))),
    io_write_at = (\<lambda>s _ bufs. (s, Inr (of_nat (ioslice_len bufs)))),
    io_flush = (\<lambda>s. (s, Inr ()))\<rparr>"

definition char_device_len :: usize where
  "char_device_len = of_nat (2 ^ 63 - 1) + 1"

definition char_device_open :: "'o \<Rightarrow> string \<Rightarrow> open_options \<Rightarrow> permissions \<Rightarrow> error + 'o \<times> bool" where
  "char_device_open this path options perm =
    open_file this path options perm (all_same True True False)"

definition char_device_metadata :: "'i metadata" where
  "char_device_metadata = \<lparr>md_ty = FT_CHR, md_len = 0, md_offset = 0, md_perm = all_same True True False,
    md_block_size = 0, md_block_count = 0, md_times = times_default\<rparr>"

end
