(* ===== verification/Fat_Fs.thy ===== *)
theory Fat_Fs
  imports Fat_Properties Fat_Time Umifs
begin

text \<open>
  The mounted volume (\<^verbatim>\<open>afat32/src/fs.rs\<close>): mounting, cluster allocation with the
  bookkeeping of the FSInfo sector, the position of clusters on the device, flushing, the dirty flag
  and statistics. An operation threads the device state and the volume, whose FSInfo data and status
  flags are the fields behind the lock and the atomic of the source.
\<close>

section \<open>Mounting\<close>

record fat_fs =
  fs_fat :: fat
  fs_bpb :: bpb
  fs_info :: fs_info_sector_data
  current_status_flags :: u8
  fs_time :: time_provider

definition fs_info_sector_no :: "bpb \<Rightarrow> u32" where
  "fs_info_sector_no b = ucast (fs_info_sector b)"

text \<open>
  \<open>FatFileSystem::new\<close>. The second read is unwrapped, so that its failure panics; a shift count is
  taken modulo the width of the shifted type.
\<close>

definition fs_new ::
  "'e nom_ops \<Rightarrow> 's block_io \<Rightarrow> 's \<Rightarrow> u32 \<Rightarrow> time_provider \<Rightarrow> ('s, fat_fs) fres" where
  "fs_new N bio s block_shift tp = (let len = 2 ^ (unat block_shift mod 64) in
    io_bind (Returns (bio_read bio s 0 len)) (\<lambda>s b0.
    case boot_sector_parse N b0 of
      Inl e \<Rightarrow> Returns (s, Inl (error_of_nom e))
    | Inr (_, bs) \<Rightarrow> let b = bs_bpb bs in
      if \<not> is_fat32 b then Returns (s, Inl ENOSYS)
      else let fis = bytes_from_sectors b (fs_info_sector_no b) in
        (case bio_read bio s fis len of
           (s, Inl e) \<Rightarrow> Panics
         | (s, Inr b0) \<Rightarrow>
          (case fs_info_parse N b0 of
             Inl e \<Rightarrow> Returns (s, Inl (error_of_nom e))
           | Inr (_, fis) \<Rightarrow>
              bind_out (total_clusters b) (\<lambda>clusters.
              bind_out (fat_new b) (\<lambda>f.
                Returns (s, Inr \<lparr>fs_fat = f, fs_bpb = b, fs_info = fs_info_fix fis clusters,
                  current_status_flags = status_encode (status_flags b), fs_time = tp\<rparr>)))))))"

section \<open>Clusters on the device\<close>

definition sector_from_cluster :: "fat_fs \<Rightarrow> u32 \<Rightarrow> u32 outcome" where
  "sector_from_cluster fs cluster =
    bind_out (first_data_sector (fs_bpb fs)) (\<lambda>first.
      Returns (first + sectors_from_clusters (fs_bpb fs) (cluster - RESERVED_FAT_ENTRIES)))"

definition offset_from_cluster :: "fat_fs \<Rightarrow> u32 \<Rightarrow> u64 outcome" where
  "offset_from_cluster fs cluster =
    bind_out (sector_from_cluster fs cluster) (\<lambda>sector.
      Returns (bytes_from_sectors (fs_bpb fs) sector))"

lemma zeros_step:
  assumes "0 < (len :: usize)"
  shows "unat (len - of_nat (min (unat len) 4096)) = unat len - min (unat len) 4096"
proof -
  have u: "unat (of_nat (min (unat len) 4096) :: usize) = min (unat len) 4096"
    by (simp add: unat_of_nat)
  then have "(of_nat (min (unat len) 4096) :: usize) \<le> len" by (simp add: word_le_nat_alt)
  then show ?thesis by (simp add: unat_sub u)
qed

function write_zeros :: "'s block_io \<Rightarrow> 's \<Rightarrow> usize \<Rightarrow> usize \<Rightarrow> ('s, unit) fres" where
  "write_zeros bio s start len =
    (if len > 0 then
       let write_size = min (unat len) 4096 in
       io_bind (Returns (bio_write bio s start (replicate write_size 0))) (\<lambda>s _.
         write_zeros bio s (start + of_nat write_size) (len - of_nat write_size))
     else Returns (s, Inr ()))"
  by pat_completeness auto

termination
proof (relation "measure (\<lambda>(bio, s, start, len). unat len)")
  fix bio :: "'s block_io" and s start and len :: usize and write_size and s' :: 's and x :: unit
  assume a: "0 < len" "write_size = min (unat len) 4096"
  then have "0 < unat len" by (simp add: word_less_nat_alt)
  then show "((bio, s', start + of_nat write_size, len - of_nat write_size), bio, s, start, len)
      \<in> measure (\<lambda>(bio, s, start, len). unat len)"
    using zeros_step [OF a(1)] a(2) by simp
qed simp

declare write_zeros.simps [simp del]

section \<open>Allocation and release\<close>

text \<open>Updates of the volume next to an operation on the device.\<close>

definition with_fs :: "fat_fs \<Rightarrow> ('s, 'a) fres \<Rightarrow> ('s \<times> fat_fs, 'a) fres" where
  "with_fs fs m = bind_out m (\<lambda>(s, r). Returns ((s, fs), r))"

lemma with_fs_simps [simp]:
  "with_fs fs (Returns (s, r)) = Returns ((s, fs), r)" "with_fs fs Panics = Panics"
  by (simp_all add: with_fs_def)

definition map_fs_info :: "(fs_info_sector_data \<Rightarrow> fs_info_sector_data) \<Rightarrow> fat_fs \<Rightarrow> fat_fs" where
  "map_fs_info g fs = fs\<lparr>fs_info := g (fs_info fs)\<rparr>"

definition alloc_cluster ::
  "'s block_io \<Rightarrow> 's \<times> fat_fs \<Rightarrow> u32 option \<Rightarrow> nat \<Rightarrow> bool \<Rightarrow> ('s \<times> fat_fs, nat \<times> u32) fres" where
  "alloc_cluster bio sf prev_cluster num zero = (let (s, fs) = sf in
    io_bind (with_fs fs
      (fat_allocate bio (fs_fat fs) s prev_cluster (next_free_cluster (fs_info fs)) num)) (\<lambda>(s, fs) (num, cluster).
    io_bind
      (if zero then
         bind_out (offset_from_cluster fs cluster) (\<lambda>offset.
           with_fs fs (write_zeros bio s offset (ucast (cluster_size (fs_bpb fs) * of_nat num))))
       else Returns ((s, fs), Inr ())) (\<lambda>(s, fs) _.
    let fs = map_fs_info (set_next_free_cluster (cluster + of_nat num)) fs;
      fs = map_fs_info (map_free_clusters (\<lambda>n. n - of_nat num)) fs
    in Returns ((s, fs), Inr (num, cluster)))))"

text \<open>The number of clusters freed is added to the count of free clusters, if that is known.\<close>

definition count_freed :: "'s block_io \<Rightarrow> fat_fs \<Rightarrow> ('s, nat) fres option \<Rightarrow> ('s \<times> fat_fs, unit) fres option" where
  "count_freed bio fs r = map_option (\<lambda>m.
    io_bind (with_fs fs m) (\<lambda>(s, fs) num_free.
      Returns ((s, map_fs_info (map_free_clusters (\<lambda>n. n + of_nat num_free)) fs), Inr ()))) r"

definition truncate_cluster_chain :: "'s block_io \<Rightarrow> 's \<times> fat_fs \<Rightarrow> u32 \<Rightarrow> ('s \<times> fat_fs, unit) fres option" where
  "truncate_cluster_chain bio sf cluster = (let (s, fs) = sf in
    count_freed bio fs (fat_truncate bio (fs_fat fs) s cluster))"

definition free_cluster_chain :: "'s block_io \<Rightarrow> 's \<times> fat_fs \<Rightarrow> u32 \<Rightarrow> ('s \<times> fat_fs, unit) fres option" where
  "free_cluster_chain bio sf cluster = (let (s, fs) = sf in
    count_freed bio fs (fat_free bio (fs_fat fs) s cluster))"

section \<open>Flushing and statistics\<close>

fun write_pieces :: "'s block_io \<Rightarrow> usize \<Rightarrow> u8 list list \<Rightarrow> 's \<Rightarrow> ('s, unit) fres" where
  "write_pieces bio offset [] s = Returns (s, Inr ())"
| "write_pieces bio offset (b # bs) s =
    io_bind (Returns (bio_write bio s offset b)) (\<lambda>s _. write_pieces bio offset bs s)"

definition flush_fs_info :: "'s block_io \<Rightarrow> 's \<times> fat_fs \<Rightarrow> ('s \<times> fat_fs, unit) fres" where
  "flush_fs_info bio sf = (let (s, fs) = sf;
      was_dirty = fis_dirty (fs_info fs);
      fs = map_fs_info (\<lambda>fis. fis\<lparr>fis_dirty := False\<rparr>) fs in
    if was_dirty then
      let (prefix, suffix) = fs_info_to_bytes (fs_info fs);
        offset = bytes_from_sectors (fs_bpb fs) (ucast (fs_info_sector (fs_bpb fs)))
      in with_fs fs (write_pieces bio offset [prefix, replicate 480 0, suffix] s)
    else Returns ((s, fs), Inr ()))"

definition set_dirty_flag :: "'s block_io \<Rightarrow> 's \<times> fat_fs \<Rightarrow> bool \<Rightarrow> ('s \<times> fat_fs, unit) fres" where
  "set_dirty_flag bio sf d = (let (s, fs) = sf;
      flags = status_flags (fs_bpb fs);
      flags = flags\<lparr>dirty := dirty flags \<or> d\<rparr>;
      current_flags = status_decode (current_status_flags fs) in
    if flags = current_flags then Returns ((s, fs), Inr ())
    else let encoded = status_encode flags in
      io_bind (with_fs fs (Returns (bio_write bio s 0x041 [encoded]))) (\<lambda>(s, fs) _.
        Returns ((s, fs\<lparr>current_status_flags := status_encode flags\<rparr>), Inr ())))"

definition fs_flush :: "'s block_io \<Rightarrow> 's \<times> fat_fs \<Rightarrow> ('s \<times> fat_fs, unit) fres" where
  "fs_flush bio sf = io_bind (flush_fs_info bio sf) (\<lambda>sf _. set_dirty_flag bio sf False)"

definition recalc_free_clusters :: "'s block_io \<Rightarrow> 's \<times> fat_fs \<Rightarrow> (('s \<times> fat_fs) \<times> u32) outcome" where
  "recalc_free_clusters bio sf = (let (s, fs) = sf in
    bind_out (count_free bio (fs_fat fs) s) (\<lambda>(s, n).
      Returns ((s, map_fs_info (set_free_cluster_count (of_nat n)) fs), of_nat n)))"

record fat_stats =
  st_cluster_size :: u32
  st_total_clusters :: u32
  st_free_clusters :: u32

definition fs_stats :: "'s block_io \<Rightarrow> 's \<times> fat_fs \<Rightarrow> (('s \<times> fat_fs) \<times> fat_stats) outcome" where
  "fs_stats bio sf =
    bind_out (case free_cluster_count (fs_info (snd sf)) of
        Some n \<Rightarrow> Returns (sf, n)
      | None \<Rightarrow> recalc_free_clusters bio sf) (\<lambda>(sf, free_clusters).
      Returns (sf, \<lparr>st_cluster_size = cluster_size (fs_bpb (snd sf)),
        st_total_clusters = cluster_count (fs_fat (snd sf)), st_free_clusters = free_clusters\<rparr>))"

definition fs_status :: "fat_fs \<Rightarrow> fs_status_flags" where
  "fs_status fs = status_decode (current_status_flags fs)"

definition fs_stat_of :: "fat_stats \<Rightarrow> fs_stat" where
  "fs_stat_of st = \<lparr>fstat_ty = ''fat32'', fstat_block_size = ucast (st_cluster_size st),
    fstat_block_count = ucast (st_total_clusters st), fstat_block_free = ucast (st_free_clusters st),
    fstat_file_count = 0xdeadbeef\<rparr>"

end
