(* ===== verification/Fat_Fs_Spec.thy ===== *)
theory Fat_Fs_Spec
  imports Fat_Fs Fat_Confined
begin

text \<open>
  Correctness of the mounted volume: the geometry of a volume whose parts do not overlap, zeroing,
  allocation together with the FSInfo bookkeeping, and what flushing does to the FSInfo sector.
\<close>

section \<open>Geometry\<close>

definition first_sector :: "bpb \<Rightarrow> nat" where
  "first_sector b = unat (reserved_sectors b) + unat (fats b) * unat (sectors_per_fat b) +
    (unat (root_entries b) * 32 + unat (bytes_per_sector b) - 1) div unat (bytes_per_sector b)"

definition geometry_ok :: "bpb \<Rightarrow> bool" where
  "geometry_ok b \<longleftrightarrow> 0 < unat (bytes_per_sector b) \<and> 0 < unat (sectors_per_cluster b) \<and>
    first_sector b \<le> unat (total_sectors b)"

definition cluster_bytes :: "bpb \<Rightarrow> nat" where
  "cluster_bytes b = unat (sectors_per_cluster b) * unat (bytes_per_sector b)"

definition clusters_of :: "bpb \<Rightarrow> nat" where
  "clusters_of b = (unat (total_sectors b) - first_sector b) div unat (sectors_per_cluster b)"

definition cluster_pos :: "bpb \<Rightarrow> nat \<Rightarrow> nat" where
  "cluster_pos b c = first_sector b * unat (bytes_per_sector b) + (c - 2) * cluster_bytes b"

lemma unat_ucast_u16_u32 [simp]: "unat (ucast (w :: u16) :: u32) = unat w"
  using unat_lt [of w] by (simp add: unsigned_ucast_eq take_bit_nat_eq_self)

lemma unat_ucast_u8_u32 [simp]: "unat (ucast (w :: u8) :: u32) = unat w"
  using unat_lt [of w] by (simp add: unsigned_ucast_eq take_bit_nat_eq_self)

lemma unat_ucast_u16_u64 [simp]: "unat (ucast (w :: u16) :: u64) = unat w"
  using unat_lt [of w] by (simp add: unsigned_ucast_eq take_bit_nat_eq_self)

lemma unat_u8_bound: "unat (w :: u8) < 2 ^ 8" and unat_u16_bound: "unat (v :: u16) < 2 ^ 16"
  using unat_lt [of w] unat_lt [of v] by simp_all

lemma root_dir_sectors_eq:
  assumes "0 < unat (bytes_per_sector b)"
  shows "\<exists>w. root_dir_sectors b = Returns w \<and>
    unat w = (unat (root_entries b) * 32 + unat (bytes_per_sector b) - 1) div unat (bytes_per_sector b)"
proof -
  let ?bps = "ucast (bytes_per_sector b) :: u32"
  have nz: "?bps \<noteq> 0" using assms by (metis unat_0 unat_ucast_u16_u32 less_irrefl)
  have e: "unat (ucast (root_entries b) * DIR_ENTRY_SIZE) = unat (root_entries b) * 32"
    using unat_u16_bound [of "root_entries b"]
    by (subst unat_mult_no_overflow) (simp_all add: DIR_ENTRY_SIZE_def)
  have s: "unat (ucast (root_entries b) * DIR_ENTRY_SIZE + ?bps) = unat (root_entries b) * 32 + unat (bytes_per_sector b)"
    using unat_u16_bound [of "root_entries b"] unat_u16_bound [of "bytes_per_sector b"]
    by (subst unat_add_no_overflow) (simp_all add: e)
  have "unat (ucast (root_entries b) * DIR_ENTRY_SIZE + ?bps - 1) =
      unat (root_entries b) * 32 + unat (bytes_per_sector b) - 1"
    by (subst unat_sub) (use assms in \<open>simp_all add: word_le_nat_alt s\<close>)
  then show ?thesis using nz by (simp add: root_dir_sectors_def Let_def unat_div)
qed

lemma first_data_sector_eq:
  assumes "geometry_ok b"
  shows "\<exists>w. first_data_sector b = Returns w \<and> unat w = first_sector b"
proof -
  from assms root_dir_sectors_eq [of b] obtain r where r: "root_dir_sectors b = Returns r"
    "unat r = (unat (root_entries b) * 32 + unat (bytes_per_sector b) - 1) div unat (bytes_per_sector b)"
    by (auto simp: geometry_ok_def)
  have lim: "first_sector b < 2 ^ 32"
    using assms unat_lt [of "total_sectors b"] by (simp add: geometry_ok_def)
  have m: "unat (sectors_per_all_fats b) = unat (fats b) * unat (sectors_per_fat b)"
    unfolding sectors_per_all_fats_def
    by (subst unat_mult_no_overflow) (use lim in \<open>simp_all add: first_sector_def\<close>)
  have a: "unat (ucast (reserved_sectors b) + sectors_per_all_fats b) =
      unat (reserved_sectors b) + unat (fats b) * unat (sectors_per_fat b)"
    by (subst unat_add_no_overflow) (use lim in \<open>simp_all add: first_sector_def m\<close>)
  have "unat (ucast (reserved_sectors b) + sectors_per_all_fats b + r) = first_sector b"
    by (subst unat_add_no_overflow) (use lim in \<open>simp_all add: first_sector_def a r(2)\<close>)
  then show ?thesis using r(1) by (simp add: first_data_sector_def)
qed

lemma total_clusters_eq:
  assumes "geometry_ok b"
  shows "\<exists>w. total_clusters b = Returns w \<and> unat w = clusters_of b"
proof -
  from first_data_sector_eq [OF assms] obtain f where f: "first_data_sector b = Returns f" "unat f = first_sector b"
    by blast
  have nz: "(ucast (sectors_per_cluster b) :: u32) \<noteq> 0"
    using assms by (metis geometry_ok_def unat_0 unat_ucast_u8_u32 less_irrefl)
  have "unat (total_sectors b - f) = unat (total_sectors b) - first_sector b"
    by (subst unat_sub) (use assms f(2) in \<open>simp_all add: word_le_nat_alt geometry_ok_def\<close>)
  then show ?thesis
    using nz by (simp add: total_clusters_def f(1) Let_def unat_div clusters_of_def)
qed

lemma clusters_end:
  assumes "geometry_ok b" and "2 \<le> c" and "c < clusters_of b + 2"
  shows "first_sector b + (c - 2) * unat (sectors_per_cluster b) + unat (sectors_per_cluster b) \<le>
    unat (total_sectors b)"
proof -
  let ?spc = "unat (sectors_per_cluster b)"
  have "(c - 1) * ?spc \<le> clusters_of b * ?spc" using assms(2,3) by (intro mult_right_mono) auto
  also have "\<dots> \<le> unat (total_sectors b) - first_sector b"
    unfolding clusters_of_def by (metis div_times_less_eq_dividend mult.commute)
  finally have "(c - 1) * ?spc \<le> unat (total_sectors b) - first_sector b" .
  moreover have "(c - 1) * ?spc = (c - 2) * ?spc + ?spc"
  proof -
    have "c - 1 = Suc (c - 2)" using assms(2) by simp
    then show ?thesis by simp
  qed
  ultimately show ?thesis using assms(1) unfolding geometry_ok_def by linarith
qed

lemma unat_bytes_from_sectors:
  "unat (bytes_from_sectors b n) = unat n * unat (bytes_per_sector b)"
proof -
  have "unat n * unat (bytes_per_sector b) < 2 ^ 32 * 2 ^ 16"
    using unat_lt [of n] unat_u16_bound [of "bytes_per_sector b"] by (intro mult_strict_mono') simp_all
  then show ?thesis
    unfolding bytes_from_sectors_def
    by (subst unat_mult_no_overflow) (simp_all add: unat_ucast_usize)
qed

lemma unat_cluster_size: "unat (cluster_size b) = cluster_bytes b"
proof -
  have "unat (sectors_per_cluster b) * unat (bytes_per_sector b) < 2 ^ 8 * 2 ^ 16"
    using unat_u8_bound [of "sectors_per_cluster b"] unat_u16_bound [of "bytes_per_sector b"]
    by (intro mult_strict_mono') simp_all
  then show ?thesis
    unfolding cluster_size_def cluster_bytes_def by (subst unat_mult_no_overflow) simp_all
qed

lemma offset_from_cluster_eq:
  assumes "geometry_ok (fs_bpb fs)" and "2 \<le> unat c" and "unat c < clusters_of (fs_bpb fs) + 2"
  shows "\<exists>w. offset_from_cluster fs c = Returns w \<and> unat w = cluster_pos (fs_bpb fs) (unat c)"
proof -
  let ?b = "fs_bpb fs"
  let ?spc = "unat (sectors_per_cluster ?b)"
  from first_data_sector_eq [OF assms(1)] obtain f where f: "first_data_sector ?b = Returns f" "unat f = first_sector ?b"
    by blast
  have lim: "first_sector ?b + (unat c - 2) * ?spc < 2 ^ 32"
    using clusters_end [OF assms] unat_lt [of "total_sectors ?b"] assms(1) by (simp add: geometry_ok_def)
  have c: "unat (c - RESERVED_FAT_ENTRIES) = unat c - 2"
    using assms(2) by (subst unat_sub) (simp_all add: RESERVED_FAT_ENTRIES_def word_le_nat_alt)
  have s: "unat (sectors_from_clusters ?b (c - RESERVED_FAT_ENTRIES)) = (unat c - 2) * ?spc"
    unfolding sectors_from_clusters_def by (subst unat_mult_no_overflow) (use lim c in simp_all)
  have "unat (f + sectors_from_clusters ?b (c - RESERVED_FAT_ENTRIES)) = first_sector ?b + (unat c - 2) * ?spc"
    by (subst unat_add_no_overflow) (use lim s f(2) in simp_all)
  then show ?thesis
    by (simp add: offset_from_cluster_def sector_from_cluster_def f(1) unat_bytes_from_sectors
        cluster_pos_def cluster_bytes_def distrib_right mult.assoc)
qed

lemma cluster_pos_end:
  assumes "geometry_ok b" and "2 \<le> c" and "c < clusters_of b + 2"
  shows "cluster_pos b c + cluster_bytes b \<le> unat (total_sectors b) * unat (bytes_per_sector b)"
proof -
  have "(first_sector b + (c - 2) * unat (sectors_per_cluster b) + unat (sectors_per_cluster b)) *
      unat (bytes_per_sector b) \<le> unat (total_sectors b) * unat (bytes_per_sector b)"
    using clusters_end [OF assms] by (rule mult_right_mono) simp
  then show ?thesis by (simp add: cluster_pos_def cluster_bytes_def distrib_right mult.assoc)
qed

lemma cluster_pos_step: "2 \<le> c \<Longrightarrow> c < d \<Longrightarrow> cluster_pos b c + cluster_bytes b \<le> cluster_pos b d"
proof -
  assume a: "2 \<le> c" "c < d"
  then have "Suc (c - 2) * cluster_bytes b \<le> (d - 2) * cluster_bytes b" by (intro mult_right_mono) auto
  then show ?thesis by (simp add: cluster_pos_def)
qed

lemma cluster_pos_add: "2 \<le> c \<Longrightarrow> cluster_pos b (c + k) = cluster_pos b c + k * cluster_bytes b"
  by (simp add: cluster_pos_def add_mult_distrib [symmetric])

section \<open>A consistent volume\<close>

text \<open>
  The table the driver uses is the one the boot sector describes, it is large enough for the
  clusters, and the device holds all sectors.
\<close>

definition volume_ok :: "fat_fs \<Rightarrow> u8 list \<Rightarrow> bool" where
  "volume_ok fs cs \<longleftrightarrow> (let b = fs_bpb fs in
    geometry_ok b \<and> fat_new b = Returns (fs_fat fs) \<and> unat (active_fat b) < unat (fats b) \<and>
    clusters_of b + 2 \<le> 0x0FFFFFF7 \<and>
    4 * (clusters_of b + 2) \<le> unat (sectors_per_fat b) * unat (bytes_per_sector b) \<and>
    unat (total_sectors b) * unat (bytes_per_sector b) \<le> length cs)"

lemma fat_new_fields:
  assumes "fat_new b = Returns f" and "total_clusters b = Returns tc"
  shows "cluster_count f = tc"
    and "mirroring_enabled b \<Longrightarrow>
      mirrors f = fats b \<and> start_offset f = bytes_from_sectors b (ucast (reserved_sectors b))"
    and "\<not> mirroring_enabled b \<Longrightarrow> mirrors f = 1 \<and>
      start_offset f = bytes_from_sectors b (ucast (reserved_sectors b) + ucast (active_fat b) * sectors_per_fat b)"
  using assms(1) by (auto simp: fat_new_def Let_def assms(2) split: if_splits)

lemma volume_fat:
  assumes "volume_ok fs cs"
  shows "fat_ok (fs_fat fs)" and "fat_limit (fs_fat fs) = clusters_of (fs_bpb fs) + 2"
    and "unat (start_offset (fs_fat fs)) + 4 * unat (cluster_count (fs_fat fs)) * (unat (mirrors (fs_fat fs)) - 1) +
      4 * fat_limit (fs_fat fs) \<le> first_sector (fs_bpb fs) * unat (bytes_per_sector (fs_bpb fs))"
proof -
  let ?b = "fs_bpb fs" and ?f = "fs_fat fs"
  let ?spf = "unat (sectors_per_fat ?b)" and ?bps = "unat (bytes_per_sector ?b)"
  have g: "geometry_ok ?b" and new: "fat_new ?b = Returns ?f" and act: "unat (active_fat ?b) < unat (fats ?b)"
    and lim: "clusters_of ?b + 2 \<le> 0x0FFFFFF7" and big: "4 * (clusters_of ?b + 2) \<le> ?spf * ?bps"
    using assms by (simp_all add: volume_ok_def Let_def)
  from total_clusters_eq [OF g] obtain tc where tc: "total_clusters ?b = Returns tc" "unat tc = clusters_of ?b"
    by blast
  have cc: "unat (cluster_count ?f) = clusters_of ?b"
    using fat_new_fields(1) [OF new tc(1)] tc(2) by simp
  show limit: "fat_limit ?f = clusters_of ?b + 2" by (simp add: fat_limit_def cc)
  have first: "unat (reserved_sectors ?b) + unat (fats ?b) * ?spf \<le> first_sector ?b"
    by (simp add: first_sector_def)
  have small: "first_sector ?b < 2 ^ 32" using g unat_lt [of "total_sectors ?b"] by (simp add: geometry_ok_def)
  have bound: "(unat (reserved_sectors ?b) + (unat (active_fat ?b) + 1) * ?spf) * ?bps \<le> first_sector ?b * ?bps"
  proof (rule mult_right_mono)
    have "(unat (active_fat ?b) + 1) * ?spf \<le> unat (fats ?b) * ?spf" using act by (intro mult_right_mono) auto
    with first show "unat (reserved_sectors ?b) + (unat (active_fat ?b) + 1) * ?spf \<le> first_sector ?b" by linarith
  qed simp
  show "fat_ok ?f"
  proof (cases "mirroring_enabled ?b")
    case True
    then have "mirrors ?f = fats ?b" using fat_new_fields(2) [OF new tc(1)] by simp
    then show ?thesis using act limit lim by (simp add: fat_ok_def)
  next
    case False
    then have "mirrors ?f = 1" using fat_new_fields(3) [OF new tc(1)] by simp
    then show ?thesis using limit lim by (simp add: fat_ok_def)
  qed
  show "unat (start_offset ?f) + 4 * unat (cluster_count ?f) * (unat (mirrors ?f) - 1) + 4 * fat_limit ?f \<le>
      first_sector ?b * ?bps"
  proof (cases "mirroring_enabled ?b")
    case True
    then have m: "mirrors ?f = fats ?b" "start_offset ?f = bytes_from_sectors ?b (ucast (reserved_sectors ?b))"
      using fat_new_fields(2) [OF new tc(1)] by simp_all
    obtain k where k: "unat (fats ?b) = Suc k" using act by (cases "unat (fats ?b)") auto
    have "4 * clusters_of ?b * k \<le> ?spf * ?bps * k" using big by (intro mult_right_mono) auto
    then have "4 * clusters_of ?b * k + 4 * (clusters_of ?b + 2) \<le> ?spf * ?bps * Suc k"
      using big unfolding mult_Suc_right by linarith
    moreover have "unat (reserved_sectors ?b) * ?bps + ?spf * ?bps * Suc k \<le> first_sector ?b * ?bps"
    proof -
      have "(unat (reserved_sectors ?b) + unat (fats ?b) * ?spf) * ?bps \<le> first_sector ?b * ?bps"
        using first by (rule mult_right_mono) simp
      moreover have "?spf * ?bps * Suc k = Suc k * ?spf * ?bps" by (simp only: mult_ac)
      ultimately show ?thesis unfolding k by (simp only: distrib_right)
    qed
    ultimately show ?thesis
      unfolding m cc limit k unat_bytes_from_sectors by simp
  next
    case False
    then have m: "mirrors ?f = 1"
      "start_offset ?f = bytes_from_sectors ?b (ucast (reserved_sectors ?b) + ucast (active_fat ?b) * sectors_per_fat ?b)"
      using fat_new_fields(3) [OF new tc(1)] by simp_all
    have "unat (reserved_sectors ?b) + unat (active_fat ?b) * ?spf < 2 ^ 32"
    proof -
      have "unat (active_fat ?b) * ?spf \<le> unat (fats ?b) * ?spf" using act by (intro mult_right_mono) auto
      with first small show ?thesis by linarith
    qed
    then have st: "unat (ucast (reserved_sectors ?b) + ucast (active_fat ?b) * sectors_per_fat ?b) =
        unat (reserved_sectors ?b) + unat (active_fat ?b) * ?spf"
      by (subst unat_add_no_overflow; subst unat_mult_no_overflow) simp_all
    have "(unat (reserved_sectors ?b) + unat (active_fat ?b) * ?spf) * ?bps + ?spf * ?bps =
        (unat (reserved_sectors ?b) + (unat (active_fat ?b) + 1) * ?spf) * ?bps"
      by (simp add: algebra_simps)
    moreover have "unat (1 :: u8) - 1 = 0" by simp
    ultimately show ?thesis
      using bound big unfolding m limit unat_bytes_from_sectors st by (simp only: mult_0_right add_0_right)
  qed
qed

lemma volume_fits:
  assumes "volume_ok fs cs"
  shows "fat_fits (fs_fat fs) cs"
proof -
  have "first_sector (fs_bpb fs) * unat (bytes_per_sector (fs_bpb fs)) \<le>
      unat (total_sectors (fs_bpb fs)) * unat (bytes_per_sector (fs_bpb fs))"
    by (rule mult_right_mono) (use assms in \<open>simp_all add: volume_ok_def geometry_ok_def Let_def\<close>)
  moreover have "unat (total_sectors (fs_bpb fs)) * unat (bytes_per_sector (fs_bpb fs)) \<le> length cs"
    using assms by (simp add: volume_ok_def Let_def)
  ultimately show ?thesis using volume_fat(3) [OF assms] unfolding fat_fits_def by linarith
qed

lemma volume_view_data:
  assumes "volume_ok fs cs" and "first_sector (fs_bpb fs) * unat (bytes_per_sector (fs_bpb fs)) \<le> off"
    and "off + length zs \<le> length cs" and "c < fat_limit (fs_fat fs)"
  shows "fat_view (fs_fat fs) (overwrite off zs cs) c = fat_view (fs_fat fs) cs c"
proof -
  have "unat (start_offset (fs_fat fs)) + 4 * c + 4 \<le> off"
    using volume_fat(3) [OF assms(1)] assms(2,4) by linarith
  then show ?thesis
    unfolding fat_view_def fat_word_def using slice_overwrite_other [OF assms(3)] by simp
qed

lemma volume_ok_cong:
  "volume_ok fs cs \<Longrightarrow> fs_bpb fs' = fs_bpb fs \<Longrightarrow> fs_fat fs' = fs_fat fs \<Longrightarrow> length cs' = length cs \<Longrightarrow>
    volume_ok fs' cs'"
  by (simp add: volume_ok_def)

lemma cluster_pos_first: "first_sector b * unat (bytes_per_sector b) \<le> cluster_pos b c"
  by (simp add: cluster_pos_def)

text \<open>The pieces of the FSInfo sector written at the same position.\<close>

lemma flush_pieces:
  fixes cs :: "u8 list" and fis :: fs_info_sector_data
  assumes "off + 512 \<le> length cs"
  defines "cs' \<equiv> fold (overwrite off) [fst (fs_info_to_bytes fis), replicate 480 0, snd (fs_info_to_bytes fis)] cs"
  shows "length cs' = length cs" and "n \<le> off \<Longrightarrow> slice_at 0 n cs' = slice_at 0 n cs"
    and "take 4 (slice_at off 512 cs') = le_bytes 4 STRUC_SIG"
proof -
  let ?a = "fst (fs_info_to_bytes fis)" and ?z = "replicate 480 0 :: u8 list" and ?c = "snd (fs_info_to_bytes fis)"
  have la: "length ?a = 4" "length ?c = 28" by (simp_all add: fs_info_to_bytes_def)
  have l1: "length (overwrite off ?a cs) = length cs" using assms(1) la by simp
  have l2: "length (overwrite off ?z (overwrite off ?a cs)) = length cs" using assms(1) l1 by simp
  have l3: "off + length ?c \<le> length (overwrite off ?z (overwrite off ?a cs))" using assms(1) la l2 by simp
  have eq: "cs' = overwrite off ?c (overwrite off ?z (overwrite off ?a cs))" by (simp add: cs'_def)
  show "length cs' = length cs" unfolding eq using l3 l2 by simp
  show "slice_at 0 n cs' = slice_at 0 n cs" if "n \<le> off"
    unfolding eq using that l1 l2 l3 assms(1) la
    by (simp add: slice_overwrite_other)
  have "take 4 (slice_at off 512 cs') = take 4 (slice_at off 28 cs')" by (simp add: slice_at_def)
  also have "slice_at off 28 cs' = ?c" unfolding eq by (rule slice_overwrite_same) (use l3 la in simp_all)
  also have "take 4 ?c = le_bytes 4 STRUC_SIG" by (simp add: fs_info_to_bytes_def)
  finally show "take 4 (slice_at off 512 cs') = le_bytes 4 STRUC_SIG" .
qed

lemma sigs_differ: "le_bytes 4 STRUC_SIG \<noteq> le_bytes 4 LEAD_SIG"
proof
  assume "le_bytes 4 STRUC_SIG = le_bytes 4 LEAD_SIG"
  then have "(of_le (le_bytes 4 STRUC_SIG) :: u32) = of_le (le_bytes 4 LEAD_SIG)" by (simp only:)
  then show False by (simp add: STRUC_SIG_def LEAD_SIG_def)
qed

section \<open>Zeroing and allocation\<close>

context block_device
begin

lemma write_zeros_ok:
  assumes "unat start + unat len \<le> length (contents s)"
  shows "\<exists>s'. write_zeros bio s start len = Returns (s', Inr ()) \<and>
    contents s' = overwrite (unat start) (replicate (unat len) 0) (contents s)"
  using assms
proof (induction "unat len" arbitrary: s start len rule: less_induct)
  case less
  show ?case
  proof (cases "0 < len")
    case False
    then have "len = 0" by (simp add: word_gt_0)
    with less.prems show ?thesis by (subst write_zeros.simps) simp
  next
    case True
    let ?n = "min (unat len) 4096"
    have pos: "0 < unat len" using True by (simp add: word_less_nat_alt)
    have n: "unat (of_nat ?n :: usize) = ?n" by (simp add: unat_of_nat)
    note rest = zeros_step [OF True]
    have "unat start + unat (of_nat ?n :: usize) < 2 ^ 64"
      using less.prems bio_small [of s] unfolding n by linarith
    then have start: "unat (start + of_nat ?n) = unat start + ?n"
      using unat_add_no_overflow [of start "of_nat ?n"] unfolding n by simp
    have "unat start + length (replicate ?n (0 :: u8)) \<le> length (contents s)" using less.prems by simp
    from bio_write_ok [OF this] obtain s1 where s1: "bio_write bio s start (replicate ?n 0) = (s1, Inr ())"
      "contents s1 = overwrite (unat start) (replicate ?n 0) (contents s)" by blast
    have len1: "length (contents s1) = length (contents s)" using less.prems by (simp add: s1(2))
    have "unat (start + of_nat ?n) + unat (len - of_nat ?n) \<le> length (contents s1)"
      unfolding len1 start rest using less.prems by simp
    moreover have "unat (len - of_nat ?n) < unat len" unfolding rest using pos by simp
    ultimately obtain s' where s': "write_zeros bio s1 (start + of_nat ?n) (len - of_nat ?n) = Returns (s', Inr ())"
      "contents s' = overwrite (unat start + ?n) (replicate (unat len - ?n) 0) (contents s1)"
      using less.hyps [of "len - of_nat ?n" "start + of_nat ?n" s1] unfolding start rest by blast
    have "write_zeros bio s start len = Returns (s', Inr ())"
      using True s1(1) s'(1) by (subst write_zeros.simps) (simp add: Let_def)
    moreover have "contents s' = overwrite (unat start) (replicate (unat len) 0) (contents s)"
    proof -
      have "contents s' = overwrite (unat start) (replicate ?n 0 @ replicate (unat len - ?n) 0) (contents s)"
        using overwrite_append [of "unat start" "replicate ?n 0" "replicate (unat len - ?n) 0" "contents s"] less.prems
        unfolding s'(2) s1(2) by simp
      then show ?thesis by (simp add: replicate_add [symmetric])
    qed
    ultimately show ?thesis by blast
  qed
qed

text \<open>The position of an allocated run and the zeros written over it.\<close>

lemma zero_clusters_ok:
  assumes v: "volume_ok fs (contents s)" and c: "2 \<le> c" "0 < n" "c + n \<le> clusters_of (fs_bpb fs) + 2"
    and small: "n * cluster_bytes (fs_bpb fs) < 2 ^ 32"
  shows "\<exists>s' offset. offset_from_cluster fs (of_nat c) = Returns offset \<and>
    write_zeros bio s offset (ucast (cluster_size (fs_bpb fs) * of_nat n)) = Returns (s', Inr ()) \<and>
    contents s' = overwrite (cluster_pos (fs_bpb fs) c) (replicate (n * cluster_bytes (fs_bpb fs)) 0) (contents s) \<and>
    cluster_pos (fs_bpb fs) c + n * cluster_bytes (fs_bpb fs) \<le> length (contents s)"
proof -
  let ?b = "fs_bpb fs"
  have g: "geometry_ok ?b" and lim: "clusters_of ?b + 2 \<le> 0x0FFFFFF7"
    and dev: "unat (total_sectors ?b) * unat (bytes_per_sector ?b) \<le> length (contents s)"
    using v by (simp_all add: volume_ok_def Let_def)
  have uc: "unat (of_nat c :: u32) = c" using c lim by (simp add: unat_of_nat)
  have "2 \<le> unat (of_nat c :: u32)" "unat (of_nat c :: u32) < clusters_of ?b + 2" using c by (simp_all add: uc)
  from offset_from_cluster_eq [OF g this] obtain offset where off: "offset_from_cluster fs (of_nat c) = Returns offset"
    "unat offset = cluster_pos ?b c" by (auto simp: uc)
  have last: "cluster_pos ?b (c + (n - 1)) + cluster_bytes ?b \<le> length (contents s)"
    using cluster_pos_end [OF g, of "c + (n - 1)"] c dev by linarith
  have endp: "cluster_pos ?b c + n * cluster_bytes ?b \<le> length (contents s)"
  proof -
    obtain m where m: "n = Suc m" using c(2) by (cases n) auto
    show ?thesis using last unfolding cluster_pos_add [OF c(1)] m by simp
  qed
  have un: "unat (of_nat n :: u32) = n" using c lim by (simp add: unat_of_nat)
  have len: "unat (ucast (cluster_size ?b * of_nat n) :: usize) = n * cluster_bytes ?b"
    unfolding unat_ucast_usize
    by (subst unat_mult_no_overflow) (use small in \<open>simp_all add: un unat_cluster_size mult.commute\<close>)
  have "unat offset + unat (ucast (cluster_size ?b * of_nat n) :: usize) \<le> length (contents s)"
    unfolding len off(2) by (rule endp)
  from write_zeros_ok [OF this] obtain s' where
    "write_zeros bio s offset (ucast (cluster_size ?b * of_nat n)) = Returns (s', Inr ())"
    "contents s' = overwrite (cluster_pos ?b c) (replicate (n * cluster_bytes ?b) 0) (contents s)"
    unfolding len off(2) by blast
  with off(1) endp show ?thesis by blast
qed

lemma alloc_cluster_ok:
  assumes v: "volume_ok fs (contents s)" and num: "0 < num"
    and prev: "case prev of None \<Rightarrow> True | Some p \<Rightarrow> 2 \<le> unat p \<and> unat p < clusters_of (fs_bpb fs) + 2"
    and st: "st = max (unat (case next_free_cluster (fs_info fs) of None \<Rightarrow> allocable_start | Some h \<Rightarrow> h)) 2"
    and free: "c0 \<in> {st..<clusters_of (fs_bpb fs) + 2}" "fat_view (fs_fat fs) (contents s) c0 = Free"
    and small: "ALLOCATE_BATCH_LEN * cluster_bytes (fs_bpb fs) < 2 ^ 32"
  shows "\<exists>s' fs' c n. alloc_cluster bio (s, fs) prev num zero = Returns ((s', fs'), Inr (n, of_nat c)) \<and>
    st \<le> c \<and> 0 < n \<and> n \<le> num \<and> c + n \<le> clusters_of (fs_bpb fs) + 2 \<and>
    free_run (fat_view (fs_fat fs) (contents s)) c n \<and> volume_ok fs' (contents s') \<and>
    (\<forall>c' < clusters_of (fs_bpb fs) + 2. fat_view (fs_fat fs') (contents s') c' =
      allocated c n (map_option unat prev) (fat_view (fs_fat fs) (contents s)) c') \<and>
    (zero \<longrightarrow> slice_at (cluster_pos (fs_bpb fs) c) (n * cluster_bytes (fs_bpb fs)) (contents s') =
      replicate (n * cluster_bytes (fs_bpb fs)) 0) \<and>
    next_free_cluster (fs_info fs') = Some (of_nat (c + n)) \<and>
    free_cluster_count (fs_info fs') = map_option (\<lambda>k. k - of_nat n) (free_cluster_count (fs_info fs))"
proof -
  let ?b = "fs_bpb fs" and ?f = "fs_fat fs" and ?v = "fat_view (fs_fat fs) (contents s)"
  note limit = volume_fat(2) [OF v]
  have vol: "fat_volume bio contents ?f"
    by (intro fat_volume.intro fat_volume_axioms.intro block_device_axioms volume_fat(1) [OF v])
  from fat_volume.allocate_some [OF vol volume_fits [OF v] num prev [folded limit] st free [folded limit]]
  obtain s1 c n where s1: "fat_allocate bio ?f s prev (next_free_cluster (fs_info fs)) num = Returns (s1, Inr (n, of_nat c))"
    and c: "st \<le> c" "0 < n" "n \<le> num" "n \<le> ALLOCATE_BATCH_LEN" "c + n \<le> clusters_of ?b + 2" "free_run ?v c n"
    and fits: "fat_fits ?f (contents s1)"
    and view: "\<forall>c' < clusters_of ?b + 2. fat_view ?f (contents s1) c' = allocated c n (map_option unat prev) ?v c'"
    unfolding limit by blast
  have len: "length (contents s1) = length (contents s)"
    using fat_volume.allocate_same [OF vol volume_fits [OF v] num s1] by (simp add: same_data_def)
  have v1: "volume_ok fs (contents s1)" by (rule volume_ok_cong [OF v]) (simp_all add: len)
  let ?fs = "map_fs_info (map_free_clusters (\<lambda>k. k - of_nat n)) (map_fs_info (set_next_free_cluster (of_nat c + of_nat n)) fs)"
  have info: "next_free_cluster (fs_info ?fs) = Some (of_nat (c + n))"
    "free_cluster_count (fs_info ?fs) = map_option (\<lambda>k. k - of_nat n) (free_cluster_count (fs_info fs))"
    "fs_fat ?fs = ?f" "fs_bpb ?fs = ?b"
    by (simp_all add: map_fs_info_def map_free_clusters_def set_next_free_cluster_def split: option.splits)
  show ?thesis
  proof (cases zero)
    case False
    then have "alloc_cluster bio (s, fs) prev num zero = Returns ((s1, ?fs), Inr (n, of_nat c))"
      by (simp add: alloc_cluster_def s1 Let_def)
    moreover have "volume_ok ?fs (contents s1)" by (rule volume_ok_cong [OF v1]) (simp_all add: info)
    ultimately show ?thesis
      using c view info False by (intro exI [of _ s1] exI [of _ ?fs] exI [of _ c] exI [of _ n]) simp
  next
    case True
    have "n * cluster_bytes ?b \<le> ALLOCATE_BATCH_LEN * cluster_bytes ?b" using c(4) by (rule mult_right_mono) simp
    then have sm: "n * cluster_bytes ?b < 2 ^ 32" using small by linarith
    have "2 \<le> c" using c(1) st by simp
    from zero_clusters_ok [OF v1 this c(2,5) sm] obtain s2 offset where s2:
      "offset_from_cluster fs (of_nat c) = Returns offset"
      "write_zeros bio s1 offset (ucast (cluster_size ?b * of_nat n)) = Returns (s2, Inr ())"
      "contents s2 = overwrite (cluster_pos ?b c) (replicate (n * cluster_bytes ?b) 0) (contents s1)"
      "cluster_pos ?b c + n * cluster_bytes ?b \<le> length (contents s1)" by blast
    have "alloc_cluster bio (s, fs) prev num zero = Returns ((s2, ?fs), Inr (n, of_nat c))"
      using True by (simp add: alloc_cluster_def s1 s2 Let_def)
    moreover have "volume_ok ?fs (contents s2)" by (rule volume_ok_cong [OF v1]) (use s2 in \<open>simp_all add: info\<close>)
    moreover have "\<forall>c' < clusters_of ?b + 2. fat_view ?f (contents s2) c' = fat_view ?f (contents s1) c'"
      unfolding s2(3) using volume_view_data [OF v1 cluster_pos_first] s2(4) limit by simp
    moreover have "slice_at (cluster_pos ?b c) (n * cluster_bytes ?b) (contents s2) = replicate (n * cluster_bytes ?b) 0"
      unfolding s2(3) by (rule slice_overwrite_same) (use s2(4) in simp_all)
    ultimately show ?thesis
      using c view info by (intro exI [of _ s2] exI [of _ ?fs] exI [of _ c] exI [of _ n]) simp
  qed
qed

text \<open>Three pieces written at the same position: the last one decides the first bytes.\<close>

lemma write_pieces_ok:
  assumes "\<forall>b \<in> set bs. unat offset + length b \<le> length (contents s)"
  shows "\<exists>s'. write_pieces bio offset bs s = Returns (s', Inr ()) \<and>
    contents s' = fold (overwrite (unat offset)) bs (contents s)"
  using assms
proof (induction bs arbitrary: s)
  case (Cons b bs)
  then have b: "unat offset + length b \<le> length (contents s)" by simp
  from bio_write_ok [OF this] obtain s1 where s1: "bio_write bio s offset b = (s1, Inr ())"
    "contents s1 = overwrite (unat offset) b (contents s)" by blast
  have "length (contents s1) = length (contents s)" using b by (simp add: s1(2))
  with Cons.IH [of s1] Cons.prems s1 show ?case by simp
qed simp

lemma fs_new_bad_info:
  assumes N: "nom_parsers N" and "512 \<le> length (contents s)"
    and boot: "boot_sector_parse N (slice_at 0 512 (contents s)) = Inr (rest, bs)" "is_fat32 (bs_bpb bs)"
    and off: "unat (bytes_from_sectors (bs_bpb bs) (fs_info_sector_no (bs_bpb bs))) + 512 \<le> length (contents s)"
    and bad: "take 4 (slice_at (unat (bytes_from_sectors (bs_bpb bs) (fs_info_sector_no (bs_bpb bs)))) 512 (contents s)) \<noteq>
      le_bytes 4 LEAD_SIG"
  shows "\<exists>s'. fs_new N bio s 9 tp = Returns (s', Inl EIO)"
proof -
  have "unat (0 :: usize) + 512 \<le> length (contents s)" using assms(2) by simp
  from bio_read_ok [OF this] obtain s1 where s1: "bio_read bio s 0 512 = (s1, Inr (slice_at 0 512 (contents s)))"
    "contents s1 = contents s" by auto
  from bio_read_ok [of _ 512 s1, unfolded s1(2), OF off] obtain s2 where
    s2: "bio_read bio s1 (bytes_from_sectors (bs_bpb bs) (fs_info_sector_no (bs_bpb bs))) 512 =
      (s2, Inr (slice_at (unat (bytes_from_sectors (bs_bpb bs) (fs_info_sector_no (bs_bpb bs)))) 512 (contents s)))"
    by blast
  from nom_parsers.parse_fs_info_bad_lead [OF N bad] obtain e where
    "fs_info_parse N (slice_at (unat (bytes_from_sectors (bs_bpb bs) (fs_info_sector_no (bs_bpb bs)))) 512 (contents s)) = Inl e"
    by blast
  then have "fs_new N bio s 9 tp = Returns (s2, Inl EIO)"
    unfolding fs_new_def Let_def using s1(1) s2 boot by (simp add: error_of_nom_def)
  then show ?thesis by blast
qed

end

section \<open>Properties\<close>

text \<open>
  C33: The clusters of a volume lie behind the tables and inside its sectors, none overlaps another,
  and no computation on the way to their byte offset wraps around.
\<close>

theorem cluster_offset_bounds:
  assumes "geometry_ok (fs_bpb fs)" and "total_clusters (fs_bpb fs) = Returns tc"
    and "2 \<le> unat c" and "unat c < unat tc + 2" and "2 \<le> unat d" and "unat d < unat tc + 2" and "unat c < unat d"
  shows "\<exists>o1 o2. offset_from_cluster fs c = Returns o1 \<and> offset_from_cluster fs d = Returns o2 \<and>
    (unat (reserved_sectors (fs_bpb fs)) + unat (fats (fs_bpb fs)) * unat (sectors_per_fat (fs_bpb fs))) *
      unat (bytes_per_sector (fs_bpb fs)) \<le> unat o1 \<and>
    unat o1 + unat (cluster_size (fs_bpb fs)) \<le> unat o2 \<and>
    unat o2 + unat (cluster_size (fs_bpb fs)) \<le>
      unat (total_sectors (fs_bpb fs)) * unat (bytes_per_sector (fs_bpb fs))"
proof -
  let ?b = "fs_bpb fs"
  from total_clusters_eq [OF assms(1)] assms(2) have tc: "unat tc = clusters_of ?b" by auto
  from offset_from_cluster_eq [OF assms(1,3)] assms(4) tc obtain o1 where
    o1: "offset_from_cluster fs c = Returns o1" "unat o1 = cluster_pos ?b (unat c)" by auto
  from offset_from_cluster_eq [OF assms(1,5)] assms(6) tc obtain o2 where
    o2: "offset_from_cluster fs d = Returns o2" "unat o2 = cluster_pos ?b (unat d)" by auto
  have "(unat (reserved_sectors ?b) + unat (fats ?b) * unat (sectors_per_fat ?b)) * unat (bytes_per_sector ?b) \<le>
      first_sector ?b * unat (bytes_per_sector ?b)"
    by (rule mult_right_mono) (simp_all add: first_sector_def)
  also have "\<dots> \<le> unat o1" by (simp add: o1(2) cluster_pos_def)
  finally have "(unat (reserved_sectors ?b) + unat (fats ?b) * unat (sectors_per_fat ?b)) * unat (bytes_per_sector ?b) \<le>
      unat o1" .
  moreover have "unat o1 + unat (cluster_size ?b) \<le> unat o2"
    unfolding o1(2) o2(2) unat_cluster_size using assms(3,7) by (rule cluster_pos_step)
  moreover have "unat o2 + unat (cluster_size ?b) \<le> unat (total_sectors ?b) * unat (bytes_per_sector ?b)"
    unfolding o2(2) unat_cluster_size by (rule cluster_pos_end [OF assms(1,5)]) (use assms(6) tc in simp)
  ultimately show ?thesis using o1(1) o2(1) by blast
qed

theorem cluster_offset_bounds_witness:
  "\<exists>o1 o2. offset_from_cluster \<lparr>fs_fat = fat_example, fs_bpb = bpb_example,
      fs_info = \<lparr>free_cluster_count = None, next_free_cluster = None, fis_dirty = False\<rparr>,
      current_status_flags = 0, fs_time = null_time_provider\<rparr> 2 = Returns o1 \<and>
    offset_from_cluster \<lparr>fs_fat = fat_example, fs_bpb = bpb_example,
      fs_info = \<lparr>free_cluster_count = None, next_free_cluster = None, fis_dirty = False\<rparr>,
      current_status_flags = 0, fs_time = null_time_provider\<rparr> 3 = Returns o2 \<and>
    unat o1 + unat (cluster_size bpb_example) \<le> unat o2"
proof -
  have g: "geometry_ok bpb_example"
    by (simp add: geometry_ok_def first_sector_def bpb_example_def bpb_default_def sectors_per_fat_def
        total_sectors_def is_fat32_def)
  from total_clusters_eq [OF this] obtain tc where tc: "total_clusters bpb_example = Returns tc"
    "unat tc = clusters_of bpb_example" by blast
  have "clusters_of bpb_example = 16348"
    by (simp add: clusters_of_def first_sector_def bpb_example_def bpb_default_def sectors_per_fat_def
        total_sectors_def is_fat32_def)
  with tc g show ?thesis
    using cluster_offset_bounds [of "\<lparr>fs_fat = fat_example, fs_bpb = bpb_example,
      fs_info = \<lparr>free_cluster_count = None, next_free_cluster = None, fis_dirty = False\<rparr>,
      current_status_flags = 0, fs_time = null_time_provider\<rparr>" tc 2 3] by auto
qed

end
