(* ===== verification/Fat_Mount.thy ===== *)
theory Fat_Mount
  imports Fat_Fs_Spec
begin

text \<open>
  Mounting and flushing a volume: mounting a device with the FAT32 layout yields a consistent volume,
  and flushing changed allocation hints leaves a device that cannot be mounted again.
\<close>

section \<open>The layout of a device\<close>

definition boot_bytes :: "u8 list \<Rightarrow> u8 list \<Rightarrow> u8 list \<Rightarrow> bpb \<Rightarrow> u8 list" where
  "boot_bytes jmp oem code b =
    jmp @ oem @ bpb_common_bytes b @ bpb_fat32_bytes b @ bpb_tail_bytes b @ code @ BOOT_SIG"

definition info_bytes :: "fs_info_sector_data \<Rightarrow> u8 list" where
  "info_bytes fis = fst (fs_info_to_bytes fis) @ replicate 480 0 @ snd (fs_info_to_bytes fis)"

definition info_pos :: "bpb \<Rightarrow> nat" where
  "info_pos b = unat (fs_info_sector b) * unat (bytes_per_sector b)"

definition device_layout ::
  "u8 list \<Rightarrow> u8 list \<Rightarrow> u8 list \<Rightarrow> bpb \<Rightarrow> fs_info_sector_data \<Rightarrow> u8 list \<Rightarrow> bool" where
  "device_layout jmp oem code b fis cs \<longleftrightarrow>
    bpb_ok b \<and> length jmp = 3 \<and> length oem = 8 \<and> length code = 420 \<and>
    slice_at 0 512 cs = boot_bytes jmp oem code b \<and> slice_at (info_pos b) 512 cs = info_bytes fis \<and>
    512 \<le> info_pos b \<and> info_pos b + 512 \<le> length cs"

lemma blanked_fields [simp]:
  "bytes_per_sector (bpb_blanked b) = bytes_per_sector b"
  "sectors_per_cluster (bpb_blanked b) = sectors_per_cluster b"
  "reserved_sectors (bpb_blanked b) = reserved_sectors b"
  "fats (bpb_blanked b) = fats b"
  "root_entries (bpb_blanked b) = root_entries b"
  "fs_info_sector (bpb_blanked b) = fs_info_sector b"
  "root_dir_first_cluster (bpb_blanked b) = root_dir_first_cluster b"
  "reserved_1 (bpb_blanked b) = 0"
  "sectors_per_fat (bpb_blanked b) = sectors_per_fat b"
  "total_sectors (bpb_blanked b) = total_sectors b"
  "active_fat (bpb_blanked b) = active_fat b"
  "is_fat32 (bpb_blanked b) = is_fat32 b"
  by (simp_all add: bpb_blanked_def Let_def sectors_per_fat_def total_sectors_def active_fat_def
      mirroring_enabled_def is_fat32_def)

lemma blanked_geometry [simp]:
  "first_sector (bpb_blanked b) = first_sector b"
  "clusters_of (bpb_blanked b) = clusters_of b"
  "geometry_ok (bpb_blanked b) = geometry_ok b"
  "cluster_bytes (bpb_blanked b) = cluster_bytes b"
  by (simp_all add: first_sector_def clusters_of_def geometry_ok_def cluster_bytes_def)

lemma info_pos_eq: "unat (bytes_from_sectors b (fs_info_sector_no b)) = info_pos b"
  by (simp add: unat_bytes_from_sectors fs_info_sector_no_def info_pos_def)

lemma fat_new_total:
  assumes "geometry_ok b"
  shows "\<exists>f. fat_new b = Returns f"
  using total_clusters_eq [OF assms] by (auto simp: fat_new_def Let_def split: if_splits)

section \<open>Mounting\<close>

context block_device
begin

lemma fs_new_ok:
  assumes N: "nom_parsers N" and lay: "device_layout jmp oem code b fis (contents s)" and g: "geometry_ok b"
  shows "\<exists>s' f fis' clusters. fs_new N bio s 9 tp = Returns (s', Inr \<lparr>fs_fat = f, fs_bpb = bpb_blanked b,
      fs_info = fs_info_fix fis' clusters, current_status_flags = 0, fs_time = tp\<rparr>) \<and>
    contents s' = contents s \<and> fat_new (bpb_blanked b) = Returns f \<and> unat clusters = clusters_of b \<and>
    \<not> fis_dirty fis'"
proof -
  have lay': "bpb_ok b" "length jmp = 3" "length oem = 8" "length code = 420"
    "slice_at 0 512 (contents s) = boot_bytes jmp oem code b" "slice_at (info_pos b) 512 (contents s) = info_bytes fis"
    "512 \<le> info_pos b" "info_pos b + 512 \<le> length (contents s)"
    using lay by (simp_all add: device_layout_def)
  have "unat (0 :: usize) + 512 \<le> length (contents s)" using lay'(7,8) by simp
  from bio_read_ok [OF this] obtain s1 where s1: "bio_read bio s 0 512 = (s1, Inr (boot_bytes jmp oem code b))"
    "contents s1 = contents s" using lay'(5) by auto
  let ?b = "bpb_blanked b"
  have boot: "boot_sector_parse N (boot_bytes jmp oem code b) = Inr ([], \<lparr>bootjmp = jmp, oem_name = oem,
      bs_bpb = ?b, boot_code = code @ replicate 28 0\<rparr>)"
    using nom_parsers.parse_boot_sector [OF N lay'(1-4), of "[]"] by (simp only: boot_bytes_def append_Nil2)
  have f32: "is_fat32 ?b" using lay'(1) by (simp add: bpb_ok_def)
  have pos: "unat (bytes_from_sectors ?b (fs_info_sector_no ?b)) = info_pos b"
    by (simp add: info_pos_eq) (simp add: info_pos_def)
  have "unat (bytes_from_sectors ?b (fs_info_sector_no ?b)) + 512 \<le> length (contents s1)"
    unfolding pos s1(2) by (rule lay'(8))
  from bio_read_ok [OF this] obtain s2 where
    s2: "bio_read bio s1 (bytes_from_sectors ?b (fs_info_sector_no ?b)) 512 = (s2, Inr (info_bytes fis))"
    "contents s2 = contents s" unfolding pos s1(2) lay'(6) by blast
  from nom_parsers.parse_fs_info [OF N, of "replicate 480 0" fis "[]"] obtain fis' where
    fis': "fs_info_parse N (info_bytes fis) = Inr ([], fis')" "\<not> fis_dirty fis'"
    unfolding info_bytes_def append_Nil2 length_replicate by auto
  from total_clusters_eq [of ?b] g obtain clusters where
    cl: "total_clusters ?b = Returns clusters" "unat clusters = clusters_of b" by auto
  from fat_new_total [of ?b] g obtain f where f: "fat_new ?b = Returns f" by auto
  have "status_encode (status_flags ?b) = 0"
    by (simp add: status_flags_def status_decode_def status_encode_def)
  then have "fs_new N bio s 9 tp = Returns (s2, Inr \<lparr>fs_fat = f, fs_bpb = ?b,
      fs_info = fs_info_fix fis' clusters, current_status_flags = 0, fs_time = tp\<rparr>)"
    unfolding fs_new_def Let_def using s1(1) boot f32 s2(1) fis'(1) cl(1) f by simp
  then show ?thesis using s2(2) f cl(2) fis'(2) by blast
qed

end

section \<open>A small device\<close>

text \<open>
  A device of five sectors: the boot sector, the FSInfo sector, one table whose cluster 2 is taken and
  whose cluster 3 is free, and the two clusters.
\<close>

definition bpb_small :: bpb where
  "bpb_small = bpb_default\<lparr>bytes_per_sector := 512, sectors_per_cluster := 1, reserved_sectors := 2,
    fats := 1, total_sectors_32 := 5, sectors_per_fat_32 := 1, root_dir_first_cluster := 2,
    fs_info_sector := 1, ext_sig := 0x28\<rparr>"

definition info_small :: fs_info_sector_data where
  "info_small = \<lparr>free_cluster_count = Some 1, next_free_cluster = Some 3, fis_dirty = False\<rparr>"

definition boot_small :: "u8 list" where
  "boot_small = boot_bytes [0xEB, 0x58, 0x90] (replicate 8 0x20) (replicate 420 0) bpb_small"

definition table_small :: "u8 list" where
  "table_small = bytes_of_u32s [0x0FFFFFF8, 0x0FFFFFFF, 0x0FFFFFFF, 0] @ replicate 496 0"

definition device_small :: small_disk where
  "device_small = disk_make (boot_small @ info_bytes info_small @ table_small @ replicate 1024 0) 0"

definition fs_small :: fat_fs where
  "fs_small = \<lparr>fs_fat = \<lparr>start_offset = 1024, cluster_count = 2, mirrors = 1\<rparr>, fs_bpb = bpb_small,
    fs_info = info_small, current_status_flags = 0, fs_time = null_time_provider\<rparr>"

lemma bpb_small_ok: "bpb_ok bpb_small"
  by (simp add: bpb_ok_def bpb_small_def is_fat32_def bpb_default_def)

lemma length_boot_small: "length boot_small = 512"
proof -
  have "length (bpb_common_bytes bpb_small) = 25" by (simp add: bpb_common_bytes_def)
  moreover have "length (bpb_fat32_bytes bpb_small) = 28"
    using bpb_small_ok by (simp add: bpb_fat32_bytes_def bpb_ok_def)
  moreover have "length (bpb_tail_bytes bpb_small) = 26"
    using bpb_small_ok by (simp add: bpb_tail_bytes_def bpb_ok_def)
  ultimately show ?thesis
    unfolding boot_small_def boot_bytes_def length_append length_replicate by (simp add: BOOT_SIG_def)
qed

lemma length_info_bytes: "length (info_bytes fis) = 512"
  unfolding info_bytes_def length_append length_replicate by (simp add: fs_info_to_bytes_def)

lemma length_table_small: "length table_small = 512"
  unfolding table_small_def length_append length_replicate by simp

lemma device_small_bytes:
  "disk_bytes device_small = boot_small @ info_bytes info_small @ table_small @ replicate 1024 0"
  and length_device_small: "length (disk_bytes device_small) = 2560"
proof -
  have l: "length (boot_small @ info_bytes info_small @ table_small @ replicate 1024 0) = 2560"
    unfolding length_append length_replicate length_boot_small length_info_bytes length_table_small by simp
  show b: "disk_bytes device_small = boot_small @ info_bytes info_small @ table_small @ replicate 1024 0"
    unfolding device_small_def by (rule disk_simps(1)) (use l in simp)
  show "length (disk_bytes device_small) = 2560" unfolding b by (rule l)
qed

lemma device_small_layout:
  "device_layout [0xEB, 0x58, 0x90] (replicate 8 0x20) (replicate 420 0) bpb_small info_small (disk_bytes device_small)"
proof -
  have pos: "info_pos bpb_small = 512" by (simp add: info_pos_def bpb_small_def)
  have "slice_at 0 512 (disk_bytes device_small) = boot_small"
    unfolding device_small_bytes slice_at_def using length_boot_small by simp
  moreover have "slice_at 512 512 (disk_bytes device_small) = info_bytes info_small"
    unfolding device_small_bytes slice_at_def using length_boot_small length_info_bytes by simp
  ultimately show ?thesis
    unfolding device_layout_def pos length_device_small
    using bpb_small_ok by (simp add: boot_small_def [symmetric])
qed

lemma bpb_small_geometry:
  "geometry_ok bpb_small" "clusters_of bpb_small = 2" "cluster_bytes bpb_small = 512"
  by (simp_all add: geometry_ok_def clusters_of_def cluster_bytes_def first_sector_def bpb_small_def
      bpb_default_def sectors_per_fat_def total_sectors_def is_fat32_def)

lemma fs_small_volume: "volume_ok fs_small (disk_bytes device_small)"
proof -
  from total_clusters_eq [OF bpb_small_geometry(1)] obtain tc where
    tc: "total_clusters bpb_small = Returns tc" "unat tc = 2" using bpb_small_geometry(2) by auto
  then have "tc = 2" by (simp add: word_unat_eq_iff)
  with tc(1) have "fat_new bpb_small = Returns (fs_fat fs_small)"
    by (simp add: fat_new_def fs_small_def mirroring_enabled_def bytes_from_sectors_def
        bpb_small_def bpb_default_def)
  moreover have "unat (active_fat bpb_small) < unat (fats bpb_small)"
    by (simp add: active_fat_def mirroring_enabled_def bpb_small_def bpb_default_def)
  moreover have "unat (sectors_per_fat bpb_small) = 1" "unat (total_sectors bpb_small) = 5"
    "unat (bytes_per_sector bpb_small) = 512"
    by (simp_all add: sectors_per_fat_def total_sectors_def is_fat32_def bpb_small_def bpb_default_def)
  moreover have "fs_bpb fs_small = bpb_small" by (simp add: fs_small_def)
  ultimately show ?thesis
    unfolding volume_ok_def Let_def length_device_small
    by (simp add: bpb_small_geometry)
qed

lemma fs_small_free: "fat_view (fs_fat fs_small) (disk_bytes device_small) 3 = Free"
proof -
  have "slice_at (1024 + 4 * 3) 4 (disk_bytes device_small) = slice_at (4 * 3) 4 (bytes_of_u32s [0x0FFFFFF8, 0x0FFFFFFF, 0x0FFFFFFF, 0])"
    unfolding device_small_bytes slice_at_def table_small_def using length_boot_small length_info_bytes by simp
  also have "\<dots> = le_bytes 4 (0 :: u32)" by (subst slice_bytes_of_u32s) simp_all
  finally show ?thesis by (simp add: fat_view_def fat_word_def fs_small_def from_raw_def special_cluster_def)
qed

section \<open>Properties\<close>

text \<open>
  C31: On a consistent volume allocating clusters succeeds whenever the table has a free cluster at or
  above the hint. The new run is linked into the table and nothing else in the table changes; when
  zeros are asked for, the clusters of the run read as zeros, and zeroing does not touch the
  table; the hint moves behind the run, the known count of free clusters shrinks by its length, and
  the volume stays consistent.
\<close>

theorem alloc_cluster_spec:
  assumes "block_device bio contents" and "volume_ok fs (contents s)" and "0 < num"
    and "case prev of None \<Rightarrow> True | Some p \<Rightarrow> 2 \<le> unat p \<and> unat p < clusters_of (fs_bpb fs) + 2"
    and "st = max (unat (case next_free_cluster (fs_info fs) of None \<Rightarrow> allocable_start | Some h \<Rightarrow> h)) 2"
    and "\<exists>c0 \<in> {st..<clusters_of (fs_bpb fs) + 2}. fat_view (fs_fat fs) (contents s) c0 = Free"
    and "ALLOCATE_BATCH_LEN * cluster_bytes (fs_bpb fs) < 2 ^ 32"
  shows "\<exists>s' fs' c n. alloc_cluster bio (s, fs) prev num zero = Returns ((s', fs'), Inr (n, of_nat c)) \<and>
    st \<le> c \<and> 0 < n \<and> n \<le> num \<and> c + n \<le> clusters_of (fs_bpb fs) + 2 \<and>
    free_run (fat_view (fs_fat fs) (contents s)) c n \<and> volume_ok fs' (contents s') \<and>
    (\<forall>c' < clusters_of (fs_bpb fs) + 2. fat_view (fs_fat fs') (contents s') c' =
      allocated c n (map_option unat prev) (fat_view (fs_fat fs) (contents s)) c') \<and>
    (zero \<longrightarrow> slice_at (cluster_pos (fs_bpb fs) c) (n * cluster_bytes (fs_bpb fs)) (contents s') =
      replicate (n * cluster_bytes (fs_bpb fs)) 0) \<and>
    next_free_cluster (fs_info fs') = Some (of_nat (c + n)) \<and>
    free_cluster_count (fs_info fs') = map_option (\<lambda>k. k - of_nat n) (free_cluster_count (fs_info fs))"
proof -
  from assms(6) obtain c0 where "c0 \<in> {st..<clusters_of (fs_bpb fs) + 2}" "fat_view (fs_fat fs) (contents s) c0 = Free"
    by blast
  from block_device.alloc_cluster_ok [OF assms(1-5) this assms(7)] show ?thesis .
qed

theorem alloc_cluster_spec_witness:
  "\<exists>s' fs' c n. alloc_cluster (block_of_io ram_io) (device_small, fs_small) None 1 True =
      Returns ((s', fs'), Inr (n, of_nat c)) \<and> n = 1 \<and>
    slice_at (cluster_pos bpb_small c) (n * 512) (disk_bytes s') = replicate (n * 512) 0"
proof -
  have b: "fs_bpb fs_small = bpb_small" "next_free_cluster (fs_info fs_small) = Some 3"
    by (simp_all add: fs_small_def info_small_def)
  have st: "3 = max (unat (case next_free_cluster (fs_info fs_small) of None \<Rightarrow> allocable_start | Some h \<Rightarrow> h)) 2"
    by (simp add: b)
  have "3 \<in> {3..<clusters_of (fs_bpb fs_small) + 2}" by (simp add: b bpb_small_geometry)
  with fs_small_free have free: "\<exists>c0 \<in> {3..<clusters_of (fs_bpb fs_small) + 2}.
      fat_view (fs_fat fs_small) (disk_bytes device_small) c0 = Free" by blast
  have small: "ALLOCATE_BATCH_LEN * cluster_bytes (fs_bpb fs_small) < 2 ^ 32"
    by (simp add: b bpb_small_geometry ALLOCATE_BATCH_LEN_def)
  have prev: "case None of None \<Rightarrow> True | Some p \<Rightarrow> 2 \<le> unat (p :: u32) \<and> unat p < clusters_of (fs_bpb fs_small) + 2"
    by simp
  from alloc_cluster_spec [OF ram.block.block_device_axioms fs_small_volume zero_less_one prev st free small, of True]
  obtain s' fs' c n where r: "alloc_cluster (block_of_io ram_io) (device_small, fs_small) None 1 True =
      Returns ((s', fs'), Inr (n, of_nat c))" "0 < n" "n \<le> 1"
    "slice_at (cluster_pos bpb_small c) (n * 512) (disk_bytes s') = replicate (n * 512) 0"
    unfolding b bpb_small_geometry by blast
  moreover have "n = 1" using r(2,3) by simp
  ultimately show ?thesis by blast
qed

text \<open>
  C32: Mounting a device with the FAT32 layout and a sound geometry succeeds, changes nothing on it, and
  yields a consistent volume for the parameters of the boot sector: its table is the one the boot
  sector describes, its allocation hints are within the volume, and its status is clean.
\<close>

theorem mount_establishes_volume:
  assumes "block_device bio contents" and "nom_parsers N" and "device_layout jmp oem code b fis (contents s)"
    and "geometry_ok b" and "unat (active_fat b) < unat (fats b)" and "clusters_of b + 2 \<le> 0x0FFFFFF7"
    and "4 * (clusters_of b + 2) \<le> unat (sectors_per_fat b) * unat (bytes_per_sector b)"
    and "unat (total_sectors b) * unat (bytes_per_sector b) \<le> length (contents s)"
  shows "\<exists>s' fs. fs_new N bio s 9 tp = Returns (s', Inr fs) \<and> contents s' = contents s \<and>
    volume_ok fs (contents s') \<and> fs_bpb fs = bpb_blanked b \<and>
    free_cluster_count (fs_info fs) \<in> insert None (Some ` {n. unat n \<le> clusters_of b}) \<and>
    next_free_cluster (fs_info fs) \<in> insert None (Some ` {n. unat n \<le> clusters_of b + 2}) \<and>
    fs_status fs = \<lparr>dirty = False, io_error = False\<rparr>"
proof -
  from block_device.fs_new_ok [OF assms(1-4)] obtain s' f fis' clusters where
    new: "fs_new N bio s 9 tp = Returns (s', Inr \<lparr>fs_fat = f, fs_bpb = bpb_blanked b,
        fs_info = fs_info_fix fis' clusters, current_status_flags = 0, fs_time = tp\<rparr>)"
    "contents s' = contents s" "fat_new (bpb_blanked b) = Returns f" "unat clusters = clusters_of b" by blast
  let ?fs = "\<lparr>fs_fat = f, fs_bpb = bpb_blanked b, fs_info = fs_info_fix fis' clusters,
    current_status_flags = 0, fs_time = tp\<rparr>"
  have "unat (clusters + 2) = clusters_of b + 2"
    using assms(6) by (subst unat_add_no_overflow) (simp_all add: new(4))
  then have "free_cluster_count (fs_info ?fs) \<in> insert None (Some ` {n. unat n \<le> clusters_of b}) \<and>
      next_free_cluster (fs_info ?fs) \<in> insert None (Some ` {n. unat n \<le> clusters_of b + 2})"
    by (auto simp: fs_info_fix_def Let_def RESERVED_FAT_ENTRIES_def word_less_nat_alt new(4) split: option.splits)
  moreover have "volume_ok ?fs (contents s')"
    using assms(4-8) new(2,3) by (simp add: volume_ok_def Let_def)
  moreover have "fs_status ?fs = \<lparr>dirty = False, io_error = False\<rparr>" by (simp add: fs_status_def status_decode_def)
  ultimately show ?thesis using new(1,2) by (intro exI [of _ s'] exI [of _ ?fs]) simp
qed

theorem mount_establishes_volume_witness:
  "\<exists>s' fs. fs_new plain_nom (block_of_io ram_io) device_small 9 null_time_provider = Returns (s', Inr fs) \<and>
    volume_ok fs (disk_bytes s') \<and> fs_bpb fs = bpb_blanked bpb_small"
proof -
  have "unat (active_fat bpb_small) < unat (fats bpb_small)" "clusters_of bpb_small + 2 \<le> 0x0FFFFFF7"
    "4 * (clusters_of bpb_small + 2) \<le> unat (sectors_per_fat bpb_small) * unat (bytes_per_sector bpb_small)"
    "unat (total_sectors bpb_small) * unat (bytes_per_sector bpb_small) \<le> length (disk_bytes device_small)"
    using fs_small_volume by (simp_all add: volume_ok_def Let_def fs_small_def)
  from mount_establishes_volume [OF ram.block.block_device_axioms plain.nom_parsers_axioms device_small_layout
      bpb_small_geometry(1) this] show ?thesis by blast
qed

text \<open>
  C35: Flushing changed allocation hints destroys the FSInfo sector: its three pieces are all written at
  the start of the sector, each over the one before. The flush reports success, and the next attempt
  to mount the volume fails with \<open>EIO\<close>.
\<close>

theorem flush_breaks_mount:
  assumes "block_device bio contents" and "nom_parsers N" and "device_layout jmp oem code b fis (contents s)"
    and "fs_bpb fs = bpb_blanked b" and "fis_dirty (fs_info fs)"
  shows "\<exists>s' fs' s''. flush_fs_info bio (s, fs) = Returns ((s', fs'), Inr ()) \<and> \<not> fis_dirty (fs_info fs') \<and>
    fs_new N bio s' 9 tp = Returns (s'', Inl EIO)"
proof -
  let ?b = "bpb_blanked b" and ?fis = "(fs_info fs)\<lparr>fis_dirty := False\<rparr>"
  have lay: "bpb_ok b" "length jmp = 3" "length oem = 8" "length code = 420"
    "slice_at 0 512 (contents s) = boot_bytes jmp oem code b" "512 \<le> info_pos b" "info_pos b + 512 \<le> length (contents s)"
    using assms(3) by (simp_all add: device_layout_def)
  define off where "off = bytes_from_sectors ?b (ucast (fs_info_sector ?b))"
  have off: "unat off = info_pos b"
    by (simp add: off_def unat_bytes_from_sectors info_pos_def)
  let ?ps = "[fst (fs_info_to_bytes ?fis), replicate 480 0, snd (fs_info_to_bytes ?fis)]"
  have "\<forall>p \<in> set ?ps. unat off + length p \<le> length (contents s)"
    using lay(7) unfolding off by (auto simp: fs_info_to_bytes_def)
  from block_device.write_pieces_ok [OF assms(1) this] obtain s' where
    s': "write_pieces bio off ?ps s = Returns (s', Inr ())"
    "contents s' = fold (overwrite (info_pos b)) ?ps (contents s)" unfolding off by blast
  note pieces = flush_pieces [OF lay(7), where fis = ?fis, folded s'(2)]
  have flush: "flush_fs_info bio (s, fs) = Returns ((s', fs\<lparr>fs_info := ?fis\<rparr>), Inr ())"
    using assms(4,5) s'(1)
    by (simp add: flush_fs_info_def map_fs_info_def Let_def off_def split_beta)
  let ?bs = "\<lparr>bootjmp = jmp, oem_name = oem, bs_bpb = ?b, boot_code = code @ replicate 28 0\<rparr>"
  have boot: "boot_sector_parse N (slice_at 0 512 (contents s')) = Inr ([], ?bs)"
    using nom_parsers.parse_boot_sector [OF assms(2) lay(1-4), of "[]"] pieces(2) [OF lay(6)] lay(5)
    by (simp only: boot_bytes_def append_Nil2)
  have pos: "unat (bytes_from_sectors (bs_bpb ?bs) (fs_info_sector_no (bs_bpb ?bs))) = info_pos b"
    by (simp add: info_pos_eq) (simp add: info_pos_def)
  have "\<exists>s''. fs_new N bio s' 9 tp = Returns (s'', Inl EIO)"
  proof (rule block_device.fs_new_bad_info [OF assms(1,2) _ boot])
    show "512 \<le> length (contents s')" using lay(6,7) pieces(1) by simp
    show "is_fat32 (bs_bpb ?bs)" using lay(1) by (simp add: bpb_ok_def)
    show "unat (bytes_from_sectors (bs_bpb ?bs) (fs_info_sector_no (bs_bpb ?bs))) + 512 \<le> length (contents s')"
      unfolding pos pieces(1) by (rule lay(7))
    show "take 4 (slice_at (unat (bytes_from_sectors (bs_bpb ?bs) (fs_info_sector_no (bs_bpb ?bs)))) 512 (contents s')) \<noteq>
        le_bytes 4 LEAD_SIG"
      unfolding pos pieces(3) by (rule sigs_differ)
  qed
  with flush show ?thesis by fastforce
qed

theorem flush_breaks_mount_witness:
  "\<exists>s' fs' s''. flush_fs_info (block_of_io ram_io)
      (device_small, fs_small\<lparr>fs_bpb := bpb_blanked bpb_small, fs_info := info_small\<lparr>fis_dirty := True\<rparr>\<rparr>) =
      Returns ((s', fs'), Inr ()) \<and>
    fs_new plain_nom (block_of_io ram_io) s' 9 null_time_provider = Returns (s'', Inl EIO)"
proof -
  let ?fs = "fs_small\<lparr>fs_bpb := bpb_blanked bpb_small, fs_info := info_small\<lparr>fis_dirty := True\<rparr>\<rparr>"
  have "fs_bpb ?fs = bpb_blanked bpb_small" "fis_dirty (fs_info ?fs)" by simp_all
  from flush_breaks_mount [OF ram.block.block_device_axioms plain.nom_parsers_axioms device_small_layout this]
  show ?thesis by blast
qed

end
