(* ===== verification/Fat_File.thy ===== *)
theory Fat_File
  imports Fat_Fs Fat_Dirent
begin

text \<open>
  Open files of a volume (\<^verbatim>\<open>afat32/src/file.rs\<close>): the list of clusters with the ends of their runs,
  positions, reading, writing with allocation, truncation and the directory entry that is updated
  along the way. An operation threads the device, the volume and the file, whose fields stand for
  the locks and atomics of the source; operations that loop over the device return an option.
\<close>

section \<open>Positions\<close>

record fat_file =
  ff_clusters :: "(u32 \<times> u32) list"
  ff_shift :: u32
  ff_perm :: permissions
  ff_entry :: "entry_editor option"
  ff_len :: usize
  ff_cur :: usize

definition shl :: "u32 \<Rightarrow> 'a :: len word \<Rightarrow> 'a word" where
  "shl n w = push_bit (unat n mod LENGTH('a)) w"

definition shr :: "u32 \<Rightarrow> 'a :: len word \<Rightarrow> 'a word" where
  "shr n w = drop_bit (unat n mod LENGTH('a)) w"

fun ilog2_nat :: "nat \<Rightarrow> nat" where
  "ilog2_nat n = (if n < 2 then 0 else Suc (ilog2_nat (n div 2)))"

declare ilog2_nat.simps [simp del]

definition ilog2 :: "u32 \<Rightarrow> u32 outcome" where
  "ilog2 w = (if w = 0 then Panics else Returns (of_nat (ilog2_nat (unat w))))"

definition decomp :: "fat_file \<Rightarrow> usize \<Rightarrow> usize \<times> usize" where
  "decomp f offset = (shr (ff_shift f) offset, offset AND (shl (ff_shift f) 1 - 1))"

definition decomp_end :: "fat_file \<Rightarrow> usize \<Rightarrow> (usize \<times> usize) option" where
  "decomp_end f offset =
    (let cluster_index = shr (ff_shift f) offset; offset_in_cluster = offset AND (shl (ff_shift f) 1 - 1) in
     if offset_in_cluster = 0 then
       (if cluster_index = 0 then None else Some (cluster_index - 1, shl (ff_shift f) 1))
     else Some (cluster_index, offset_in_cluster))"

definition nth_get :: "'a list \<Rightarrow> nat \<Rightarrow> 'a option" where
  "nth_get xs i = (if i < length xs then Some (xs ! i) else None)"

section \<open>Opening\<close>

definition file_new ::
  "'s block_io \<Rightarrow> 's \<times> fat_fs \<Rightarrow> u32 option \<Rightarrow> entry_editor option \<Rightarrow> ('s \<times> fat_fs, fat_file) ores" where
  "file_new bio sf first_cluster entry = (let (s, fs) = sf in
    (case ilog2 (cluster_size (fs_bpb fs)) of
       Panics \<Rightarrow> Some Panics
     | Returns cluster_shift \<Rightarrow>
        obind (case first_cluster of
            Some c \<Rightarrow> map_option (with_fs fs) (all_clusters bio (fs_fat fs) s c)
          | None \<Rightarrow> succeed (s, fs) []) (\<lambda>(s, fs) clusters.
        let len = (case Option.bind entry (\<lambda>e. df_get_size (ee_data e)) of
            Some sz \<Rightarrow> ucast sz
          | None \<Rightarrow> shl cluster_shift (of_nat (length clusters)))
        in succeed (s, fs) \<lparr>ff_clusters = clusters, ff_shift = cluster_shift,
          ff_perm = perm_me True True True, ff_entry = entry, ff_len = len, ff_cur = 0\<rparr>) failwith))"

definition file_first_cluster :: "fat_file \<Rightarrow> u32 option" where
  "file_first_cluster f = map_option fst (nth_get (ff_clusters f) 0)"

definition abs_start_pos :: "fat_file \<Rightarrow> u64 option" where
  "abs_start_pos f = map_option (\<lambda>cluster. shl (ff_shift f) (ucast cluster)) (file_first_cluster f)"

section \<open>Truncation\<close>

text \<open>The loop from the end of the list that moves the end of the last run.\<close>

fun retarget :: "u32 \<Rightarrow> u32 \<Rightarrow> (u32 \<times> u32) list \<Rightarrow> (u32 \<times> u32) list" where
  "retarget old_end new_end [] = []"
| "retarget old_end new_end ((c, e) # rest) =
    (if e \<noteq> old_end then (c, e) # rest else (c, new_end) # retarget old_end new_end rest)"

definition move_run_end :: "u32 \<Rightarrow> u32 \<Rightarrow> (u32 \<times> u32) list \<Rightarrow> (u32 \<times> u32) list" where
  "move_run_end old_end new_end cs = rev (retarget old_end new_end (rev cs))"

definition cut_clusters :: "nat \<Rightarrow> (u32 \<times> u32) list \<Rightarrow> (u32 \<times> u32) list" where
  "cut_clusters n cs = (let cs = take n cs in
    if cs = [] then cs else let (lst, old_end) = last cs in move_run_end old_end lst cs)"

definition file_truncate ::
  "'s block_io \<Rightarrow> 's \<times> fat_fs \<Rightarrow> fat_file \<Rightarrow> u32 \<Rightarrow> (('s \<times> fat_fs) \<times> fat_file, unit) ores" where
  "file_truncate bio sf f new_len =
    (case ff_entry f of
       None \<Rightarrow> failwith (sf, f) ENOSYS
     | Some entry \<Rightarrow>
      (case df_get_size (ee_data entry) of
         None \<Rightarrow> failwith (sf, f) EISDIR
       | Some sz \<Rightarrow> let len = ucast sz; new_len' = ucast new_len :: usize in
          if new_len' \<ge> len then succeed (sf, f) ()
          else case decomp_end f len of
            None \<Rightarrow> succeed (sf, f) ()
          | Some (cluster_index, _) \<Rightarrow>
             obind
              (case decomp_end f new_len' of
                 Some (new_cluster_index, _) \<Rightarrow>
                  (if cluster_index \<noteq> new_cluster_index then
                     (case nth_get (ff_clusters f) (unat new_cluster_index) of
                        None \<Rightarrow> Some Panics
                      | Some (start, _) \<Rightarrow>
                         let f = f\<lparr>ff_clusters := cut_clusters (unat new_cluster_index + 1) (ff_clusters f)\<rparr> in
                         obind (truncate_cluster_chain bio sf start) (\<lambda>sf _. succeed (sf, f) f) (\<lambda>sf. failwith (sf, f)))
                   else succeed (sf, f) f)
               | None \<Rightarrow>
                  (case ff_clusters f of
                     [] \<Rightarrow> Some Panics
                   | (start, _) # _ \<Rightarrow>
                      let f = f\<lparr>ff_entry := Some (ee_set_first_cluster None entry), ff_clusters := []\<rparr> in
                      obind (free_cluster_chain bio sf start) (\<lambda>sf _. succeed (sf, f) f) (\<lambda>sf. failwith (sf, f))))
              (\<lambda>(sf, _) f. succeed (sf, f\<lparr>ff_len := new_len',
                 ff_entry := map_option (ee_set_size (ucast new_len')) (ff_entry f)\<rparr>) ())
              failwith))"

section \<open>Bookkeeping\<close>

definition update_read :: "fat_fs \<Rightarrow> fat_file \<Rightarrow> fat_file" where
  "update_read fs f = f\<lparr>ff_entry := map_option (ee_set_accessed (get_current_date (fs_time fs))) (ff_entry f)\<rparr>"

definition update_write :: "fat_fs \<Rightarrow> u32 \<Rightarrow> fat_file \<Rightarrow> fat_file" where
  "update_write fs offset f = (let f = f\<lparr>ff_len := max (ff_len f) (ucast offset)\<rparr> in
    f\<lparr>ff_entry := map_option (\<lambda>e.
        let e = ee_set_modified (get_current_date_time (fs_time fs)) e in
        case df_get_size (ee_data e) of
          Some n \<Rightarrow> if offset > n then ee_set_size offset e else e
        | None \<Rightarrow> e) (ff_entry f)\<rparr>)"

definition file_flush :: "'s block_io \<Rightarrow> 's \<times> fat_fs \<Rightarrow> fat_file \<Rightarrow> ('s \<times> fat_fs) \<times> fat_file \<times> (error + unit)" where
  "file_flush bio sf f = (let (s, fs) = sf in
    case ff_entry f of
      None \<Rightarrow> ((s, fs), f, Inr ())
    | Some e \<Rightarrow> (case ee_flush bio s e of (s, e, r) \<Rightarrow> ((s, fs), f\<lparr>ff_entry := Some e\<rparr>, r)))"

text \<open>A relative offset is a signed word; it is added or its negation subtracted, with a check.\<close>

definition checked_move :: "usize \<Rightarrow> usize \<Rightarrow> error + usize" where
  "checked_move base offset =
    (if 0 <s offset then
       (if unat base + unat offset < 2 ^ 64 then Inr (base + offset) else Inl EINVAL)
     else if unat (- offset) \<le> unat base then Inr (base - (- offset)) else Inl EINVAL)"

definition file_seek :: "fat_file \<Rightarrow> seek_from \<Rightarrow> fat_file \<times> (error + usize)" where
  "file_seek f whence =
    (case (case whence of
        SeekStart offset \<Rightarrow> Inr offset
      | SeekEnd offset \<Rightarrow> checked_move (ff_len f) offset
      | SeekCurrent offset \<Rightarrow> checked_move (ff_cur f) offset) of
       Inl e \<Rightarrow> (f, Inl e)
     | Inr offset \<Rightarrow> (f\<lparr>ff_cur := offset\<rparr>, Inr offset))"

definition file_stream_len :: "fat_file \<Rightarrow> usize" where
  "file_stream_len f = ff_len f"

section \<open>Reading\<close>

text \<open>
  The number of bytes that can be read from a position in one go: to the end of the run that holds
  it, or to the end of the file when that lies in the same run. The subtractions wrap around.
\<close>

definition read_rest :: "fat_file \<Rightarrow> usize \<Rightarrow> (u32 \<times> usize) option" where
  "read_rest f offset = (let (cluster_index, offset_in_cluster) = decomp f offset in
    case decomp_end f (ff_len f) of
      None \<Rightarrow> None
    | Some (end_len_ci, end_len_oc) \<Rightarrow>
      (case nth_get (ff_clusters f) (unat cluster_index) of
         None \<Rightarrow> None
       | Some (cluster, cluster_end) \<Rightarrow>
          let count = ucast (cluster_end + 1 - cluster) :: usize;
            rest = (case nth_get (ff_clusters f) (unat end_len_ci) of
                Some (end_len_cluster, end_len_cluster_end) \<Rightarrow>
                  (if end_len_cluster_end \<noteq> cluster_end then shl (ff_shift f) count - offset_in_cluster
                   else let count = ucast (end_len_cluster - cluster) :: usize in
                     shl (ff_shift f) count + end_len_oc - offset_in_cluster)
              | None \<Rightarrow> shl (ff_shift f) count - offset_in_cluster)
          in Some (cluster, rest)))"

text \<open>
  The loop over the buffers. The result carries the bytes of all buffers after the call, those
  already passed before those still to fill.
\<close>

partial_function (option) file_read_loop ::
  "'s io_ops \<Rightarrow> 's \<Rightarrow> usize \<Rightarrow> usize \<Rightarrow> u8 list list \<Rightarrow> usize \<Rightarrow> u8 list \<Rightarrow> ('s \<times> u8 list, usize) ores" where
  "file_read_loop d s pos rest bufs read_len filled =
    (if rest = 0 \<or> bufs = [] then Some (Returns ((s, filled @ concat bufs), Inr read_len))
     else let len = min (unat rest) (length (hd bufs)) in
      (case io_read_at d s pos [take len (hd bufs)] of (s, bufs1, r) \<Rightarrow>
        let bufs = (concat bufs1 @ drop len (hd bufs)) # tl bufs in
        (case r of
           Inl e \<Rightarrow> Some (Returns ((s, filled @ concat bufs), Inl e))
         | Inr n \<Rightarrow>
          (case advance_slices bufs (unat n) of
             Panics \<Rightarrow> Some Panics
           | Returns bufs' \<Rightarrow>
              file_read_loop d s (pos + n) (rest - n) bufs' (read_len + n)
                (filled @ take (unat n) (concat bufs))))))"

definition file_read_at ::
  "'s io_ops \<Rightarrow> 's \<times> fat_fs \<Rightarrow> fat_file \<Rightarrow> usize \<Rightarrow> u8 list list \<Rightarrow>
    ((('s \<times> fat_fs) \<times> fat_file) \<times> u8 list, usize) ores" where
  "file_read_at d sf f offset bufs = (let (s, fs) = sf in
    case read_rest f offset of
      None \<Rightarrow> succeed (((s, fs), f), concat bufs) 0
    | Some (cluster, rest) \<Rightarrow>
      (case offset_from_cluster fs cluster of
         Panics \<Rightarrow> Some Panics
       | Returns cluster_offset \<Rightarrow>
          obind (file_read_loop d s (cluster_offset + snd (decomp f offset)) rest bufs 0 [])
            (\<lambda>(s, mem) n. succeed (((s, fs), update_read fs f), mem) n)
            (\<lambda>(s, mem) e. failwith (((s, fs), f), mem) e)))"

section \<open>Writing\<close>

text \<open>
  The allocation loop of a write past the last cluster: the clusters of every allocation are
  appended, extending the last run when they follow it. The result is the cluster to write to and
  the number of clusters behind it.
\<close>

definition append_run :: "u32 \<Rightarrow> nat \<Rightarrow> fat_file \<Rightarrow> fat_file" where
  "append_run new count f = (let new_end = new + of_nat count - 1;
      f = (case ff_clusters f of
          [] \<Rightarrow> f\<lparr>ff_entry := map_option (ee_set_first_cluster (Some new)) (ff_entry f)\<rparr>
        | _ # _ \<Rightarrow> let old_end = snd (last (ff_clusters f)) in
            if old_end + 1 = new
            then f\<lparr>ff_clusters := move_run_end old_end new_end (ff_clusters f)\<rparr> else f)
    in f\<lparr>ff_clusters := ff_clusters f @ map (\<lambda>i. (new + of_nat i, new_end)) [0..<count]\<rparr>)"

partial_function (option) extend_loop ::
  "'s block_io \<Rightarrow> 's \<times> fat_fs \<Rightarrow> fat_file \<Rightarrow> u32 \<Rightarrow> u32 \<Rightarrow> u32 option \<Rightarrow> u32 \<Rightarrow> (('s \<times> fat_fs) \<times> fat_file, u32 \<times> usize) ores" where
  "extend_loop bio sf f gap_count times_count prev done_count =
    (case alloc_cluster bio sf prev (unat (times_count - done_count)) False of
       Panics \<Rightarrow> Some Panics
     | Returns (sf, Inl e) \<Rightarrow> Some (Returns ((sf, f), Inl e))
     | Returns (sf, Inr (count, new)) \<Rightarrow>
        let f = append_run new count f; done_count = done_count + of_nat count in
        if done_count > gap_count \<or> done_count \<ge> times_count
        then Some (Returns ((sf, f), Inr (new, ucast (done_count - gap_count))))
        else extend_loop bio sf f gap_count times_count (Some new) done_count)"

definition write_target ::
  "'s block_io \<Rightarrow> 's \<times> fat_fs \<Rightarrow> fat_file \<Rightarrow> usize \<Rightarrow> usize \<Rightarrow> (('s \<times> fat_fs) \<times> fat_file, u32 \<times> usize) ores" where
  "write_target bio sf f cluster_index slice_len =
    (case nth_get (ff_clusters f) (unat cluster_index) of
       Some (cluster, cluster_end) \<Rightarrow> succeed (sf, f) (cluster, ucast (cluster_end + 1 - cluster))
     | None \<Rightarrow>
        let gap = cluster_index - of_nat (length (ff_clusters f));
          wanted = cluster_index + shr (ff_shift f) (slice_len + (shl (ff_shift f) 1 - 1)) -
            of_nat (length (ff_clusters f)) in
        (case (try_u32 (unat gap), try_u32 (unat wanted)) of
           (Inl e, _) \<Rightarrow> failwith (sf, f) e
         | (Inr _, Inl e) \<Rightarrow> failwith (sf, f) e
         | (Inr gap_count, Inr times_count) \<Rightarrow>
            extend_loop bio sf f gap_count times_count
              (if ff_clusters f = [] then None else Some (fst (last (ff_clusters f)))) 0))"

partial_function (option) file_write_loop ::
  "'s io_ops \<Rightarrow> 's \<Rightarrow> usize \<Rightarrow> usize \<Rightarrow> u8 list list \<Rightarrow> usize \<Rightarrow> usize \<Rightarrow> ('s, usize \<times> usize) ores" where
  "file_write_loop d s pos rest bufs offset written_len =
    (if rest = 0 \<or> bufs = [] then Some (Returns (s, Inr (offset, written_len)))
     else let len = min (unat rest) (length (hd bufs)) in
      (case io_write_at d s pos [take len (hd bufs)] of (s, r) \<Rightarrow>
        (case r of
           Inl e \<Rightarrow> Some (Returns (s, Inl e))
         | Inr n \<Rightarrow>
          (case advance_slices bufs (unat n) of
             Panics \<Rightarrow> Some Panics
           | Returns bufs' \<Rightarrow>
              file_write_loop d s (pos + n) (rest - n) bufs' (offset + n) (written_len + n)))))"

definition file_write_at ::
  "'s io_ops \<Rightarrow> 's \<times> fat_fs \<Rightarrow> fat_file \<Rightarrow> usize \<Rightarrow> u8 list list \<Rightarrow> (('s \<times> fat_fs) \<times> fat_file, usize) ores" where
  "file_write_at d sf f offset bufs = (let (cluster_index, offset_in_cluster) = decomp f offset in
    obind (write_target (block_of_io d) sf f cluster_index (of_nat (ioslice_len bufs))) (\<lambda>((s, fs), f) (cluster, count).
      (case offset_from_cluster fs cluster of
         Panics \<Rightarrow> Some Panics
       | Returns cluster_offset \<Rightarrow>
          obind (file_write_loop d s (cluster_offset + offset_in_cluster)
              (shl (ff_shift f) count - offset_in_cluster) bufs offset 0)
            (\<lambda>s (offset, n). succeed ((s, fs), update_write fs (ucast offset) f) n)
            (\<lambda>s. failwith ((s, fs), f))))
      failwith)"

section \<open>The entry of a file\<close>

definition file_open :: "'o \<Rightarrow> string \<Rightarrow> open_options \<Rightarrow> error + 'o \<times> bool" where
  "file_open this path options =
    (if path \<noteq> [] then Inl ENOTDIR
     else if flags_contain options OPEN_DIRECTORY then Inl ENOTDIR
     else Inr (this, False))"

definition file_metadata :: "fat_file \<Rightarrow> 'i metadata" where
  "file_metadata f = \<lparr>md_ty = FT_FILE, md_len = ff_len f,
    md_offset = (case abs_start_pos f of Some p \<Rightarrow> p | None \<Rightarrow> - 1),
    md_perm = ff_perm f AND permissions_all, md_block_size = shl (ff_shift f) 1,
    md_block_count = of_nat (length (ff_clusters f)), md_times = times_default\<rparr>"

definition file_set_metadata ::
  "'s block_io \<Rightarrow> 's \<times> fat_fs \<Rightarrow> fat_file \<Rightarrow> 'i set_metadata \<Rightarrow> (('s \<times> fat_fs) \<times> fat_file, unit) ores" where
  "file_set_metadata bio sf f m =
    obind (case sm_len m of
        None \<Rightarrow> succeed (sf, f) ()
      | Some new_len \<Rightarrow>
         (case try_u32 (unat new_len) of
            Inl e \<Rightarrow> failwith (sf, f) e
          | Inr n \<Rightarrow> file_truncate bio sf f n)) (\<lambda>(sf, f) _.
      succeed (sf, case sm_perm m of None \<Rightarrow> f | Some p \<Rightarrow> f\<lparr>ff_perm := p\<rparr>) ()) failwith"

end
