(* ===== verification/Fat_File_Spec.thy ===== *)
theory Fat_File_Spec
  imports Fat_File Fat_Fs_Spec
begin

text \<open>
  Correctness of reading and writing files: the contents of a file as the concatenation of its
  clusters, which reading refines, and the cases in which the code departs from it.
\<close>

section \<open>Cluster arithmetic\<close>

lemma unat_shl:
  assumes "unat n < LENGTH('a)" and "unat (w :: 'a :: len word) * 2 ^ unat n < 2 ^ LENGTH('a)"
  shows "unat (shl n w) = unat w * 2 ^ unat n"
  using assms by (simp only: shl_def mod_less unat_push_bit)

lemma unat_shr: "unat n < LENGTH('a) \<Longrightarrow> unat (shr n (w :: 'a :: len word)) = unat w div 2 ^ unat n"
  by (simp only: shr_def mod_less unat_drop_bit)

lemma unat_and_low:
  assumes "unat n < LENGTH('a)"
  shows "unat (w AND (shl n 1 - 1)) = unat (w :: 'a :: len word) mod 2 ^ unat n"
proof -
  have "shl n (1 :: 'a word) - 1 = mask (unat n)"
    using assms by (simp add: shl_def mask_eq_exp_minus_1)
  then show ?thesis by (simp only: unat_and_mask)
qed

text \<open>Blocks of equal length.\<close>

lemma nth_concat_blocks:
  assumes "\<forall>b \<in> set bs. length b = n" and "i < length bs * n"
  shows "concat bs ! i = bs ! (i div n) ! (i mod n)"
  using assms
proof (induction bs arbitrary: i)
  case (Cons b bs)
  have n: "0 < n" using Cons.prems by (cases n) auto
  show ?case
  proof (cases "i < n")
    case True
    with Cons.prems(1) show ?thesis by (simp add: nth_append)
  next
    case False
    then have "concat (b # bs) ! i = concat bs ! (i - n)" using Cons.prems(1) by (simp add: nth_append)
    also have "\<dots> = bs ! ((i - n) div n) ! ((i - n) mod n)"
      by (rule Cons.IH) (use Cons.prems False in auto)
    also have "\<dots> = (b # bs) ! (i div n) ! (i mod n)"
      using False n by (simp add: le_div_geq le_mod_geq)
    finally show ?thesis .
  qed
qed simp

lemma length_concat_blocks: "\<forall>b \<in> set bs. length b = n \<Longrightarrow> length (concat bs) = length bs * n"
  by (induction bs) auto

section \<open>The contents of a file\<close>

definition file_blocks :: "bpb \<Rightarrow> u8 list \<Rightarrow> nat list \<Rightarrow> u8 list list" where
  "file_blocks b cs ks = map (\<lambda>c. slice_at (cluster_pos b c) (cluster_bytes b) cs) ks"

definition file_data :: "bpb \<Rightarrow> u8 list \<Rightarrow> nat list \<Rightarrow> nat \<Rightarrow> u8 list" where
  "file_data b cs ks n = take n (concat (file_blocks b cs ks))"

definition file_ok :: "fat_fs \<Rightarrow> fat_file \<Rightarrow> u8 list \<Rightarrow> nat list \<Rightarrow> bool" where
  "file_ok fs f cs ks \<longleftrightarrow> volume_ok fs cs \<and> unat (ff_shift f) < 32 \<and>
    cluster_bytes (fs_bpb fs) = 2 ^ unat (ff_shift f) \<and>
    ff_clusters f = run_ends (map of_nat ks) \<and> distinct ks \<and>
    (\<forall>c \<in> set ks. 2 \<le> c \<and> c < clusters_of (fs_bpb fs) + 2) \<and>
    unat (ff_len f) \<le> length ks * cluster_bytes (fs_bpb fs)"

lemma blocks_length:
  assumes "file_ok fs f cs ks"
  shows "\<forall>b \<in> set (file_blocks (fs_bpb fs) cs ks). length b = cluster_bytes (fs_bpb fs)"
proof
  fix blk assume "blk \<in> set (file_blocks (fs_bpb fs) cs ks)"
  then obtain c where c: "c \<in> set ks" "blk = slice_at (cluster_pos (fs_bpb fs) c) (cluster_bytes (fs_bpb fs)) cs"
    by (auto simp: file_blocks_def)
  have v: "volume_ok fs cs" using assms by (simp add: file_ok_def)
  have "cluster_pos (fs_bpb fs) c + cluster_bytes (fs_bpb fs) \<le>
      unat (total_sectors (fs_bpb fs)) * unat (bytes_per_sector (fs_bpb fs))"
    by (rule cluster_pos_end) (use v assms c(1) in \<open>auto simp: volume_ok_def file_ok_def Let_def\<close>)
  also have "\<dots> \<le> length cs" using v by (simp add: volume_ok_def Let_def)
  finally show "length blk = cluster_bytes (fs_bpb fs)" by (simp add: c(2))
qed

lemma length_blocks:
  assumes "file_ok fs f cs ks"
  shows "length (concat (file_blocks (fs_bpb fs) cs ks)) = length ks * cluster_bytes (fs_bpb fs)"
  using length_concat_blocks [OF blocks_length [OF assms]] by (simp add: file_blocks_def)

text \<open>The bytes of a run of consecutive clusters are the bytes of the device from the first on.\<close>

lemma run_bytes:
  assumes ok: "file_ok fs f cs ks" and k: "i + k < length ks" "\<forall>j \<le> k. ks ! (i + j) = ks ! i + j"
    and x: "x < (k + 1) * cluster_bytes (fs_bpb fs)"
  shows "concat (file_blocks (fs_bpb fs) cs ks) ! (i * cluster_bytes (fs_bpb fs) + x) =
    cs ! (cluster_pos (fs_bpb fs) (ks ! i) + x)"
    and "cluster_pos (fs_bpb fs) (ks ! i) + x < length cs"
proof -
  let ?n = "cluster_bytes (fs_bpb fs)" and ?b = "fs_bpb fs"
  have n: "0 < ?n" using ok by (simp add: file_ok_def)
  let ?q = "x div ?n" and ?r = "x mod ?n"
  have q: "?q \<le> k" using x n by (metis Suc_eq_plus1 less_mult_imp_div_less less_Suc_eq_le)
  have r: "?r < ?n" using n by simp
  have iq: "i + ?q < length ks" using k(1) q by simp
  have "i * ?n + x < length ks * ?n"
  proof -
    have "i * ?n + x < (i + k + 1) * ?n" using x by (simp add: algebra_simps)
    also have "\<dots> \<le> length ks * ?n" using k(1) by (intro mult_right_mono) auto
    finally show ?thesis .
  qed
  then have "i * ?n + x < length (file_blocks ?b cs ks) * ?n" by (simp add: file_blocks_def)
  from nth_concat_blocks [OF blocks_length [OF ok] this]
  have "concat (file_blocks ?b cs ks) ! (i * ?n + x) = file_blocks ?b cs ks ! (i + ?q) ! ?r" using n by simp
  also have "\<dots> = slice_at (cluster_pos ?b (ks ! (i + ?q))) ?n cs ! ?r" using iq by (simp add: file_blocks_def)
  finally have nth: "concat (file_blocks ?b cs ks) ! (i * ?n + x) = slice_at (cluster_pos ?b (ks ! (i + ?q))) ?n cs ! ?r" .
  have "length (slice_at (cluster_pos ?b (ks ! (i + ?q))) ?n cs) = ?n"
    using blocks_length [OF ok] iq by (simp add: file_blocks_def)
  then have "?n \<le> length cs - cluster_pos ?b (ks ! (i + ?q))" by simp
  then have bound: "cluster_pos ?b (ks ! (i + ?q)) + ?r < length cs" using r n by linarith
  have "2 \<le> ks ! i" using ok k(1) by (simp add: file_ok_def)
  then have pos: "cluster_pos ?b (ks ! (i + ?q)) + ?r = cluster_pos ?b (ks ! i) + x"
    using k(2) q by (simp add: cluster_pos_add)
  show "concat (file_blocks ?b cs ks) ! (i * ?n + x) = cs ! (cluster_pos ?b (ks ! i) + x)"
    unfolding nth using nth_slice [OF r bound] pos by simp
  show "cluster_pos ?b (ks ! i) + x < length cs" using bound pos by simp
qed

section \<open>Runs\<close>

lemma of_nat_inj_32: "a < 2 ^ 32 \<Longrightarrow> b < 2 ^ 32 \<Longrightarrow> (of_nat a :: u32) = of_nat b \<longleftrightarrow> a = b"
  by (simp add: word_unat_eq_iff unat_of_nat)

definition run_at :: "nat list \<Rightarrow> nat \<Rightarrow> nat \<Rightarrow> bool" where
  "run_at ks i k \<longleftrightarrow> i + k < length ks \<and> (\<forall>j \<le> k. ks ! (i + j) = ks ! i + j) \<and>
    (i + k + 1 < length ks \<longrightarrow> ks ! (i + k + 1) \<noteq> ks ! (i + k) + 1)"

lemma run_step: "run_at ks i k \<Longrightarrow> i \<le> m \<Longrightarrow> m < i + k \<Longrightarrow> ks ! (m + 1) = ks ! m + 1"
proof -
  assume a: "run_at ks i k" "i \<le> m" "m < i + k"
  then have "ks ! (i + (m - i)) = ks ! i + (m - i)" "ks ! (i + (m - i + 1)) = ks ! i + (m - i + 1)"
    unfolding run_at_def by (metis Suc_eq_plus1 Suc_leI add_diff_inverse_nat less_imp_le nat_add_left_cancel_less not_le)+
  then show ?thesis using a(2) by simp
qed

lemma same_run:
  assumes "distinct ks" and a: "run_at ks i k" and b: "run_at ks i' k'" and "i \<le> i'"
  shows "ks ! (i + k) = ks ! (i' + k') \<longleftrightarrow> i' \<le> i + k"
proof
  assume "ks ! (i + k) = ks ! (i' + k')"
  moreover have "i + k < length ks" "i' + k' < length ks" using a b by (simp_all add: run_at_def)
  ultimately have "i + k = i' + k'" using nth_eq_iff_index_eq [OF assms(1)] by blast
  then show "i' \<le> i + k" by simp
next
  assume le: "i' \<le> i + k"
  have "i' + k' = i + k"
  proof (rule ccontr)
    assume "i' + k' \<noteq> i + k"
    then consider "i' + k' < i + k" | "i + k < i' + k'" by linarith
    then show False
    proof cases
      case 1
      from run_step [OF a, of "i' + k'"] 1 assms(4) b a show False by (simp add: run_at_def)
    next
      case 2
      from run_step [OF b, of "i + k"] 2 le b a show False by (simp add: run_at_def)
    qed
  qed
  then show "ks ! (i + k) = ks ! (i' + k')" by simp
qed

lemma run_of_ends:
  assumes "\<forall>c \<in> set ks. c < 2 ^ 32 - 1" and "i < length ks"
  shows "\<exists>k. run_at ks i k \<and> run_ends (map of_nat ks) ! i = (of_nat (ks ! i), of_nat (ks ! (i + k)))"
proof -
  let ?rs = "run_ends (map (of_nat :: nat \<Rightarrow> u32) ks)"
  have fst: "map fst ?rs = map of_nat ks" and ends: "\<forall>i < length ks. run_end_at (map of_nat ks) i (snd (?rs ! i))"
    using run_ends_correct [of "map of_nat ks"] by simp_all
  have len: "length ?rs = length ks" using arg_cong [OF fst, of length] by simp
  have f: "fst (?rs ! i) = of_nat (ks ! i)"
    using arg_cong [OF fst, of "\<lambda>xs. xs ! i"] assms(2) len by simp
  from ends assms(2) obtain k where k: "i + k < length ks" "snd (?rs ! i) = of_nat (ks ! (i + k))"
    "\<forall>j < k. (of_nat (ks ! (i + j)) :: u32) + 1 = of_nat (ks ! (i + j + 1))"
    "i + k + 1 < length ks \<longrightarrow> (of_nat (ks ! (i + k)) :: u32) + 1 \<noteq> of_nat (ks ! (i + k + 1))"
    by (auto simp: run_end_at_def)
  have small: "ks ! m < 2 ^ 32 - 1" if "m < length ks" for m using assms(1) that by simp
  have suc: "(of_nat a :: u32) + 1 = of_nat c \<longleftrightarrow> a + 1 = c" if "a < 2 ^ 32 - 1" "c < 2 ^ 32 - 1" for a c
  proof -
    have "(of_nat a :: u32) + 1 = of_nat (a + 1)" by simp
    moreover have "(of_nat (a + 1) :: u32) = of_nat c \<longleftrightarrow> a + 1 = c"
      using that by (intro of_nat_inj_32) simp_all
    ultimately show ?thesis by (simp only:)
  qed
  have "ks ! (i + j) = ks ! i + j" if "j \<le> k" for j
    using that
  proof (induction j)
    case (Suc j)
    have "ks ! (i + j) + 1 = ks ! (i + j + 1)"
      using k(3) Suc.prems suc [OF small small, of "i + j" "i + j + 1"] k(1) by auto
    with Suc show ?case by simp
  qed simp
  moreover have "ks ! (i + k + 1) \<noteq> ks ! (i + k) + 1" if "i + k + 1 < length ks"
    using k(4) that suc [OF small small, of "i + k" "i + k + 1"] k(1) by auto
  ultimately have "run_at ks i k" using k(1) by (simp add: run_at_def)
  moreover have "?rs ! i = (of_nat (ks ! i), of_nat (ks ! (i + k)))" using f k(2) by (simp add: prod_eq_iff)
  ultimately show ?thesis by blast
qed

section \<open>Reading\<close>

lemma file_sizes:
  assumes "file_ok fs f cs ks"
  shows "length ks * cluster_bytes (fs_bpb fs) < 2 ^ 60" and "\<forall>c \<in> set ks. c < 2 ^ 28"
    and "cluster_bytes (fs_bpb fs) < 2 ^ 32" and "0 < cluster_bytes (fs_bpb fs)"
proof -
  have lim: "clusters_of (fs_bpb fs) + 2 \<le> 0x0FFFFFF7" and sh: "unat (ff_shift f) < 32"
    and n: "cluster_bytes (fs_bpb fs) = 2 ^ unat (ff_shift f)" and d: "distinct ks"
    and ks: "\<forall>c \<in> set ks. 2 \<le> c \<and> c < clusters_of (fs_bpb fs) + 2"
    using assms by (simp_all add: file_ok_def volume_ok_def Let_def)
  show small: "\<forall>c \<in> set ks. c < 2 ^ 28" using ks lim by fastforce
  show n32: "cluster_bytes (fs_bpb fs) < 2 ^ 32" unfolding n by (rule power_strict_increasing [OF sh]) simp
  show "0 < cluster_bytes (fs_bpb fs)" by (simp add: n)
  have "set ks \<subseteq> {..<2 ^ 28}" using small by auto
  then have "card (set ks) \<le> 2 ^ 28" using card_mono [of "{..<2 ^ 28}" "set ks"] by simp
  then have l: "length ks \<le> 2 ^ 28" using distinct_card [OF d] by simp
  have "length ks * cluster_bytes (fs_bpb fs) < 2 ^ 28 * 2 ^ 32"
  proof (cases "length ks = 0")
    case False
    then show ?thesis using l n32 by (intro mult_le_less_imp_less) simp_all
  qed simp
  then show "length ks * cluster_bytes (fs_bpb fs) < 2 ^ 60" by simp
qed

lemma decomp_nat:
  assumes "file_ok fs f cs ks"
  shows "unat (fst (decomp f offset)) = unat offset div cluster_bytes (fs_bpb fs)"
    and "unat (snd (decomp f offset)) = unat offset mod cluster_bytes (fs_bpb fs)"
  using assms by (simp_all add: decomp_def file_ok_def unat_shr unat_and_low)

lemma unat_shl_file:
  assumes "file_ok fs f cs ks" and "unat (w :: usize) * cluster_bytes (fs_bpb fs) < 2 ^ 64"
  shows "unat (shl (ff_shift f) w) = unat w * cluster_bytes (fs_bpb fs)"
  using assms by (simp add: file_ok_def unat_shl)

text \<open>The end of a non-empty file: the index of its last cluster and the bytes used there.\<close>

lemma decomp_end_nat:
  assumes "file_ok fs f cs ks" and "0 < unat len" and "unat len \<le> length ks * cluster_bytes (fs_bpb fs)"
  shows "\<exists>ei eo. decomp_end f len = Some (ei, eo) \<and> unat ei < length ks \<and>
    0 < unat eo \<and> unat eo \<le> cluster_bytes (fs_bpb fs) \<and>
    unat len = unat ei * cluster_bytes (fs_bpb fs) + unat eo"
proof -
  let ?n = "cluster_bytes (fs_bpb fs)"
  note sizes = file_sizes [OF assms(1)]
  let ?ci = "shr (ff_shift f) len" and ?oc = "len AND (shl (ff_shift f) 1 - 1)"
  have ci: "unat ?ci = unat len div ?n" and oc: "unat ?oc = unat len mod ?n"
    using assms(1) by (simp_all add: file_ok_def unat_shr unat_and_low)
  have split: "unat len = unat len div ?n * ?n + unat len mod ?n" by simp
  show ?thesis
  proof (cases "?oc = 0")
    case True
    then have m0: "unat len mod ?n = 0" using oc by simp
    then have q: "0 < unat len div ?n" using split assms(2) by (cases "unat len div ?n") auto
    then have "?ci \<noteq> 0" using ci by (metis unat_0 less_irrefl)
    then have "decomp_end f len = Some (?ci - 1, shl (ff_shift f) 1)"
      using True by (simp add: decomp_end_def Let_def)
    moreover have c1: "unat (?ci - 1) = unat len div ?n - 1"
      using q by (subst unat_sub) (simp_all add: ci word_le_nat_alt)
    moreover have one: "unat (shl (ff_shift f) (1 :: usize)) = ?n"
      using unat_shl_file [OF assms(1), of 1] sizes(3) by simp
    moreover have "unat len div ?n \<le> length ks"
      using assms(3) sizes(4) by (metis div_le_mono nonzero_mult_div_cancel_right less_not_refl2)
    moreover have "unat len = (unat len div ?n - 1) * ?n + ?n"
      using split m0 q by (cases "unat len div ?n") auto
    ultimately show ?thesis using sizes(4) q by (intro exI [of _ "?ci - 1"] exI [of _ "shl (ff_shift f) 1"]) simp
  next
    case False
    then have "0 < unat len mod ?n" using oc by (metis unat_gt_0)
    moreover have "decomp_end f len = Some (?ci, ?oc)" using False by (simp add: decomp_end_def Let_def)
    moreover have "unat len div ?n < length ks"
    proof (rule ccontr)
      assume "\<not> unat len div ?n < length ks"
      then have "length ks * ?n \<le> unat len div ?n * ?n" by (intro mult_right_mono) auto
      with split assms(3) \<open>0 < unat len mod ?n\<close> show False by linarith
    qed
    moreover have "unat len mod ?n \<le> ?n" using sizes(4) by (simp add: less_imp_le)
    ultimately show ?thesis
      using ci oc split by (intro exI [of _ ?ci] exI [of _ ?oc]) simp
  qed
qed

lemma run_count:
  assumes "file_ok fs f cs ks" and "run_at ks i k"
  shows "unat (ucast ((of_nat (ks ! (i + k)) :: u32) + 1 - of_nat (ks ! i)) :: usize) = k + 1"
proof -
  have "ks ! (i + k) = ks ! i + k" using assms(2) by (simp add: run_at_def)
  moreover have "i + k < length ks" using assms(2) by (simp add: run_at_def)
  then have "ks ! (i + k) < 2 ^ 28" using file_sizes(2) [OF assms(1)] nth_mem by blast
  ultimately have eq: "(of_nat (ks ! (i + k)) :: u32) + 1 - of_nat (ks ! i) = of_nat (k + 1)" and "k < 2 ^ 28"
    by simp_all
  then show ?thesis unfolding eq unat_ucast_usize by (simp add: unat_of_nat del: of_nat_add of_nat_Suc)
qed

lemma read_rest_ok:
  assumes ok: "file_ok fs f cs ks" and off: "unat offset < unat (ff_len f)"
    and i: "i = unat offset div cluster_bytes (fs_bpb fs)"
  shows "\<exists>rest k. read_rest f offset = Some (of_nat (ks ! i), rest) \<and> run_at ks i k \<and> 0 < unat rest \<and>
    unat offset + unat rest \<le> unat (ff_len f) \<and>
    unat offset mod cluster_bytes (fs_bpb fs) + unat rest \<le> (k + 1) * cluster_bytes (fs_bpb fs)"
proof -
  let ?n = "cluster_bytes (fs_bpb fs)" and ?o = "unat offset mod cluster_bytes (fs_bpb fs)"
  note sizes = file_sizes [OF ok]
  have split: "unat offset = i * ?n + ?o" and o: "?o < ?n" using sizes(4) by (simp_all add: i)
  have len: "unat (ff_len f) \<le> length ks * ?n" using ok unfolding file_ok_def by blast
  from decomp_end_nat [OF ok _ len] off obtain ei eo where e: "decomp_end f (ff_len f) = Some (ei, eo)"
    "unat ei < length ks" "0 < unat eo" "unat eo \<le> ?n" "unat (ff_len f) = unat ei * ?n + unat eo" by auto
  have ie: "i \<le> unat ei"
  proof (rule ccontr)
    assume "\<not> i \<le> unat ei"
    then have "(unat ei + 1) * ?n \<le> i * ?n" by (intro mult_right_mono) auto
    with split off e(4,5) show False by simp
  qed
  have il: "i < length ks" using ie e(2) by simp
  have small: "\<forall>c \<in> set ks. c < 2 ^ 32 - 1" using sizes(2) by fastforce
  have cl: "ff_clusters f = run_ends (map of_nat ks)" and dist: "distinct ks" using ok by (simp_all add: file_ok_def)
  have lr: "length (ff_clusters f) = length ks"
    unfolding cl using arg_cong [OF conjunct1 [OF run_ends_correct [of "map of_nat ks"]], of length] by simp
  from run_of_ends [OF small il] obtain k where k: "run_at ks i k"
    "ff_clusters f ! i = (of_nat (ks ! i), of_nat (ks ! (i + k)))" unfolding cl by blast
  from run_of_ends [OF small e(2)] obtain k' where k': "run_at ks (unat ei) k'"
    "ff_clusters f ! unat ei = (of_nat (ks ! unat ei), of_nat (ks ! (unat ei + k')))" unfolding cl by blast
  have ik: "i + k < length ks" "unat ei + k' < length ks" using k(1) k'(1) by (simp_all add: run_at_def)
  have b28: "ks ! (i + k) < 2 ^ 32" "ks ! (unat ei + k') < 2 ^ 32"
    using sizes(2) nth_mem [OF ik(1)] nth_mem [OF ik(2)] by fastforce+
  have same: "(of_nat (ks ! (unat ei + k')) :: u32) = of_nat (ks ! (i + k)) \<longleftrightarrow> unat ei \<le> i + k"
    using of_nat_inj_32 [OF b28(2,1)] same_run [OF dist k(1) k'(1) ie] by auto
  have ofs: "fst (decomp f offset) = shr (ff_shift f) offset" "unat (fst (decomp f offset)) = i"
      "unat (snd (decomp f offset)) = ?o"
    using decomp_nat [OF ok, of offset] by (simp_all add: decomp_def i)
  obtain di do' where d: "decomp f offset = (di, do')" "unat di = i" "unat do' = ?o" using ofs by (cases "decomp f offset") auto
  have big: "(k + 1) * ?n < 2 ^ 64"
  proof -
    have "(k + 1) * ?n \<le> length ks * ?n" using ik(1) by (intro mult_right_mono) auto
    then show ?thesis using sizes(1) by simp
  qed
  define count where "count = (ucast ((of_nat (ks ! (i + k)) :: u32) + 1 - of_nat (ks ! i)) :: usize)"
  have count: "unat (shl (ff_shift f) count) = (k + 1) * ?n"
    unfolding count_def using run_count [OF ok k(1)] unat_shl_file [OF ok] big by simp
  show ?thesis
  proof (cases "unat ei \<le> i + k")
    case False
    have rr: "read_rest f offset = Some (of_nat (ks ! i), shl (ff_shift f) count - do')"
      using False same e(1,2) d(1,2) k(2) k'(2) il lr
      by (simp add: read_rest_def nth_get_def Let_def count_def)
    have "?o \<le> (k + 1) * ?n" using o by (simp add: trans_le_add1)
    then have rest: "unat (shl (ff_shift f) count - do') = (k + 1) * ?n - ?o"
      using d(3) count by (subst unat_sub) (simp_all add: word_le_nat_alt)
    have "(i + k + 1) * ?n \<le> unat ei * ?n" using False by (intro mult_right_mono) auto
    then have "i * ?n + (k + 1) * ?n \<le> unat ei * ?n" by (simp add: algebra_simps)
    moreover have "?o < (k + 1) * ?n" using o by (simp add: trans_less_add1)
    ultimately show ?thesis
      using rr k(1) rest split e(3,5)
      by (intro exI [of _ "shl (ff_shift f) count - do'"] exI [of _ k]) simp
  next
    case True
    define j where "j = unat ei - i"
    have ej: "unat ei = i + j" "j \<le> k" using True ie by (simp_all add: j_def)
    have kse: "ks ! unat ei = ks ! i + j" using k(1) ej by (simp add: run_at_def)
    have cnt: "unat (ucast ((of_nat (ks ! unat ei) :: u32) - of_nat (ks ! i)) :: usize) = j"
    proof -
      have "(of_nat (ks ! unat ei) :: u32) - of_nat (ks ! i) = of_nat j" unfolding kse by simp
      moreover have "ks ! unat ei < 2 ^ 28" using sizes(2) nth_mem [OF e(2)] by blast
      then have "j < 2 ^ 32" using kse by simp
      ultimately show ?thesis by (simp add: unat_ucast_usize unat_of_nat)
    qed
    let ?c = "ucast ((of_nat (ks ! unat ei) :: u32) - of_nat (ks ! i)) :: usize"
    have jn: "j * ?n + ?n \<le> (k + 1) * ?n" using ej(2) by (simp add: mult_right_mono)
    have sc: "unat (shl (ff_shift f) ?c) = j * ?n"
    proof -
      have "j * ?n < 2 ^ 64" using jn big by linarith
      then show ?thesis using unat_shl_file [OF ok, of ?c] unfolding cnt by blast
    qed
    have add: "unat (shl (ff_shift f) ?c + eo) = j * ?n + unat eo"
    proof -
      have "j * ?n + unat eo < 2 ^ 64" using e(4) jn big by linarith
      then show ?thesis using unat_add_no_overflow [of "shl (ff_shift f) ?c" eo] unfolding sc by simp
    qed
    have rr: "read_rest f offset = Some (of_nat (ks ! i), shl (ff_shift f) ?c + eo - do')"
      using True same e(1,2) d(1,2) k(2) k'(2) il lr
      by (simp add: read_rest_def nth_get_def Let_def)
    have lt: "?o < j * ?n + unat eo"
    proof -
      have "i * ?n + ?o < i * ?n + (j * ?n + unat eo)"
        using off e(5) split unfolding ej(1) by (simp add: algebra_simps)
      then show ?thesis by simp
    qed
    then have rest: "unat (shl (ff_shift f) ?c + eo - do') = j * ?n + unat eo - ?o"
      using d(3) add by (subst unat_sub) (simp_all add: word_le_nat_alt)
    have "unat offset + (j * ?n + unat eo - ?o) = unat (ff_len f)"
      using lt split e(5) unfolding ej(1) by (simp add: algebra_simps)
    moreover have "?o + (j * ?n + unat eo - ?o) \<le> (k + 1) * ?n" using lt jn e(4) by linarith
    ultimately show ?thesis
      using rr k(1) rest lt
      by (intro exI [of _ "shl (ff_shift f) ?c + eo - do'"] exI [of _ k]) simp
  qed
qed

lemma advance_one:
  "advance_slices [b] n = (if n < length b then Returns [drop n b] else if n = length b then Returns [] else Panics)"
  by (simp add: advance_slices_def ioslice_advance_def)

context io_device
begin

lemma file_read_loop_ok:
  assumes "unat pos + min (unat rest) (length buf) \<le> length (contents s)" and "buf \<noteq> []"
  shows "\<exists>s' m r. file_read_loop d s pos rest [buf] rl filled =
      Some (Returns ((s', filled @ slice_at (unat pos) m (contents s) @ drop m buf), r)) \<and>
    contents s' = contents s \<and> m \<le> min (unat rest) (length buf) \<and>
    (r = Inr (rl + of_nat m) \<and> m = min (unat rest) (length buf) \<or> r = Inl EINTR)"
  using assms
proof (induction "length buf" arbitrary: s pos rest buf rl filled rule: less_induct)
  case less
  show ?case
  proof (cases "rest = 0")
    case True
    then show ?thesis
      by (intro exI [of _ s] exI [of _ 0] exI [of _ "Inr rl"], subst file_read_loop.simps) (simp add: slice_at_def)
  next
    case False
    let ?len = "min (unat rest) (length buf)"
    have pos: "0 < unat rest" using False by (simp add: unat_gt_0)
    have ne: "take ?len buf \<noteq> []" and ll: "length (take ?len buf) = ?len" using pos less.prems(2) by auto
    have inside: "unat pos < length (contents s)" using less.prems pos by (cases buf) auto
    obtain s1 bufs1 r1 where call: "io_read_at d s pos [take ?len buf] = (s1, bufs1, r1)" by (metis prod_cases3)
    from read_at [OF call ne inside] have c1: "contents s1 = contents s" and
      cases: "(\<exists>n. r1 = Inr n \<and> 0 < unat n \<and> unat n \<le> ?len \<and> unat pos + unat n \<le> length (contents s) \<and>
          bufs1 = [slice_at (unat pos) (unat n) (contents s) @ drop (unat n) (take ?len buf)]) \<or>
        r1 = Inl EINTR \<and> bufs1 = [take ?len buf]"
      unfolding ll by auto
    from cases show ?thesis
    proof (elim disjE exE conjE)
      assume r1: "r1 = Inl EINTR" "bufs1 = [take ?len buf]"
      have "file_read_loop d s pos rest [buf] rl filled = Some (Returns ((s1, filled @ buf), Inl EINTR))"
        using False call r1 by (subst file_read_loop.simps) (simp add: Let_def)
      then show ?thesis using c1 by (intro exI [of _ s1] exI [of _ 0] exI [of _ "Inl EINTR"]) (simp add: slice_at_def)
    next
      fix n
      assume n: "r1 = Inr n" "0 < unat n" "unat n \<le> ?len" "unat pos + unat n \<le> length (contents s)"
        "bufs1 = [slice_at (unat pos) (unat n) (contents s) @ drop (unat n) (take ?len buf)]"
      let ?sl = "slice_at (unat pos) (unat n) (contents s)"
      have sl: "length ?sl = unat n" using n(4) by simp
      have b1: "concat bufs1 @ drop ?len buf = ?sl @ drop (unat n) buf"
      proof -
        have "drop (unat n) (take ?len buf) @ drop ?len buf = drop (unat n) (take ?len buf @ drop ?len buf)"
          using n(3) by (simp only: drop_append ll diff_is_0_eq') (simp add: ll)
        then show ?thesis unfolding n(5) by simp
      qed
      have lb: "length (?sl @ drop (unat n) buf) = length buf" using sl n(3) by simp
      have tk: "take (unat n) (concat bufs1 @ drop ?len buf) = ?sl" unfolding b1 using sl by simp
      have rest: "unat (rest - n) = unat rest - unat n" using n(3) by (subst unat_sub) (simp_all add: word_le_nat_alt)
      have posn: "unat (pos + n) = unat pos + unat n"
        using n(4) contents_small [of s] by (subst unat_add_no_overflow) simp_all
      show ?thesis
      proof (cases "unat n < length buf")
        case True
        have adv: "advance_slices [concat bufs1 @ drop ?len buf] (unat n) = Returns [drop (unat n) buf]"
          unfolding b1 advance_one lb using True sl by simp
        have step: "file_read_loop d s pos rest [buf] rl filled =
            file_read_loop d s1 (pos + n) (rest - n) [drop (unat n) buf] (rl + n) (filled @ ?sl)"
          using False call n(1) by (subst file_read_loop.simps) (simp add: Let_def adv tk del: take_append)
        have "unat (pos + n) + min (unat (rest - n)) (length (drop (unat n) buf)) \<le> length (contents s1)"
          unfolding c1 posn rest length_drop using less.prems(1) n(3,4) by linarith
        moreover have "length (drop (unat n) buf) < length buf" "drop (unat n) buf \<noteq> []" using True n(2) by auto
        ultimately obtain s' m r where IH:
          "file_read_loop d s1 (pos + n) (rest - n) [drop (unat n) buf] (rl + n) (filled @ ?sl) =
            Some (Returns ((s', (filled @ ?sl) @ slice_at (unat pos + unat n) m (contents s) @ drop m (drop (unat n) buf)), r))"
          "contents s' = contents s" "m \<le> min (unat rest - unat n) (length buf - unat n)"
          "r = Inr (rl + n + of_nat m) \<and> m = min (unat rest - unat n) (length buf - unat n) \<or> r = Inl EINTR"
          using less.hyps [of "drop (unat n) buf" "pos + n" "rest - n" s1 "rl + n" "filled @ ?sl"]
          unfolding c1 posn rest length_drop by blast
        have "(filled @ ?sl) @ slice_at (unat pos + unat n) m (contents s) @ drop m (drop (unat n) buf) =
            filled @ slice_at (unat pos) (unat n + m) (contents s) @ drop (unat n + m) buf"
          using slice_append [of "unat pos" "unat n" "contents s" m] by (simp add: add.commute)
        moreover have "unat n + m \<le> min (unat rest) (length buf)" using IH(3) n(3) by linarith
        moreover have "r = Inr (rl + of_nat (unat n + m)) \<and> unat n + m = min (unat rest) (length buf) \<or> r = Inl EINTR"
        proof -
          have "m = min (unat rest - unat n) (length buf - unat n) \<Longrightarrow> unat n + m = min (unat rest) (length buf)"
            using n(3) by linarith
          moreover have "rl + n + of_nat m = rl + of_nat (unat n + m)" by (simp add: add.assoc)
          ultimately show ?thesis using IH(4) by auto
        qed
        ultimately show ?thesis
          using step IH(1,2) by (intro exI [of _ s'] exI [of _ "unat n + m"] exI [of _ r]) simp
      next
        case full: False
        then have nl: "unat n = length buf" using n(3) by simp
        have "file_read_loop d s1 (pos + n) (rest - n) [] (rl + n) (filled @ ?sl) =
            Some (Returns ((s1, filled @ ?sl), Inr (rl + n)))"
          by (subst file_read_loop.simps) simp
        moreover have adv: "advance_slices [concat bufs1 @ drop ?len buf] (unat n) = Returns []"
          unfolding b1 advance_one lb using nl by simp
        have "file_read_loop d s pos rest [buf] rl filled =
            file_read_loop d s1 (pos + n) (rest - n) [] (rl + n) (filled @ ?sl)"
          using False call n(1) by (subst file_read_loop.simps) (simp add: Let_def adv tk del: take_append)
        moreover have "(of_nat (length buf) :: usize) = n" unfolding nl [symmetric] by simp
        moreover have "min (unat rest) (length buf) = length buf" using nl n(3) by simp
        ultimately show ?thesis
          using c1 nl by (intro exI [of _ s1] exI [of _ "length buf"] exI [of _ "Inr (rl + n)"]) simp
      qed
    qed
  qed
qed

end

lemma run_slice:
  assumes ok: "file_ok fs f cs ks" and k: "run_at ks i k" and m: "x + m \<le> (k + 1) * cluster_bytes (fs_bpb fs)"
    and len: "i * cluster_bytes (fs_bpb fs) + x + m \<le> len" "len \<le> length ks * cluster_bytes (fs_bpb fs)"
  shows "slice_at (cluster_pos (fs_bpb fs) (ks ! i) + x) m cs =
    slice_at (i * cluster_bytes (fs_bpb fs) + x) m (file_data (fs_bpb fs) cs ks len)"
    and "0 < m \<Longrightarrow> cluster_pos (fs_bpb fs) (ks ! i) + x + m \<le> length cs"
proof -
  let ?n = "cluster_bytes (fs_bpb fs)" and ?p = "cluster_pos (fs_bpb fs) (ks ! i)"
  have k': "i + k < length ks" "\<forall>j \<le> k. ks ! (i + j) = ks ! i + j" using k by (simp_all add: run_at_def)
  show end': "?p + x + m \<le> length cs" if "0 < m"
  proof -
    have "x + m - 1 < (k + 1) * ?n" using m that by linarith
    from run_bytes(2) [OF ok k' this] that show ?thesis by linarith
  qed
  have lenf: "length (file_data (fs_bpb fs) cs ks len) = len"
    using len(2) length_blocks [OF ok] by (simp add: file_data_def)
  show "slice_at (?p + x) m cs = slice_at (i * ?n + x) m (file_data (fs_bpb fs) cs ks len)"
  proof (cases "m = 0")
    case True
    then show ?thesis by (simp add: slice_at_def)
  next
    case False
    show ?thesis
    proof (rule nth_equalityI)
      show "length (slice_at (?p + x) m cs) = length (slice_at (i * ?n + x) m (file_data (fs_bpb fs) cs ks len))"
        using end' False lenf len(1) by simp
      fix j assume "j < length (slice_at (?p + x) m cs)"
      then have j: "j < m" by simp
      have "slice_at (?p + x) m cs ! j = cs ! (?p + (x + j))"
        using j end' by (subst nth_slice) (simp_all add: add.assoc)
      also have "\<dots> = concat (file_blocks (fs_bpb fs) cs ks) ! (i * ?n + (x + j))"
        by (rule run_bytes(1) [OF ok k', symmetric]) (use j m in linarith)
      also have "\<dots> = file_data (fs_bpb fs) cs ks len ! (i * ?n + x + j)"
        using j len(1) by (simp add: file_data_def add.assoc)
      also have "\<dots> = slice_at (i * ?n + x) m (file_data (fs_bpb fs) cs ks len) ! j"
        using j len(1) lenf by (subst nth_slice) simp_all
      finally show "slice_at (?p + x) m cs ! j = slice_at (i * ?n + x) m (file_data (fs_bpb fs) cs ks len) ! j" .
    qed
  qed
qed

text \<open>In the cluster that holds the end of the file the rest is what is left before the end, as a difference
  of machine words.\<close>

lemma read_rest_last:
  assumes ok: "file_ok fs f cs ks" and i: "i < length ks" "unat offset div cluster_bytes (fs_bpb fs) = i"
    and e: "i * cluster_bytes (fs_bpb fs) < unat (ff_len f)"
      "unat (ff_len f) \<le> i * cluster_bytes (fs_bpb fs) + cluster_bytes (fs_bpb fs)"
  shows "read_rest f offset = Some (of_nat (ks ! i), ff_len f - offset)"
proof -
  let ?n = "cluster_bytes (fs_bpb fs)"
  obtain di do' where d: "decomp f offset = (di, do')" "unat di = i" "unat do' = unat offset mod ?n"
    using decomp_nat [OF ok, of offset] i(2) by (cases "decomp f offset") auto
  have "0 < unat (ff_len f)" "unat (ff_len f) \<le> length ks * ?n" using ok e(1) unfolding file_ok_def by linarith+
  then obtain ei eo where ee: "decomp_end f (ff_len f) = Some (ei, eo)" "0 < unat eo" "unat eo \<le> ?n"
    "unat (ff_len f) = unat ei * ?n + unat eo" using decomp_end_nat [OF ok] by blast
  have "unat ei = i"
  proof (rule ccontr)
    assume "unat ei \<noteq> i"
    then consider "unat ei + 1 \<le> i" | "i + 1 \<le> unat ei" by linarith
    then show False
    proof cases
      case 1
      then have "(unat ei + 1) * ?n \<le> i * ?n" by (rule mult_right_mono) simp
      with e ee(3,4) show False by simp
    next
      case 2
      then have "(i + 1) * ?n \<le> unat ei * ?n" by (rule mult_right_mono) simp
      with e ee(2,4) show False by simp
    qed
  qed
  then have di: "di = ei" using d(2) by (simp add: word_unat_eq_iff)
  have split: "unat offset = i * ?n + unat do'"
    using d(3) i(2) div_mult_mod_eq [of "unat offset" ?n] by simp
  have "offset = of_nat (i * ?n) + do'" "ff_len f = of_nat (i * ?n) + eo"
    using arg_cong [OF split, of "of_nat :: nat \<Rightarrow> usize"] arg_cong [OF ee(4), of "of_nat :: nat \<Rightarrow> usize"]
    by (simp_all add: \<open>unat ei = i\<close>)
  then have rest: "eo - do' = ff_len f - offset" by simp
  have fst: "map fst (ff_clusters f) = map of_nat ks" using ok run_ends_correct [of "map of_nat ks"] by (simp add: file_ok_def)
  from arg_cong [OF fst, of length] have lr: "length (ff_clusters f) = length ks" by simp
  obtain c cend where c: "ff_clusters f ! i = (c, cend)" by force
  have "c = of_nat (ks ! i)" using arg_cong [OF fst, of "\<lambda>xs. xs ! i"] c i(1) lr by simp
  then show ?thesis
    using ee(1) d(1,2) i(1) lr c di rest by (simp add: read_rest_def nth_get_def Let_def shl_def)
qed

lemma read_rest_at_end:
  assumes ok: "file_ok fs f cs ks" and off: "offset = ff_len f"
    and tight: "length ks * cluster_bytes (fs_bpb fs) < unat (ff_len f) + cluster_bytes (fs_bpb fs)"
  shows "read_rest f offset \<in> insert None {Some (of_nat c, 0) | c. c \<in> set ks}"
proof -
  let ?n = "cluster_bytes (fs_bpb fs)" and ?i = "unat offset div cluster_bytes (fs_bpb fs)"
  note n0 = file_sizes(4) [OF ok]
  have fst: "map fst (ff_clusters f) = map of_nat ks" using ok run_ends_correct [of "map of_nat ks"] by (simp add: file_ok_def)
  from arg_cong [OF fst, of length] have lr: "length (ff_clusters f) = length ks" by simp
  show ?thesis
  proof (cases "?i < length ks")
    case True
    have split: "?i * ?n + unat offset mod ?n = unat offset" by simp
    have "unat offset mod ?n < ?n" using n0 by simp
    moreover have "?i * ?n + ?n \<le> length ks * ?n" using mult_right_mono [of "?i + 1" "length ks" ?n] True by simp
    ultimately have "?i * ?n < unat (ff_len f)" "unat (ff_len f) \<le> ?i * ?n + ?n"
      using tight split unfolding off [symmetric] by linarith+
    from read_rest_last [OF ok True refl this] show ?thesis using True off by auto
  next
    case False
    then have "nth_get (ff_clusters f) (unat (fst (decomp f offset))) = None"
      using decomp_nat [OF ok, of offset] lr by (simp add: nth_get_def)
    then show ?thesis by (cases "decomp f offset") (simp add: read_rest_def Let_def split: option.splits)
  qed
qed

end
