(* ===== verification/Fat_File_Properties.thy ===== *)
theory Fat_File_Properties
  imports Fat_File_Spec Fat_Mount
begin

text \<open>
  What the file operations of \<open>afat32/src/file.rs\<close> promise to their callers: inside the file a read is a
  read of the file's bytes; past its end it is not.
\<close>

section \<open>Reading a file\<close>

lemma file_read_at_unfold:
  assumes "read_rest f offset = Some (c, rest)" and "offset_from_cluster fs c = Returns w"
    and "file_read_loop d s (w + snd (decomp f offset)) rest bufs 0 [] = Some (Returns ((s', mem), r))"
  shows "file_read_at d (s, fs) f offset bufs =
    Some (Returns ((((s', fs), case r of Inr _ \<Rightarrow> update_read fs f | Inl _ \<Rightarrow> f), mem), r))"
  using assms by (cases r) (simp_all add: file_read_at_def obind_def succeed_def failwith_def)

lemma decomp_position:
  assumes ok: "file_ok fs f cs ks" and i: "i = unat offset div cluster_bytes (fs_bpb fs)" "i < length ks"
  shows "\<exists>w. offset_from_cluster fs (of_nat (ks ! i)) = Returns w \<and>
    unat (w + snd (decomp f offset)) = cluster_pos (fs_bpb fs) (ks ! i) + unat offset mod cluster_bytes (fs_bpb fs)"
proof -
  let ?n = "cluster_bytes (fs_bpb fs)" and ?o = "unat offset mod cluster_bytes (fs_bpb fs)"
  note sizes = file_sizes [OF ok]
  have ks: "2 \<le> ks ! i" "ks ! i < clusters_of (fs_bpb fs) + 2" "volume_ok fs cs"
    using ok i(2) by (simp_all add: file_ok_def)
  have "ks ! i < 2 ^ 28" using sizes(2) i(2) by simp
  then have uk: "unat (of_nat (ks ! i) :: u32) = ks ! i" by (simp add: unat_of_nat)
  from ks(3) have g: "geometry_ok (fs_bpb fs)" "unat (total_sectors (fs_bpb fs)) * unat (bytes_per_sector (fs_bpb fs)) \<le> length cs"
    by (simp_all add: volume_ok_def Let_def)
  from offset_from_cluster_eq [OF g(1), of "of_nat (ks ! i)"] ks(1,2) obtain w where
    w: "offset_from_cluster fs (of_nat (ks ! i)) = Returns w" "unat w = cluster_pos (fs_bpb fs) (ks ! i)"
    unfolding uk by blast
  have "unat (total_sectors (fs_bpb fs)) * unat (bytes_per_sector (fs_bpb fs)) < 2 ^ 32 * 2 ^ 32"
    by (rule mult_strict_mono) (use unat_lt [of "total_sectors (fs_bpb fs)"] unat_lt [of "bytes_per_sector (fs_bpb fs)"] in simp_all)
  moreover have "?o < ?n" using sizes(4) by simp
  ultimately have "unat w + unat (snd (decomp f offset)) < 2 ^ 64"
    using cluster_pos_end [OF g(1) ks(1,2)] unfolding w(2) decomp_nat(2) [OF ok] by simp
  then have "unat (w + snd (decomp f offset)) = unat w + unat (snd (decomp f offset))"
    by (subst unat_add_no_overflow) simp_all
  then show ?thesis using w decomp_nat(2) [OF ok, of offset] by simp
qed

lemma file_read_inside:
  assumes "io_device d contents patience" and "file_ok fs f (contents s) ks" and "buf \<noteq> []"
    and "unat offset < unat (ff_len f)"
  shows "\<exists>s' f' mem r. file_read_at d (s, fs) f offset [buf] = Some (Returns ((((s', fs), f'), mem), r)) \<and>
    contents s' = contents s \<and>
    (case r of
       Inr n \<Rightarrow> (0 < n \<longleftrightarrow> unat offset < unat (ff_len f)) \<and> unat n \<le> length buf \<and>
         unat offset + unat n \<le> unat (ff_len f) \<and>
         mem = slice_at (unat offset) (unat n) (file_data (fs_bpb fs) (contents s) ks (unat (ff_len f))) @ drop (unat n) buf
     | Inl e \<Rightarrow> e = EINTR)"
proof -
  let ?n = "cluster_bytes (fs_bpb fs)" and ?i = "unat offset div cluster_bytes (fs_bpb fs)"
    and ?o = "unat offset mod cluster_bytes (fs_bpb fs)"
  note ok = assms(2) and off = assms(4)
  have len: "unat (ff_len f) \<le> length ks * ?n" using ok unfolding file_ok_def by blast
  have split: "unat offset = ?i * ?n + ?o" by simp
  from read_rest_ok [OF ok off refl] obtain rest k where
    r: "read_rest f offset = Some (of_nat (ks ! ?i), rest)" "run_at ks ?i k" "0 < unat rest"
    "unat offset + unat rest \<le> unat (ff_len f)" "?o + unat rest \<le> (k + 1) * ?n" by blast
  have i: "?i < length ks" using r(2) by (simp add: run_at_def)
  from decomp_position [OF ok refl i] obtain w where w: "offset_from_cluster fs (of_nat (ks ! ?i)) = Returns w"
    "unat (w + snd (decomp f offset)) = cluster_pos (fs_bpb fs) (ks ! ?i) + ?o" by blast
  have "cluster_pos (fs_bpb fs) (ks ! ?i) + ?o + unat rest \<le> length (contents s)"
    by (rule run_slice(2) [OF ok r(2,5) _ len r(3)]) (use r(4) split in linarith)
  then have "unat (w + snd (decomp f offset)) + min (unat rest) (length buf) \<le> length (contents s)"
    unfolding w(2) by linarith
  from io_device.file_read_loop_ok [OF assms(1) this assms(3), of 0 "[]"] obtain s' m res where
    loop: "file_read_loop d s (w + snd (decomp f offset)) rest [buf] 0 [] =
      Some (Returns ((s', slice_at (cluster_pos (fs_bpb fs) (ks ! ?i) + ?o) m (contents s) @ drop m buf), res))"
    "contents s' = contents s" "m \<le> min (unat rest) (length buf)"
    "res = Inr (of_nat m) \<and> m = min (unat rest) (length buf) \<or> res = Inl EINTR" unfolding w(2) by auto
  have "slice_at (cluster_pos (fs_bpb fs) (ks ! ?i) + ?o) m (contents s) =
      slice_at (?i * ?n + ?o) m (file_data (fs_bpb fs) (contents s) ks (unat (ff_len f)))"
    by (rule run_slice(1) [OF ok r(2) _ _ len]) (use r(4,5) loop(3) split in linarith)+
  moreover have "unat (of_nat m :: usize) = m"
    using loop(3) unat_lt [of rest] by (simp add: unat_of_nat)
  moreover have "0 < m" if "m = min (unat rest) (length buf)" using that r(3) assms(3) by simp
  ultimately show ?thesis
    using file_read_at_unfold [OF r(1) w(1) loop(1)] loop(2-4) r(4) off
    by (cases res) (auto simp: word_less_nat_alt)
qed

lemma file_read_at_end:
  assumes ok: "file_ok fs f cs ks" and off: "offset = ff_len f"
    and tight: "length ks * cluster_bytes (fs_bpb fs) < unat (ff_len f) + cluster_bytes (fs_bpb fs)"
  shows "\<exists>f'. file_read_at d (s, fs) f offset [buf] = Some (Returns ((((s, fs), f'), buf), Inr 0))"
  using read_rest_at_end [OF ok off tight]
proof (elim insertE CollectE exE conjE)
  assume "read_rest f offset = None"
  then show ?thesis by (simp add: file_read_at_def succeed_def)
next
  fix c assume c: "read_rest f offset = Some (of_nat c, 0)" "c \<in> set ks"
  then have "2 \<le> c" "c < clusters_of (fs_bpb fs) + 2" "geometry_ok (fs_bpb fs)" "c < 2 ^ 28"
    using ok file_sizes(2) [OF ok] by (simp_all add: file_ok_def volume_ok_def Let_def)
  then obtain w where w: "offset_from_cluster fs (of_nat c) = Returns w"
    using offset_from_cluster_eq [of fs "of_nat c"] by (auto simp: unat_of_nat)
  have loop: "file_read_loop d s (w + snd (decomp f offset)) 0 [buf] 0 [] = Some (Returns ((s, buf), Inr 0))"
    by (subst file_read_loop.simps) (simp add: succeed_def)
  show ?thesis unfolding file_read_at_unfold [OF c(1) w loop] by simp
qed

text \<open>Two files of the small volume: one of 700 bytes in both clusters, and one of 100 bytes.\<close>

definition file_small :: "nat list \<Rightarrow> usize \<Rightarrow> fat_file" where
  "file_small ks len = \<lparr>ff_clusters = run_ends (map of_nat ks), ff_shift = 9, ff_perm = permissions_all,
    ff_entry = None, ff_len = len, ff_cur = 0\<rparr>"

lemma file_small_ok:
  assumes "distinct ks" and "set ks \<subseteq> {2, 3}" and "unat len \<le> length ks * 512"
  shows "file_ok fs_small (file_small ks len) (disk_bytes device_small) ks"
proof -
  have b: "fs_bpb fs_small = bpb_small" by (simp add: fs_small_def)
  have "\<forall>c \<in> set ks. 2 \<le> c \<and> c < clusters_of bpb_small + 2" using assms(2) by (auto simp: bpb_small_geometry)
  then show ?thesis
    using assms fs_small_volume by (simp add: file_ok_def b file_small_def bpb_small_geometry)
qed

section \<open>Properties\<close>

text \<open>
  C30: Reading from inside a file refines reading its bytes. The file is the list of its bytes, the
  contents of its clusters in chain order up to its length. A read from an offset before the end either
  fills a prefix of the buffer with exactly the file's bytes at that offset, at least one of them and
  none from behind the end of the file, and leaves the rest of the buffer alone, or it is interrupted.
  The device keeps its bytes. At the end of a file without spare clusters nothing is read.
\<close>

theorem file_read_refines:
  assumes "io_device d contents patience" and "file_ok fs f (contents s) ks" and "buf \<noteq> []"
    and "unat offset < unat (ff_len f) \<or> offset = ff_len f \<and>
      length ks * cluster_bytes (fs_bpb fs) < unat (ff_len f) + cluster_bytes (fs_bpb fs)"
  shows "\<exists>s' f' mem r. file_read_at d (s, fs) f offset [buf] = Some (Returns ((((s', fs), f'), mem), r)) \<and>
    contents s' = contents s \<and>
    (case r of
       Inr n \<Rightarrow> (0 < n \<longleftrightarrow> unat offset < unat (ff_len f)) \<and> unat n \<le> length buf \<and>
         unat offset + unat n \<le> unat (ff_len f) \<and>
         mem = slice_at (unat offset) (unat n) (file_data (fs_bpb fs) (contents s) ks (unat (ff_len f))) @ drop (unat n) buf
     | Inl e \<Rightarrow> e = EINTR)"
  using assms(4)
proof (elim disjE conjE)
  assume "unat offset < unat (ff_len f)"
  from file_read_inside [OF assms(1-3) this] show ?thesis .
next
  assume off: "offset = ff_len f" and tight: "length ks * cluster_bytes (fs_bpb fs) < unat (ff_len f) + cluster_bytes (fs_bpb fs)"
  from file_read_at_end [OF assms(2) this, of d s buf] show ?thesis using off by (auto simp: slice_at_def)
qed

theorem file_read_refines_witness:
  "\<exists>s' f' mem r. file_read_at ram_io (device_small, fs_small) (file_small [2, 3] 700) 510 [[1, 2, 3, 4]] =
      Some (Returns ((((s', fs_small), f'), mem), r)) \<and> disk_bytes s' = disk_bytes device_small"
proof -
  have ok: "file_ok fs_small (file_small [2, 3] 700) (disk_bytes device_small) [2, 3]"
    by (rule file_small_ok) simp_all
  have "unat (510 :: usize) < unat (ff_len (file_small [2, 3] 700))" by (simp add: file_small_def)
  with file_read_refines [OF ram.io_device_axioms ok, of "[1, 2, 3, 4]" 510] show ?thesis by blast
qed

text \<open>
  C36: Past the end of a file a read is not empty. From an offset behind the end, in the cluster that
  holds it, the number of bytes left is a difference that wraps around, so the read fills the whole
  buffer with whatever the device holds there, going on past the cluster into the next one.
\<close>

theorem file_read_past_end:
  assumes "io_device d contents patience" and "file_ok fs f (contents s) ks" and "buf \<noteq> []" and "length buf < 2 ^ 32"
    and "i < length ks" and "i * cluster_bytes (fs_bpb fs) < unat (ff_len f)" and "unat (ff_len f) < unat offset"
    and "unat offset < (i + 1) * cluster_bytes (fs_bpb fs)"
    and "cluster_pos (fs_bpb fs) (ks ! i) + unat offset mod cluster_bytes (fs_bpb fs) + length buf \<le> length (contents s)"
  shows "\<exists>s' f' mem r. file_read_at d (s, fs) f offset [buf] = Some (Returns ((((s', fs), f'), mem), r)) \<and>
    (case r of
       Inr n \<Rightarrow> unat n = length buf \<and>
         mem = slice_at (cluster_pos (fs_bpb fs) (ks ! i) + unat offset mod cluster_bytes (fs_bpb fs)) (length buf) (contents s)
     | Inl e \<Rightarrow> e = EINTR)"
proof -
  let ?n = "cluster_bytes (fs_bpb fs)" and ?o = "unat offset mod cluster_bytes (fs_bpb fs)"
  note ok = assms(2)
  note sizes = file_sizes [OF ok]
  have "unat offset div ?n = i" by (rule div_nat_eqI) (use assms(6-8) in \<open>simp_all add: mult.commute [of _ i]\<close>)
  then have i: "i = unat offset div ?n" by simp
  have "unat (ff_len f) \<le> i * ?n + ?n" using assms(7,8) by simp
  from read_rest_last [OF ok assms(5) i [symmetric] assms(6) this]
  have rr: "read_rest f offset = Some (of_nat (ks ! i), ff_len f - offset)" .
  from decomp_position [OF ok i assms(5)] obtain w where w: "offset_from_cluster fs (of_nat (ks ! i)) = Returns w"
    "unat (w + snd (decomp f offset)) = cluster_pos (fs_bpb fs) (ks ! i) + ?o" by blast
  have "unat offset < unat (ff_len f) + ?n" using assms(6,8) by simp
  then have "unat offset - unat (ff_len f) < 2 ^ 32" using sizes(3) assms(7) by simp
  moreover have "unat (ff_len f - offset) = 2 ^ 64 + unat (ff_len f) - unat offset"
    using assms(7) by (simp add: unat_sub_if' word_le_nat_alt)
  ultimately have full: "min (unat (ff_len f - offset)) (length buf) = length buf" using assms(4,7) by simp
  have "unat (w + snd (decomp f offset)) + min (unat (ff_len f - offset)) (length buf) \<le> length (contents s)"
    unfolding w(2) full by (rule assms(9))
  from io_device.file_read_loop_ok [OF assms(1) this assms(3), of 0 "[]"] obtain s' m res where
    loop: "file_read_loop d s (w + snd (decomp f offset)) (ff_len f - offset) [buf] 0 [] =
      Some (Returns ((s', slice_at (cluster_pos (fs_bpb fs) (ks ! i) + ?o) m (contents s) @ drop m buf), res))"
    "res = Inr (of_nat m) \<and> m = length buf \<or> res = Inl EINTR" unfolding w(2) full by auto
  have "unat (of_nat (length buf) :: usize) = length buf" using assms(4) by (simp add: unat_of_nat)
  with file_read_at_unfold [OF rr w(1) loop(1)] loop(2) show ?thesis by (cases res) auto
qed

theorem file_read_past_end_witness:
  "\<exists>s' f' mem r. file_read_at ram_io (device_small, fs_small) (file_small [2] 100) 508 [replicate 8 1] =
      Some (Returns ((((s', fs_small), f'), mem), r)) \<and>
    (case r of Inr n \<Rightarrow> unat n = 8 | Inl e \<Rightarrow> e = EINTR)"
proof -
  have ok: "file_ok fs_small (file_small [2] 100) (disk_bytes device_small) [2]"
    by (rule file_small_ok) simp_all
  have b: "fs_bpb fs_small = bpb_small" by (simp add: fs_small_def)
  have "cluster_pos bpb_small 2 = 1536"
    by (simp add: cluster_pos_def first_sector_def bpb_small_def bpb_default_def sectors_per_fat_def is_fat32_def)
  then have "cluster_pos (fs_bpb fs_small) ([2] ! 0) + unat (508 :: usize) mod cluster_bytes (fs_bpb fs_small) +
      length (replicate 8 (1 :: u8)) \<le> length (disk_bytes device_small)"
    by (simp add: b bpb_small_geometry length_device_small)
  from file_read_past_end [OF ram.io_device_axioms ok _ _ _ _ _ _ this]
  obtain s' f' mem r where "file_read_at ram_io (device_small, fs_small) (file_small [2] 100) 508 [replicate 8 1] =
      Some (Returns ((((s', fs_small), f'), mem), r))"
    "case r of Inr n \<Rightarrow> unat n = length (replicate 8 (1 :: u8)) \<and>
       mem = slice_at (cluster_pos (fs_bpb fs_small) ([2] ! 0) + unat (508 :: usize) mod cluster_bytes (fs_bpb fs_small))
         (length (replicate 8 (1 :: u8))) (disk_bytes device_small) | Inl e \<Rightarrow> e = EINTR"
    by (auto simp: file_small_def b bpb_small_geometry)
  then show ?thesis by (cases r) auto
qed

end
