(* ===== verification/Phys.thy ===== *)
theory Phys
  imports Frame Umio "HOL-Library.AList"
begin

text \<open>
  Physical memory objects (\<^verbatim>\<open>lib/kmem/src/phys.rs\<close>): pages that are allocated on demand, read from a
  backend, or inherited from a parent object, with copy-on-write clones.

  The objects live in a store indexed by numbers, since clones share parents. A parent is kept
  alive by the objects that name it as their parent, so the strong count of its \<open>Arsc\<close> is the number
  of such objects. The bytes of page frames are kept by the physical address of the frame; the page
  allocator is the arena. The spin locks and critical sections make each access to a list one
  step. A backend is a device of \<open>dev\<close>, and the task that writes flushed pages to it runs when it is
  sent a message, which the sender waits for. Frames are reference counted, which the model does not
  follow: a frame that nothing uses any more is not given back to the arena.
\<close>

section \<open>State\<close>

datatype frame_state = Shared paddr usize | Unique paddr usize

record frame_info =
  fi_state :: "frame_state option"
  fi_dirty :: bool

datatype phys_parent = PPhys nat usize "usize option" | PBackend nat

record flusher =
  fl_backend :: nat
  fl_offset :: usize

record phys =
  ph_branch :: bool
  ph_parent :: "phys_parent option"
  ph_frames :: "(usize \<times> frame_info) list"
  ph_position :: usize
  ph_cow :: bool
  ph_flusher :: "flusher option"

datatype tlb_event = RemoteSfence usize laddr usize | SfenceVma laddr | SfenceAll

record 's kmem =
  km_arena :: arena
  km_mem :: mem
  km_bytes :: "paddr \<Rightarrow> u8 list"
  km_zero :: paddr
  km_phys :: "nat \<Rightarrow> phys"
  km_next :: nat
  km_io :: 's
  km_tlb :: "tlb_event list"

section \<open>Frames\<close>

definition frame_new :: "'s kmem \<Rightarrow> ('s kmem, paddr) fres" where
  "frame_new k =
    (case arena_allocate (km_arena k) (km_mem k) 1 of
       None \<Rightarrow> Returns (k, Inl ENOMEM)
     | Some (laddr, a, m) \<Rightarrow>
        let base = to_paddr laddr ID_OFFSET in
        Returns (k\<lparr>km_arena := a, km_mem := m, km_bytes := (km_bytes k)(base := replicate (unat PAGE_SIZE) 0)\<rparr>,
          Inr base))"

definition frame_copy :: "'s kmem \<Rightarrow> paddr \<Rightarrow> usize \<Rightarrow> ('s kmem, paddr) fres" where
  "frame_copy k frame len =
    io_bind (frame_new k) (\<lambda>k f.
      if PAGE_SIZE < len then Panics
      else Returns (k\<lparr>km_bytes := (km_bytes k)(f :=
        overwrite 0 (take (unat len) (km_bytes k frame)) (km_bytes k f))\<rparr>, Inr f))"

definition frame_drop :: "'s kmem \<Rightarrow> paddr \<Rightarrow> 's kmem" where
  "frame_drop k frame =
    (let (a, m) = arena_deallocate (km_arena k) (km_mem k) (to_laddr frame ID_OFFSET) 1 in
     k\<lparr>km_arena := a, km_mem := m\<rparr>)"

definition max_len :: "usize \<Rightarrow> usize option \<Rightarrow> usize" where
  "max_len len write = (case write of Some new_len \<Rightarrow> max len new_len | None \<Rightarrow> len)"

fun state_frame :: "frame_state \<Rightarrow> usize option \<Rightarrow> frame_state \<times> (paddr \<times> usize)" where
  "state_frame (Shared frame len) write = (let len = max_len len write in (Shared frame len, (frame, len)))"
| "state_frame (Unique frame len) write = (let len = max_len len write in (Unique frame len, (frame, len)))"

datatype commit = CShared paddr usize | CUnique frame_info

definition info_new :: "paddr \<Rightarrow> usize \<Rightarrow> frame_info" where
  "info_new frame len = \<lparr>fi_state = Some (Shared frame len), fi_dirty = False\<rparr>"

definition info_truncate :: "'s kmem \<Rightarrow> frame_info \<Rightarrow> usize \<Rightarrow> ('s kmem \<times> frame_info) outcome" where
  "info_truncate k fi new_len =
    (let cut = (\<lambda>frame len st.
         if new_len < len then
           if PAGE_SIZE < len then Panics
           else Returns (k\<lparr>km_bytes := (km_bytes k)(frame :=
             overwrite (unat new_len) (replicate (unat (len - new_len)) 0) (km_bytes k frame))\<rparr>, fi\<lparr>fi_state := Some st\<rparr>)
         else Returns (k, fi\<lparr>fi_state := Some st\<rparr>))
     in case fi_state fi of
       Some (Shared frame len) \<Rightarrow> cut frame len (Shared frame new_len)
     | Some (Unique frame len) \<Rightarrow> cut frame len (Unique frame new_len)
     | None \<Rightarrow> Returns (k, fi))"

text \<open>What a shared node gives to the object below it, and whether its own entry is now obsolete.\<close>

definition info_branch :: "'s kmem \<times> frame_info \<Rightarrow> usize option \<Rightarrow> bool \<Rightarrow> ('s kmem \<times> frame_info, commit \<times> bool) fres" where
  "info_branch kf write cow = (let (k, fi) = kf in
    case fi_state fi of
      Some (Shared frame len) \<Rightarrow>
        (case write of
           None \<Rightarrow> Returns ((k, fi\<lparr>fi_state := Some (Shared frame len)\<rparr>), Inr (CShared frame len, False))
         | Some new_len \<Rightarrow>
            if \<not> cow then
              let len = max len new_len in
              Returns ((k, fi\<lparr>fi_dirty := True, fi_state := Some (Shared frame len)\<rparr>), Inr (CShared frame len, False))
            else
              let new_len = max len new_len in
              (case frame_copy k frame new_len of
                 Panics \<Rightarrow> Panics
               | Returns (k, Inl e) \<Rightarrow> Returns ((k, fi\<lparr>fi_state := None\<rparr>), Inl e)
               | Returns (k, Inr new_frame) \<Rightarrow>
                  Returns ((k, fi\<lparr>fi_state := Some (Unique frame new_len)\<rparr>),
                    Inr (CUnique (info_new new_frame new_len), False))))
    | Some (Unique frame len) \<Rightarrow>
        Returns ((k, fi\<lparr>fi_state := None\<rparr>),
          Inr (CUnique \<lparr>fi_state = Some (Shared frame len), fi_dirty = fi_dirty fi\<rparr>, True))
    | None \<Rightarrow> Returns ((k, fi), Inl ENOENT))"

definition info_leaf :: "'s kmem \<times> frame_info \<Rightarrow> usize option \<Rightarrow> ('s kmem \<times> frame_info, paddr \<times> usize) fres" where
  "info_leaf kf write = (let (k, fi) = kf; fi = fi\<lparr>fi_dirty := fi_dirty fi \<or> write \<noteq> None\<rparr> in
    case fi_state fi of
      Some s \<Rightarrow>
        (let (frame, len) = (case s of Shared frame len \<Rightarrow> (frame, len) | Unique frame len \<Rightarrow> (frame, len));
           len = max_len len write in
         Returns ((k, fi\<lparr>fi_state := Some (Shared frame len)\<rparr>), Inr (frame, len)))
    | None \<Rightarrow>
        (case write of
           Some new_len \<Rightarrow>
            (case frame_new k of
               Panics \<Rightarrow> Panics
             | Returns (k, Inl e) \<Rightarrow> Returns ((k, fi), Inl e)
             | Returns (k, Inr frame) \<Rightarrow>
                Returns ((k, fi\<lparr>fi_state := Some (Shared frame new_len)\<rparr>), Inr (frame, new_len)))
         | None \<Rightarrow> Returns ((k, fi), Inr (km_zero k, 0))))"

text \<open>
  \<open>FrameInfo::get\<close> on an entry that is in the list (\<open>Entry\<close>, changed in place) or that would be new
  (\<open>NewFi\<close>, inserted unless it is handed down).
\<close>

definition set_frames :: "nat \<Rightarrow> (usize \<times> frame_info) list \<Rightarrow> 's kmem \<Rightarrow> 's kmem" where
  "set_frames i fs k = k\<lparr>km_phys := (km_phys k)(i := (km_phys k i)\<lparr>ph_frames := fs\<rparr>)\<rparr>"

definition info_get ::
  "'s kmem \<Rightarrow> nat \<Rightarrow> bool \<Rightarrow> usize \<Rightarrow> frame_info \<Rightarrow> usize option \<Rightarrow> bool \<Rightarrow> ('s kmem, commit) fres" where
  "info_get k i is_new index fi write cow = (let fs = ph_frames (km_phys k i) in
    if ph_branch (km_phys k i) then
      (case info_branch (k, fi) write cow of
         Panics \<Rightarrow> Panics
       | Returns ((k, fi), Inl e) \<Rightarrow>
          Returns (if is_new then k else set_frames i (AList.update index fi fs) k, Inl e)
       | Returns ((k, fi), Inr (ret, remove)) \<Rightarrow>
          Returns (if remove then (if is_new then k else set_frames i (AList.delete index fs) k)
            else set_frames i (AList.update index fi fs) k, Inr ret))
    else
      (case info_leaf (k, fi) write of
         Panics \<Rightarrow> Panics
       | Returns ((k, fi), Inl e) \<Rightarrow>
          Returns (if is_new then k else set_frames i (AList.update index fi fs) k, Inl e)
       | Returns ((k, fi), Inr (frame, len)) \<Rightarrow>
          Returns (set_frames i (AList.update index fi fs) k, Inr (CShared frame len))))"

definition try_insert_get ::
  "'s kmem \<Rightarrow> nat \<Rightarrow> usize \<Rightarrow> frame_info \<Rightarrow> usize option \<Rightarrow> bool \<Rightarrow> ('s kmem, commit) fres" where
  "try_insert_get k i index fi write cow =
    (case map_of (ph_frames (km_phys k i)) index of
       Some old \<Rightarrow> info_get k i False index old write cow
     | None \<Rightarrow> info_get k i True index fi write cow)"

section \<open>Objects\<close>

definition phys_add :: "'s kmem \<Rightarrow> phys \<Rightarrow> 's kmem \<times> nat" where
  "phys_add k p = (k\<lparr>km_phys := (km_phys k)(km_next k := p), km_next := km_next k + 1\<rparr>, km_next k)"

definition phys_with_backend :: "'s kmem \<Rightarrow> nat \<Rightarrow> usize \<Rightarrow> bool \<Rightarrow> 's kmem \<times> nat" where
  "phys_with_backend k backend initial_pos cow =
    phys_add k \<lparr>ph_branch = False, ph_parent = Some (PBackend backend), ph_frames = [], ph_position = initial_pos,
      ph_cow = cow, ph_flusher = (if cow then None else Some \<lparr>fl_backend = backend, fl_offset = 0\<rparr>)\<rparr>"

definition phys_new :: "'s kmem \<Rightarrow> bool \<Rightarrow> 's kmem \<times> nat" where
  "phys_new k cow =
    phys_add k \<lparr>ph_branch = False, ph_parent = None, ph_frames = [], ph_position = 0, ph_cow = cow, ph_flusher = None\<rparr>"

definition has_parent :: "'s kmem \<Rightarrow> nat \<Rightarrow> nat \<Rightarrow> bool" where
  "has_parent k p x = (case ph_parent (km_phys k x) of Some (PPhys q _ _) \<Rightarrow> q = p | _ \<Rightarrow> False)"

definition phys_refs :: "'s kmem \<Rightarrow> nat \<Rightarrow> nat" where
  "phys_refs k p = length (filter (has_parent k p) [0..<km_next k])"

text \<open>One round of \<open>merge_sole_parent\<close>: the frames of a parent that nothing else uses move down.\<close>

definition info_share :: "frame_info \<Rightarrow> frame_info" where
  "info_share fi = fi\<lparr>fi_state :=
    (case fi_state fi of
       None \<Rightarrow> None
     | Some (Shared frame len) \<Rightarrow> Some (Shared frame len)
     | Some (Unique frame len) \<Rightarrow> Some (Shared frame len))\<rparr>"

definition inherited :: "usize \<Rightarrow> usize option \<Rightarrow> (usize \<times> frame_info) list \<Rightarrow> (usize \<times> frame_info) list" where
  "inherited start fin fs =
    List.map_filter (\<lambda>(pi, fi).
      if start \<le> pi \<and> (case fin of None \<Rightarrow> True | Some e \<Rightarrow> pi < e) then Some (pi - start, info_share fi) else None) fs"

definition adopt_frames :: "(usize \<times> frame_info) list \<Rightarrow> (usize \<times> frame_info) list \<Rightarrow> (usize \<times> frame_info) list" where
  "adopt_frames new fs = fold (\<lambda>(i, fi) fs. if map_of fs i = None then AList.update i fi fs else fs) new fs"

definition parent_moved :: "usize \<Rightarrow> usize option \<Rightarrow> phys_parent \<Rightarrow> phys_parent" where
  "parent_moved start fin pp =
    (case pp of
       PPhys q pp_start _ \<Rightarrow> PPhys q (pp_start + start) (map_option (\<lambda>e. pp_start + e) fin)
     | PBackend b \<Rightarrow> PBackend b)"

definition merge_once :: "'s kmem \<Rightarrow> nat \<Rightarrow> 's kmem option" where
  "merge_once k i =
    (case ph_parent (km_phys k i) of
       Some (PPhys p start fin) \<Rightarrow>
        if phys_refs k p = 1 then
          let par = km_phys k p; this = km_phys k i in
          Some (k\<lparr>km_phys := (km_phys k)
            (p := par\<lparr>ph_frames := [], ph_parent := None\<rparr>,
             i := this\<lparr>ph_frames := adopt_frames (inherited start fin (ph_frames par)) (ph_frames this),
               ph_parent := map_option (parent_moved start fin) (ph_parent par)\<rparr>)\<rparr>)
        else None
     | _ \<Rightarrow> None)"

partial_function (option) merge_sole_parent ::
  "('s kmem \<Rightarrow> 'r option) \<Rightarrow> 's kmem \<Rightarrow> nat \<Rightarrow> ('s kmem \<times> 'r option) option" where
  "merge_sole_parent f k i =
    (case merge_once k i of
       None \<Rightarrow> Some (k, f k)
     | Some k \<Rightarrow> (case f k of Some r \<Rightarrow> Some (k, Some r) | None \<Rightarrow> merge_sole_parent f k i))"

definition phys_clone_as :: "'s kmem \<Rightarrow> nat \<Rightarrow> bool \<Rightarrow> usize \<Rightarrow> usize option \<Rightarrow> ('s kmem \<times> nat) option" where
  "phys_clone_as k i cow index_offset fixed_count =
    Option.bind (merge_sole_parent (\<lambda>_. Some ()) k i) (\<lambda>(k, _).
      let this = km_phys k i;
        (k, branch) = phys_add k \<lparr>ph_branch = True, ph_parent = ph_parent this, ph_frames = ph_frames this,
          ph_position = 0, ph_cow = ph_cow this \<or> cow, ph_flusher = None\<rparr>;
        k = k\<lparr>km_phys := (km_phys k)(i := this\<lparr>ph_frames := [], ph_parent := Some (PPhys branch 0 None)\<rparr>)\<rparr>
      in Some (phys_add k \<lparr>ph_branch = False,
        ph_parent = Some (PPhys branch index_offset (map_option (\<lambda>c. c + index_offset) fixed_count)),
        ph_frames = [], ph_position = 0, ph_cow = cow,
        ph_flusher = (case ph_flusher this of
            None \<Rightarrow> None
          | Some fl \<Rightarrow> if cow then None else Some (fl\<lparr>fl_offset := fl_offset fl + index_offset\<rparr>))\<rparr>))"

definition phys_clone :: "'s kmem \<Rightarrow> nat \<Rightarrow> ('s kmem \<times> nat) option" where
  "phys_clone k i = phys_clone_as k i False 0 None"

definition phys_is_cow :: "'s kmem \<Rightarrow> nat \<Rightarrow> bool" where
  "phys_is_cow k i = ph_cow (km_phys k i)"

section \<open>Commit\<close>

text \<open>Filling a fresh frame from the backend, up to the end of what it has.\<close>

partial_function (option) page_read_loop ::
  "'s io_ops \<Rightarrow> 's \<Rightarrow> usize \<Rightarrow> u8 list \<Rightarrow> usize \<Rightarrow> u8 list \<Rightarrow> ('s \<times> u8 list, usize) ores" where
  "page_read_loop d s offset buffer read_len filled =
    (if buffer = [] then succeed (s, filled) read_len
     else case io_read_at d s offset [buffer] of (s, bufs, r) \<Rightarrow>
       (case r of
          Inl e \<Rightarrow> failwith (s, filled @ hd bufs) e
        | Inr len \<Rightarrow>
           if len = 0 then succeed (s, filled @ hd bufs) read_len
           else if length (hd bufs) < unat len then Some Panics
           else page_read_loop d s (offset + len) (drop (unat len) (hd bufs)) (read_len + len)
             (filled @ take (unat len) (hd bufs))))"

definition read_backend :: "(nat \<Rightarrow> 's io_ops) \<Rightarrow> 's kmem \<Rightarrow> nat \<Rightarrow> usize \<Rightarrow> ('s kmem, frame_info) ores" where
  "read_backend dev k b index =
    obind (Some (frame_new k)) (\<lambda>k frame.
      obind (page_read_loop (dev b) (km_io k) (push_bit PAGE_SHIFT index) (km_bytes k frame) 0 [])
        (\<lambda>(s, bytes) len. succeed (k\<lparr>km_io := s, km_bytes := (km_bytes k)(frame := bytes)\<rparr>) (info_new frame len))
        (\<lambda>(s, bytes) e. failwith (frame_drop (k\<lparr>km_io := s, km_bytes := (km_bytes k)(frame := bytes)\<rparr>) frame) e))
      failwith"

definition own_entry :: "nat \<Rightarrow> usize \<Rightarrow> usize option \<Rightarrow> bool \<Rightarrow> 's kmem \<Rightarrow> ('s kmem, commit) fres option" where
  "own_entry i index write cow k =
    (case map_of (ph_frames (km_phys k i)) index of
       Some fi \<Rightarrow> Some (info_get k i False index fi write cow)
     | None \<Rightarrow> None)"

definition commit_fresh :: "'s kmem \<Rightarrow> nat \<Rightarrow> usize \<Rightarrow> usize option \<Rightarrow> bool \<Rightarrow> ('s kmem, commit) ores" where
  "commit_fresh k i index write cow =
    (case write of
       None \<Rightarrow> succeed k (CShared (km_zero k) 0)
     | Some new_len \<Rightarrow>
        obind (Some (frame_new k)) (\<lambda>k frame.
          Some (try_insert_get k i index (info_new frame new_len) write cow)) failwith)"

definition in_limit :: "usize \<Rightarrow> usize option \<Rightarrow> usize \<Rightarrow> bool" where
  "in_limit start fin index = (case fin of None \<Rightarrow> True | Some e \<Rightarrow> index < e - start)"

partial_function (option) commit_impl ::
  "(nat \<Rightarrow> 's io_ops) \<Rightarrow> 's kmem \<Rightarrow> nat \<Rightarrow> usize \<Rightarrow> usize option \<Rightarrow> bool \<Rightarrow> ('s kmem, commit) ores" where
  "commit_impl dev k i index write cow0 = (let cow = ph_cow (km_phys k i) \<or> cow0 in
    Option.bind (merge_sole_parent (own_entry i index write cow) k i) (\<lambda>(k, self_get).
      case self_get of
        Some commit \<Rightarrow> Some commit
      | None \<Rightarrow>
        (case ph_parent (km_phys k i) of
           Some (PPhys p start fin) \<Rightarrow>
            if in_limit start fin index then
              obind (commit_impl dev k p (start + index) write cow)
                (\<lambda>k c. case c of
                    CShared frame len \<Rightarrow> succeed k (CShared frame len)
                  | CUnique fi \<Rightarrow> Some (try_insert_get k i index fi write cow))
                failwith
            else commit_fresh k i index write cow
         | Some (PBackend b) \<Rightarrow>
            obind (read_backend dev k b index) (\<lambda>k fi. Some (try_insert_get k i index fi write cow)) failwith
         | None \<Rightarrow> commit_fresh k i index write cow)))"

definition phys_commit ::
  "(nat \<Rightarrow> 's io_ops) \<Rightarrow> 's kmem \<Rightarrow> nat \<Rightarrow> usize \<Rightarrow> usize option \<Rightarrow> ('s kmem, paddr \<times> usize) ores" where
  "phys_commit dev k i index writable =
    (if ph_branch (km_phys k i) then Some Panics
     else obind (commit_impl dev k i index writable (ph_cow (km_phys k i)))
       (\<lambda>k c. case c of CShared frame len \<Rightarrow> succeed k (frame, len) | CUnique fi \<Rightarrow> Some Panics) failwith)"

section \<open>Size and write-back\<close>

definition set_parent :: "nat \<Rightarrow> phys_parent option \<Rightarrow> 's kmem \<Rightarrow> 's kmem" where
  "set_parent i par k = k\<lparr>km_phys := (km_phys k)(i := (km_phys k i)\<lparr>ph_parent := par\<rparr>)\<rparr>"

definition limit_parent :: "usize \<Rightarrow> phys_parent option \<Rightarrow> phys_parent option" where
  "limit_parent count par =
    (case par of Some (PPhys p start _) \<Rightarrow> Some (PPhys p start (Some (start + count))) | _ \<Rightarrow> par)"

definition phys_resize :: "'s kmem \<Rightarrow> nat \<Rightarrow> usize \<Rightarrow> 's kmem outcome" where
  "phys_resize k i new_len = (let this = km_phys k i in
    if new_len = 0 then Returns (set_parent i (limit_parent 0 (ph_parent this)) (set_frames i [] k))
    else
      let index = drop_bit PAGE_SHIFT new_len;
        offset = new_len - push_bit PAGE_SHIFT index;
        (index, offset) = (if offset = 0 then (index - 1, PAGE_SIZE) else (index, offset));
        fs = filter (\<lambda>(j, _). j \<le> index) (ph_frames this)
      in bind_out
        (case map_of fs index of
           Some fi \<Rightarrow> bind_out (info_truncate k fi offset) (\<lambda>(k, fi). Returns (k, AList.update index fi fs))
         | None \<Rightarrow> Returns (k, fs))
        (\<lambda>(k, fs). Returns (set_parent i (limit_parent (index + 1) (ph_parent this)) (set_frames i fs k))))"

text \<open>The task behind a backend: what it does with one message.\<close>

definition flusher_write :: "(nat \<Rightarrow> 's io_ops) \<Rightarrow> nat \<Rightarrow> 's kmem \<Rightarrow> usize \<times> paddr \<times> usize \<Rightarrow> 's kmem outcome option" where
  "flusher_write dev b k data = (let (index, frame, len) = data in
    if length (km_bytes k frame) < unat len then Some Panics
    else map_option (map_outcome (\<lambda>(s, _). k\<lparr>km_io := s\<rparr>))
      (write_all_at (dev b) (km_io k) (push_bit PAGE_SHIFT index) (take (unat len) (km_bytes k frame))))"

fun flusher_writes :: "(nat \<Rightarrow> 's io_ops) \<Rightarrow> nat \<Rightarrow> 's kmem \<Rightarrow> (usize \<times> paddr \<times> usize) list \<Rightarrow> 's kmem outcome option" where
  "flusher_writes dev b k [] = Some (Returns (k\<lparr>km_io := fst (io_flush (dev b) (km_io k))\<rparr>))"
| "flusher_writes dev b k (data # rest) =
    Option.bind (flusher_write dev b k data) (\<lambda>r.
      case r of Panics \<Rightarrow> Some Panics | Returns k \<Rightarrow> flusher_writes dev b k rest)"

definition take_dirty :: "frame_info \<Rightarrow> bool option \<Rightarrow> frame_info \<times> (paddr \<times> usize) option" where
  "take_dirty fi force_dirty =
    (fi\<lparr>fi_dirty := False\<rparr>,
     if (case force_dirty of Some d \<Rightarrow> d | None \<Rightarrow> fi_dirty fi)
     then map_option (\<lambda>s. snd (state_frame s None)) (fi_state fi) else None)"

partial_function (option) flush_loop ::
  "(nat \<Rightarrow> 's io_ops) \<Rightarrow> 's kmem \<Rightarrow> nat \<Rightarrow> usize \<Rightarrow> bool option \<Rightarrow> flusher \<Rightarrow> ('s kmem, unit) ores" where
  "flush_loop dev k this index force_dirty fl = (let fs = ph_frames (km_phys k this);
      (k, data) = (case map_of fs index of
          None \<Rightarrow> (k, None)
        | Some fi \<Rightarrow> let (fi, data) = take_dirty fi force_dirty in (set_frames this (AList.update index fi fs) k, data))
    in case data of
        Some (frame, len) \<Rightarrow>
          Option.bind (flusher_writes dev (fl_backend fl) k [(index + fl_offset fl, frame, len)]) (\<lambda>r.
            Some (map_outcome (\<lambda>k. (k, Inr ())) r))
      | None \<Rightarrow>
        (case ph_parent (km_phys k this) of
           Some (PPhys p start fin) \<Rightarrow>
            if phys_refs k p + 1 > 1 then succeed k ()
            else if unat start + unat index < 2 ^ 64 \<and> start + index \<le> (case fin of Some e \<Rightarrow> e | None \<Rightarrow> - 1)
            then flush_loop dev k p (start + index) force_dirty (fl\<lparr>fl_offset := fl_offset fl - start\<rparr>)
            else succeed k ()
         | _ \<Rightarrow> succeed k ()))"

definition phys_flush :: "(nat \<Rightarrow> 's io_ops) \<Rightarrow> 's kmem \<Rightarrow> nat \<Rightarrow> usize \<Rightarrow> bool option \<Rightarrow> ('s kmem, unit) ores" where
  "phys_flush dev k i index force_dirty =
    (case ph_flusher (km_phys k i) of
       None \<Rightarrow> succeed k ()
     | Some fl \<Rightarrow>
        Option.bind (merge_sole_parent (\<lambda>_. Some ()) k i) (\<lambda>(k, _). flush_loop dev k i index force_dirty fl))"

text \<open>The dirty frames of one list inside a window of indices, in the order of the list.\<close>

definition in_window :: "usize \<Rightarrow> usize option \<Rightarrow> usize \<Rightarrow> bool" where
  "in_window start_index end_index index \<longleftrightarrow>
    start_index \<le> index \<and> (case end_index of None \<Rightarrow> True | Some e \<Rightarrow> index < e)"

definition collect_dirty ::
  "usize \<Rightarrow> usize option \<Rightarrow> usize \<Rightarrow> (usize \<times> frame_info) list \<Rightarrow> (usize \<times> frame_info) list \<times> (usize \<times> paddr \<times> usize) list" where
  "collect_dirty start_index end_index offset fs =
    (map (\<lambda>(index, fi). (index, if in_window start_index end_index index then fst (take_dirty fi None) else fi)) fs,
     List.map_filter (\<lambda>(index, fi).
       if in_window start_index end_index index
       then map_option (\<lambda>(frame, len). (index + offset, frame, len)) (snd (take_dirty fi None)) else None) fs)"

definition next_end :: "usize option \<Rightarrow> usize \<Rightarrow> usize option \<Rightarrow> usize option" where
  "next_end end_index start fin =
    (case (end_index, fin) of
       (None, fin) \<Rightarrow> fin
     | (Some e, None) \<Rightarrow> Some (e + start)
     | (Some e, Some e') \<Rightarrow> Some (min (e + start) e'))"

partial_function (option) flush_all_loop ::
  "(nat \<Rightarrow> 's io_ops) \<Rightarrow> 's kmem \<Rightarrow> nat \<Rightarrow> usize \<Rightarrow> usize option \<Rightarrow> flusher \<Rightarrow> ('s kmem, unit) ores" where
  "flush_all_loop dev k this start_index end_index fl =
    (let (fs, data) = collect_dirty start_index end_index (fl_offset fl) (ph_frames (km_phys k this));
       k = set_frames this fs k in
     Option.bind (if data = [] then Some (Returns k) else flusher_writes dev (fl_backend fl) k data) (\<lambda>r.
       case r of
         Panics \<Rightarrow> Some Panics
       | Returns k \<Rightarrow>
          (case ph_parent (km_phys k this) of
             Some (PPhys p start fin) \<Rightarrow>
              flush_all_loop dev k p (start_index + start) (next_end end_index start fin)
                (fl\<lparr>fl_offset := fl_offset fl - start\<rparr>)
           | _ \<Rightarrow> succeed k ())))"

definition phys_flush_all :: "(nat \<Rightarrow> 's io_ops) \<Rightarrow> 's kmem \<Rightarrow> nat \<Rightarrow> ('s kmem, unit) ores" where
  "phys_flush_all dev k i =
    (case ph_flusher (km_phys k i) of None \<Rightarrow> succeed k () | Some fl \<Rightarrow> flush_all_loop dev k i 0 None fl)"

section \<open>Dropping an object\<close>

text \<open>
  The dirty frames of the object and of the ancestors that only it uses go to the backend, while the
  sender is open; then the object lets go of its parent, and of every ancestor that loses its last
  user with it.
\<close>

partial_function (option) drop_loop ::
  "(nat \<Rightarrow> 's io_ops) \<Rightarrow> 's kmem \<Rightarrow> nat \<Rightarrow> usize \<Rightarrow> usize option \<Rightarrow> flusher \<Rightarrow> 's kmem outcome option" where
  "drop_loop dev k this start_index end_index fl =
    (let (fs, data) = collect_dirty start_index end_index (fl_offset fl) (ph_frames (km_phys k this));
       par = ph_parent (km_phys k this);
       k = set_parent this None (set_frames this fs k) in
     Option.bind (if data = [] then Some (Returns k) else flusher_writes dev (fl_backend fl) k data) (\<lambda>r.
       case r of
         Panics \<Rightarrow> Some Panics
       | Returns k \<Rightarrow>
          (case par of
             Some (PPhys p start fin) \<Rightarrow>
              if phys_refs k p = 0 then
                drop_loop dev k p (start_index + start) (next_end end_index start fin)
                  (fl\<lparr>fl_offset := fl_offset fl - start\<rparr>)
              else Some (Returns k)
           | _ \<Rightarrow> Some (Returns k))))"

partial_function (option) drop_refs :: "'s kmem \<Rightarrow> nat \<Rightarrow> 's kmem option" where
  "drop_refs k i =
    (let par = ph_parent (km_phys k i);
       k = set_parent i None (set_frames i [] k) in
     case par of
       Some (PPhys p _ _) \<Rightarrow> if phys_refs k p = 0 then drop_refs k p else Some k
     | _ \<Rightarrow> Some k)"

definition phys_drop :: "(nat \<Rightarrow> 's io_ops) \<Rightarrow> 's kmem \<Rightarrow> nat \<Rightarrow> 's kmem outcome option" where
  "phys_drop dev k i =
    (case ph_flusher (km_phys k i) of
       None \<Rightarrow> map_option Returns (drop_refs k i)
     | Some fl \<Rightarrow>
        Option.bind (drop_loop dev k i 0 None fl) (\<lambda>r.
          case r of Panics \<Rightarrow> Some Panics | Returns k \<Rightarrow> map_option Returns (drop_refs k i)))"

section \<open>The object as a stream\<close>

definition fits_isize :: "usize \<Rightarrow> bool" where
  "fits_isize w \<longleftrightarrow> unat w < 2 ^ 63"

definition seek_move :: "usize \<Rightarrow> usize \<Rightarrow> error + usize" where
  "seek_move base pos =
    (if \<not> fits_isize base then Inl (error_of_try_from_int ())
     else let r = sint pos + int (unat base) in
       if 2 ^ 63 \<le> r then Inl EINVAL
       else if r < 0 then Inl (error_of_try_from_int ()) else Inr (word_of_int r))"

text \<open>
  \<open>Parent::stream_len\<close> and the default method of the trait, which seeks to the end and back. The
  position is the same afterwards; it only has to fit.
\<close>

partial_function (option) phys_stream_len :: "(nat \<Rightarrow> 's io_ops) \<Rightarrow> 's kmem \<Rightarrow> nat \<Rightarrow> ('s kmem, usize) ores" where
  "phys_stream_len dev k i =
    (if \<not> fits_isize (ph_position (km_phys k i)) then failwith k (error_of_try_from_int ())
     else obind
       (case ph_parent (km_phys k i) of
          None \<Rightarrow> succeed k 0
        | Some (PPhys p start _) \<Rightarrow>
           obind (phys_stream_len dev k p) (\<lambda>k len. succeed k (if len < start then 0 else len - start)) failwith
        | Some (PBackend b) \<Rightarrow>
           (case stream_len (dev b) (km_io k) of (s, r) \<Rightarrow> Some (Returns (k\<lparr>km_io := s\<rparr>, r))))
       (\<lambda>k parent_len. let len = max (ph_position (km_phys k i)) parent_len in
          if fits_isize len then succeed k len else failwith k (error_of_try_from_int ()))
       failwith)"

definition parent_len :: "(nat \<Rightarrow> 's io_ops) \<Rightarrow> 's kmem \<Rightarrow> phys_parent option \<Rightarrow> ('s kmem, usize) ores" where
  "parent_len dev k par =
    (case par of
       None \<Rightarrow> succeed k 0
     | Some (PPhys p start _) \<Rightarrow>
        obind (phys_stream_len dev k p) (\<lambda>k len. succeed k (if len < start then 0 else len - start)) failwith
     | Some (PBackend b) \<Rightarrow>
        (case stream_len (dev b) (km_io k) of (s, r) \<Rightarrow> Some (Returns (k\<lparr>km_io := s\<rparr>, r))))"

definition phys_seek :: "(nat \<Rightarrow> 's io_ops) \<Rightarrow> 's kmem \<Rightarrow> nat \<Rightarrow> seek_from \<Rightarrow> ('s kmem, usize) ores" where
  "phys_seek dev k i whence =
    obind
      (case whence of
         SeekStart pos \<Rightarrow> succeed k pos
       | SeekEnd pos \<Rightarrow>
          obind (parent_len dev k (ph_parent (km_phys k i))) (\<lambda>k len.
            Some (Returns (k, seek_move (max (ph_position (km_phys k i)) len) pos))) failwith
       | SeekCurrent pos \<Rightarrow> Some (Returns (k, seek_move (ph_position (km_phys k i)) pos)))
      (\<lambda>k pos. succeed (k\<lparr>km_phys := (km_phys k)(i := (km_phys k i)\<lparr>ph_position := pos\<rparr>)\<rparr>) pos)
      failwith"

definition offsets :: "usize \<Rightarrow> usize \<Rightarrow> (usize \<times> usize) \<times> (usize \<times> usize)" where
  "offsets start fin =
    (let start_page = drop_bit PAGE_SHIFT start;
       start_offset = start - push_bit PAGE_SHIFT start_page;
       end_page = drop_bit PAGE_SHIFT fin;
       end_offset = fin - push_bit PAGE_SHIFT end_page
     in ((start_page, start_offset), if end_offset = 0 then (end_page - 1, PAGE_SIZE) else (end_page, end_offset)))"

text \<open>Copying between a frame and the buffers; the difference of the bounds wraps around.\<close>

partial_function (option) copy_from_frame ::
  "u8 list \<Rightarrow> usize \<Rightarrow> usize \<Rightarrow> u8 list list \<Rightarrow> usize \<Rightarrow> u8 list \<Rightarrow> (u8 list \<times> u8 list list \<times> usize) outcome option" where
  "copy_from_frame frame start fin bufs read_len filled =
    (if bufs = [] \<or> fin = start then Some (Returns (filled, bufs, read_len))
     else if hd bufs = [] then copy_from_frame frame start fin (tl bufs) read_len filled
     else let len = min (length (hd bufs)) (unat (fin - start)) in
       if length frame < unat start + len then Some Panics
       else case advance_slices bufs len of
           Panics \<Rightarrow> Some Panics
         | Returns rest \<Rightarrow>
            copy_from_frame frame (start + of_nat len) fin rest (read_len + of_nat len)
              (filled @ take len (drop (unat start) frame)))"

partial_function (option) copy_to_frame ::
  "u8 list list \<Rightarrow> u8 list \<Rightarrow> usize \<Rightarrow> usize \<Rightarrow> usize \<Rightarrow> (u8 list \<times> u8 list list \<times> usize) outcome option" where
  "copy_to_frame bufs frame start fin written_len =
    (if bufs = [] \<or> fin = start then Some (Returns (frame, bufs, written_len))
     else if hd bufs = [] then copy_to_frame (tl bufs) frame start fin written_len
     else let len = min (length (hd bufs)) (unat (fin - start)) in
       if length frame < unat start + len then Some Panics
       else case advance_slices bufs len of
           Panics \<Rightarrow> Some Panics
         | Returns rest \<Rightarrow>
            copy_to_frame rest (overwrite (unat start) (take len (hd bufs)) frame) (start + of_nat len) fin
              (written_len + of_nat len))"

text \<open>
  Reading and writing go page by page. The progress of a call is the bytes stored so far, the buffers
  that are left and the number of bytes. A read stops at a page that is not full.
\<close>

definition read_page ::
  "(nat \<Rightarrow> 's io_ops) \<Rightarrow> nat \<Rightarrow> usize \<Rightarrow> usize \<Rightarrow> usize option \<Rightarrow> 's kmem \<times> u8 list \<times> u8 list list \<Rightarrow> usize
    \<Rightarrow> ('s kmem \<times> u8 list \<times> u8 list list, usize \<times> usize) ores" where
  "read_page dev i index start limit st n = (let (k, filled, bufs) = st in
    obind (phys_commit dev k i index None)
      (\<lambda>k (frame, fin).
        Option.bind (copy_from_frame (km_bytes k frame) start (case limit of None \<Rightarrow> fin | Some e \<Rightarrow> min e fin) bufs n filled)
          (\<lambda>r. case r of
             Panics \<Rightarrow> Some Panics
           | Returns (filled, bufs, n) \<Rightarrow> succeed (k, filled, bufs) (fin, n)))
      (\<lambda>k. failwith (k, filled, bufs)))"

fun read_pages ::
  "(nat \<Rightarrow> 's io_ops) \<Rightarrow> nat \<Rightarrow> (usize \<times> usize) list \<Rightarrow> usize \<times> usize \<Rightarrow> 's kmem \<times> u8 list \<times> u8 list list \<Rightarrow> usize
    \<Rightarrow> ('s kmem \<times> u8 list \<times> u8 list list, usize) ores" where
  "read_pages dev i [] (end_page, end_offset) st n =
    obind (read_page dev i end_page 0 (Some end_offset) st n) (\<lambda>st (_, n). succeed st n) failwith"
| "read_pages dev i ((index, start) # rest) final st n =
    obind (read_page dev i index start None st n)
      (\<lambda>st (fin, n). if fin < PAGE_SIZE \<or> snd (snd st) = [] then succeed st n else read_pages dev i rest final st n)
      failwith"

definition page_range :: "usize \<Rightarrow> usize \<Rightarrow> usize list" where
  "page_range a b = map of_nat [unat a..<unat b]"

definition phys_read_at ::
  "(nat \<Rightarrow> 's io_ops) \<Rightarrow> 's kmem \<Rightarrow> nat \<Rightarrow> usize \<Rightarrow> u8 list list \<Rightarrow> ('s kmem \<times> u8 list, usize) ores" where
  "phys_read_at dev k i offset bufs =
    (if 2 ^ 64 \<le> unat offset + ioslice_len bufs then failwith (k, concat bufs) EINVAL
     else if ioslice_len bufs = 0 then succeed (k, concat bufs) 0
     else let ((start_page, start_offset), (end_page, end_offset)) = offsets offset (offset + of_nat (ioslice_len bufs)) in
       obind
         (if start_page = end_page then
            obind (read_page dev i start_page start_offset (Some end_offset) (k, [], bufs) 0)
              (\<lambda>st (_, n). succeed st n) failwith
          else read_pages dev i ((start_page, start_offset) # map (\<lambda>index. (index, 0)) (page_range (start_page + 1) end_page))
            (end_page, end_offset) (k, [], bufs) 0)
         (\<lambda>(k, filled, bufs) n. succeed (k, filled @ concat bufs) n)
         (\<lambda>(k, filled, bufs). failwith (k, filled @ concat bufs)))"

definition write_page ::
  "(nat \<Rightarrow> 's io_ops) \<Rightarrow> nat \<Rightarrow> usize \<Rightarrow> usize \<Rightarrow> usize \<Rightarrow> 's kmem \<times> u8 list list \<Rightarrow> usize
    \<Rightarrow> ('s kmem \<times> u8 list list, usize) ores" where
  "write_page dev i index start fin st n = (let (k, bufs) = st in
    obind (phys_commit dev k i index (Some fin))
      (\<lambda>k (frame, _).
        Option.bind (copy_to_frame bufs (km_bytes k frame) start fin n)
          (\<lambda>r. case r of
             Panics \<Rightarrow> Some Panics
           | Returns (bytes, bufs, n) \<Rightarrow> succeed (k\<lparr>km_bytes := (km_bytes k)(frame := bytes)\<rparr>, bufs) n))
      (\<lambda>k. failwith (k, bufs)))"

fun write_pages ::
  "(nat \<Rightarrow> 's io_ops) \<Rightarrow> nat \<Rightarrow> (usize \<times> usize) list \<Rightarrow> usize \<times> usize \<Rightarrow> 's kmem \<times> u8 list list \<Rightarrow> usize
    \<Rightarrow> ('s kmem \<times> u8 list list, usize) ores" where
  "write_pages dev i [] (end_page, end_offset) st n = write_page dev i end_page 0 end_offset st n"
| "write_pages dev i ((index, start) # rest) final st n =
    obind (write_page dev i index start PAGE_SIZE st n)
      (\<lambda>st n. if snd st = [] then succeed st n else write_pages dev i rest final st n)
      failwith"

definition phys_write_at ::
  "(nat \<Rightarrow> 's io_ops) \<Rightarrow> 's kmem \<Rightarrow> nat \<Rightarrow> usize \<Rightarrow> u8 list list \<Rightarrow> ('s kmem, usize) ores" where
  "phys_write_at dev k i offset bufs =
    (if 2 ^ 64 \<le> unat offset + ioslice_len bufs then failwith k EINVAL
     else if ioslice_len bufs = 0 then succeed k 0
     else let ((start_page, start_offset), (end_page, end_offset)) = offsets offset (offset + of_nat (ioslice_len bufs)) in
       obind
         (if start_page = end_page then write_page dev i start_page start_offset end_offset (k, bufs) 0
          else write_pages dev i ((start_page, start_offset) # map (\<lambda>index. (index, 0)) (page_range (start_page + 1) end_page))
            (end_page, end_offset) (k, bufs) 0)
         (\<lambda>(k, _) n. succeed k n)
         (\<lambda>(k, _). failwith k))"

end
