(* ===== verification/Phys_Tree.thy ===== *)
theory Phys_Tree
  imports Phys
begin

text \<open>
  The tree that copy-on-write clones form, seen through three functions: the parent of an object,
  whether it is a branch, and the frame it holds for a page. What an object shows at a page is what the
  nearest object on the way to the root holds. This theory states when such a tree is sound and
  which changes keep it sound without changing what the leaves show.
\<close>

section \<open>What an object shows\<close>

type_synonym parents = "nat \<Rightarrow> phys_parent option"
type_synonym entries = "nat \<Rightarrow> usize \<Rightarrow> frame_state option"

fun st_frame :: "frame_state \<Rightarrow> paddr" where
  "st_frame (Shared f len) = f" | "st_frame (Unique f len) = f"

fun st_len :: "frame_state \<Rightarrow> usize" where
  "st_len (Shared f len) = len" | "st_len (Unique f len) = len"

definition zero_page_bytes :: "u8 list" where "zero_page_bytes = replicate 4096 0"

inductive sees :: "parents \<Rightarrow> entries \<Rightarrow> (paddr \<Rightarrow> u8 list) \<Rightarrow> (nat \<Rightarrow> usize \<Rightarrow> u8 list) \<Rightarrow> nat \<Rightarrow> usize \<Rightarrow> u8 list \<Rightarrow> bool"
  for par ent bytes disk where
  own: "ent x i = Some s \<Longrightarrow> sees par ent bytes disk x i (bytes (st_frame s))"
| none: "ent x i = None \<Longrightarrow> par x = None \<Longrightarrow> sees par ent bytes disk x i zero_page_bytes"
| outside: "ent x i = None \<Longrightarrow> par x = Some (PPhys p start fin) \<Longrightarrow> \<not> in_limit start fin i \<Longrightarrow>
    sees par ent bytes disk x i zero_page_bytes"
| backend: "ent x i = None \<Longrightarrow> par x = Some (PBackend b) \<Longrightarrow> sees par ent bytes disk x i (disk b i)"
| up: "ent x i = None \<Longrightarrow> par x = Some (PPhys p start fin) \<Longrightarrow> in_limit start fin i \<Longrightarrow>
    sees par ent bytes disk p (start + i) bs \<Longrightarrow> sees par ent bytes disk x i bs"

inductive_cases seesE: "sees par ent bytes disk x i bs"

lemma sees_fun: "sees par ent bytes disk x i bs \<Longrightarrow> sees par ent bytes disk x i bs' \<Longrightarrow> bs' = bs"
proof (induction arbitrary: bs' rule: sees.induct)
  case (up x i p start fin bs)
  from up.prems up.hyps show ?case by (cases rule: sees.cases) (auto intro: up.IH)
qed (erule seesE; auto)+

inductive depth :: "parents \<Rightarrow> nat \<Rightarrow> nat \<Rightarrow> bool" for par where
  root: "\<nexists>p start fin. par x = Some (PPhys p start fin) \<Longrightarrow> depth par x 0"
| up: "par x = Some (PPhys p start fin) \<Longrightarrow> depth par p n \<Longrightarrow> depth par x (Suc n)"

inductive_simps depth_0: "depth par x 0"
inductive_simps depth_Suc: "depth par x (Suc n)"

lemma depth_parent: "depth par x n \<Longrightarrow> par x = Some (PPhys p start fin) \<Longrightarrow> \<exists>m. n = Suc m \<and> depth par p m"
  by (cases rule: depth.cases) auto

lemma depth_fun: "depth par x n \<Longrightarrow> depth par x m \<Longrightarrow> m = n"
proof (induction arbitrary: m rule: depth.induct)
  case (root x)
  then show ?case by (cases m) (auto simp: depth_Suc)
next
  case (up x p start fin n)
  from depth_parent [OF up.prems up.hyps(1)] obtain m' where "m = Suc m'" "depth par p m'" by blast
  then show ?case using up.IH by blast
qed

lemma sees_total: "depth par x n \<Longrightarrow> \<exists>bs. sees par ent bytes disk x i bs"
proof (induction arbitrary: i rule: depth.induct)
  case (root x)
  show ?case
  proof (cases "ent x i")
    case None
    show ?thesis
    proof (cases "par x")
      case p: (Some p)
      then show ?thesis using root None by (cases p) (auto intro: sees.backend)
    qed (use None in \<open>auto intro: sees.none\<close>)
  qed (auto intro: sees.own)
next
  case (up x p start fin n)
  then show ?case
    by (cases "ent x i"; cases "in_limit start fin i") (auto intro: sees.own sees.outside, metis sees.up)
qed

text \<open>Since both sides are functions, keeping what is seen in one direction is enough.\<close>

lemma sees_back:
  assumes "\<And>bs. sees par ent bytes disk x i bs \<Longrightarrow> sees par' ent' bytes' disk' y j bs" and "depth par x n"
    and "sees par' ent' bytes' disk' y j bs"
  shows "sees par ent bytes disk x i bs"
proof -
  obtain bs' where "sees par ent bytes disk x i bs'" using sees_total [OF assms(2)] by blast
  with assms(1) sees_fun assms(3) show ?thesis by metis
qed

section \<open>Sound trees\<close>

definition kids :: "parents \<Rightarrow> nat \<Rightarrow> nat set" where
  "kids par p = {x. \<exists>start fin. par x = Some (PPhys p start fin)}"

text \<open>A page of an object is needed when a leaf shows it, either the object or one below it.\<close>

inductive needs :: "parents \<Rightarrow> (nat \<Rightarrow> bool) \<Rightarrow> entries \<Rightarrow> usize \<Rightarrow> nat \<Rightarrow> bool" for par br ent i where
  leaf: "\<not> br x \<Longrightarrow> needs par br ent i x"
| kid: "y \<in> kids par x \<Longrightarrow> ent y i = None \<Longrightarrow> needs par br ent i y \<Longrightarrow> needs par br ent i x"

definition consults :: "parents \<Rightarrow> (nat \<Rightarrow> bool) \<Rightarrow> entries \<Rightarrow> nat \<Rightarrow> nat \<Rightarrow> usize \<Rightarrow> bool" where
  "consults par br ent x p i \<longleftrightarrow> x \<in> kids par p \<and> ent x i = None \<and> needs par br ent i x"

lemma consults_needs: "consults par br ent x p i \<Longrightarrow> needs par br ent i p"
  by (auto simp: consults_def intro: needs.kid)

definition unowned :: "entries \<Rightarrow> paddr \<Rightarrow> bool" where
  "unowned ent f \<longleftrightarrow> (\<forall>x i s. ent x i = Some s \<longrightarrow> st_frame s \<noteq> f)"

text \<open>
  Parents are whole branches with at most two children; nothing is its own ancestor; a frame is held
  in one place; a leaf holds its frames for itself, and a frame that a branch keeps as unique is
  looked up by one child at most on behalf of a leaf.
\<close>

definition tree_ok :: "parents \<Rightarrow> (nat \<Rightarrow> bool) \<Rightarrow> entries \<Rightarrow> bool" where
  "tree_ok par br ent \<longleftrightarrow>
    (\<forall>x p start fin. par x = Some (PPhys p start fin) \<longrightarrow> start = 0 \<and> fin = None \<and> br p) \<and>
    (\<forall>x. \<exists>n. depth par x n) \<and>
    (\<forall>p. finite (kids par p) \<and> card (kids par p) \<le> 2) \<and>
    (\<forall>x y i j s t. ent x i = Some s \<longrightarrow> ent y j = Some t \<longrightarrow> st_frame s = st_frame t \<longrightarrow> x = y \<and> i = j) \<and>
    (\<forall>p i f len. ent p i = Some (Unique f len) \<longrightarrow>
      br p \<and> (\<forall>x y. consults par br ent x p i \<longrightarrow> consults par br ent y p i \<longrightarrow> x = y))"

lemma tree_okD:
  assumes "tree_ok par br ent"
  shows tree_parent: "par x = Some (PPhys p start fin) \<Longrightarrow> start = 0 \<and> fin = None \<and> br p"
    and tree_depth: "\<exists>n. depth par x n"
    and tree_kids: "finite (kids par p)" "card (kids par p) \<le> 2"
    and tree_owner: "ent x i = Some s \<Longrightarrow> ent y j = Some t \<Longrightarrow> st_frame s = st_frame t \<Longrightarrow> x = y \<and> i = j"
    and tree_unique: "ent p i = Some (Unique f len) \<Longrightarrow> br p"
      "ent p i = Some (Unique f len) \<Longrightarrow> consults par br ent x p i \<Longrightarrow> consults par br ent y p i \<Longrightarrow> x = y"
  using assms unfolding tree_ok_def by blast+

lemma tree_okI:
  assumes "\<And>x p start fin. par x = Some (PPhys p start fin) \<Longrightarrow> start = 0 \<and> fin = None \<and> br p"
    and "\<And>x. \<exists>n. depth par x n" and "\<And>p. finite (kids par p) \<and> card (kids par p) \<le> 2"
    and "\<And>x y i j s t. ent x i = Some s \<Longrightarrow> ent y j = Some t \<Longrightarrow> st_frame s = st_frame t \<Longrightarrow> x = y \<and> i = j"
    and "\<And>p i f len. ent p i = Some (Unique f len) \<Longrightarrow> br p"
    and "\<And>p i f len x y. ent p i = Some (Unique f len) \<Longrightarrow> consults par br ent x p i \<Longrightarrow> consults par br ent y p i \<Longrightarrow> x = y"
  shows "tree_ok par br ent"
  unfolding tree_ok_def by (intro conjI allI impI) (use assms in \<open>(blast | metis)+\<close>)

lemma tree_ok_entries:
  assumes ok: "tree_ok par br ent"
    and owner: "\<And>x y i j s t. ent' x i = Some s \<Longrightarrow> ent' y j = Some t \<Longrightarrow> st_frame s = st_frame t \<Longrightarrow> x = y \<and> i = j"
    and uniq: "\<And>p i f len. ent' p i = Some (Unique f len) \<Longrightarrow>
      br p \<and> (\<forall>x y. consults par br ent' x p i \<longrightarrow> consults par br ent' y p i \<longrightarrow> x = y)"
  shows "tree_ok par br ent'"
proof (rule tree_okI)
  fix x y i j s t assume "ent' x i = Some s" "ent' y j = Some t" "st_frame s = st_frame t"
  then show "x = y \<and> i = j" by (rule owner)
next
  fix p i f len x y assume "ent' p i = Some (Unique f len)" "consults par br ent' x p i" "consults par br ent' y p i"
  then show "x = y" using uniq by blast
qed (use tree_parent [OF ok] tree_depth [OF ok] tree_kids [OF ok] uniq in blast)+

definition upd_ent :: "nat \<Rightarrow> usize \<Rightarrow> frame_state option \<Rightarrow> entries \<Rightarrow> entries" where
  "upd_ent x i s ent = ent(x := (ent x)(i := s))"

lemma upd_ent_apply: "upd_ent x i s ent y j = (if y = x \<and> j = i then s else ent y j)"
  by (simp add: upd_ent_def)

lemma upd_ent_same [simp]: "upd_ent x i s ent x i = s"
  by (simp add: upd_ent_def)

lemma upd_ent_other [simp]: "y \<noteq> x \<or> j \<noteq> i \<Longrightarrow> upd_ent x i s ent y j = ent y j"
  by (auto simp: upd_ent_def)

text \<open>A frame that nothing holds may be stored where an object shows the same bytes.\<close>

lemma tree_insert:
  assumes ok: "tree_ok par br ent" and none: "ent x i = None" and un: "unowned ent f"
  shows "tree_ok par br (upd_ent x i (Some (Shared f len)) ent)"
proof -
  let ?ent = "upd_ent x i (Some (Shared f len)) ent"
  have old: "ent p j = Some (Unique g l)" if "?ent p j = Some (Unique g l)" for p j g l
    using that by (auto simp: upd_ent_apply split: if_splits)
  have none: "ent y j = None" if "?ent y j = None" for y j
    using that by (auto simp: upd_ent_apply split: if_splits)
  have "needs par br ent j a" if "needs par br ?ent j a" for a j
    using that by (induction rule: needs.induct) (auto intro: needs.intros none)
  with none have cons: "consults par br ent a p j" if "consults par br ?ent a p j" for a p j
    using that by (auto simp: consults_def)
  show ?thesis
  proof (rule tree_ok_entries [OF ok])
    fix y z j m s t assume "?ent y j = Some s" "?ent z m = Some t" "st_frame s = st_frame t"
    then show "y = z \<and> j = m"
      using un tree_owner [OF ok, of y j s z m t] unfolding upd_ent_apply unowned_def
      by (metis option.inject st_frame.simps(1))
  next
    fix p j g l assume "?ent p j = Some (Unique g l)"
    from old [OF this] show "br p \<and> (\<forall>a b. consults par br ?ent a p j \<longrightarrow> consults par br ?ent b p j \<longrightarrow> a = b)"
      using tree_unique [OF ok] cons by blast
  qed
qed

lemma sees_insert:
  assumes "ent x i = None" and "sees par ent bytes disk x i (bytes (st_frame s))" and "sees par ent bytes disk y j bs"
  shows "sees par (upd_ent x i (Some s) ent) bytes disk y j bs"
proof -
  let ?ent = "upd_ent x i (Some s) ent"
  have here: "sees par ?ent bytes disk x i bs" if "sees par ent bytes disk x i bs" for bs
    using sees_fun [OF assms(2) that] sees.own [of ?ent x i s] by simp
  from assms(3) show ?thesis
  proof (induction rule: sees.induct)
    case (own y j s')
    then have "\<not> (y = x \<and> j = i)" using assms(1) by auto
    with own have "?ent y j = Some s'" by simp
    then show ?case by (rule sees.own)
  next
    case (none y j)
    then show ?case using here [OF sees.none] by (cases "y = x \<and> j = i") (auto intro: sees.none)
  next
    case (outside y j p start fin)
    then show ?case
      using here [OF sees.outside] by (cases "y = x \<and> j = i") (auto intro: sees.outside)
  next
    case (backend y j b)
    then show ?case
      using here [OF sees.backend] by (cases "y = x \<and> j = i") (auto intro: sees.backend)
  next
    case (up y j p start fin bs)
    then show ?case
      using here [OF sees.up] by (cases "y = x \<and> j = i") (auto intro: sees.up)
  qed
qed

text \<open>An entry may change between its two forms and its length without changing what is seen.\<close>

lemma tree_restate:
  assumes ok: "tree_ok par br ent" and s: "ent x i = Some s" "st_frame t = st_frame s"
    and uniq: "\<And>f len. t = Unique f len \<Longrightarrow> br x \<and> (\<forall>a b. consults par br ent a x i \<longrightarrow> consults par br ent b x i \<longrightarrow> a = b)"
  shows "tree_ok par br (upd_ent x i (Some t) ent)"
proof -
  let ?ent = "upd_ent x i (Some t) ent"
  have none: "?ent y j = None \<longleftrightarrow> ent y j = None" for y j using s(1) by (simp add: upd_ent_apply)
  have "needs par br ent j a" if "needs par br ?ent j a" for a j
    using that by (induction rule: needs.induct) (auto intro: needs.intros simp: none)
  moreover have "needs par br ?ent j a" if "needs par br ent j a" for a j
    using that by (induction rule: needs.induct) (auto intro: needs.intros simp: none)
  ultimately have cons: "consults par br ?ent a p j \<longleftrightarrow> consults par br ent a p j" for a p j
    unfolding consults_def none by blast
  have frame: "\<exists>s'. ent y j = Some s' \<and> st_frame s' = st_frame t'" if "?ent y j = Some t'" for y j t'
    using that s by (cases "y = x \<and> j = i") auto
  have un: "br p \<and> (\<forall>a b. consults par br ?ent a p j \<longrightarrow> consults par br ?ent b p j \<longrightarrow> a = b)"
    if "?ent p j = Some (Unique f len)" for p j f len
  proof (cases "p = x \<and> j = i")
    case True
    then show ?thesis using that uniq [of f len] unfolding cons by auto
  next
    case False
    then show ?thesis using that tree_unique [OF ok, of p j f len] unfolding cons by auto
  qed
  show ?thesis
  proof (rule tree_ok_entries [OF ok])
    fix y z j m a b assume "?ent y j = Some a" "?ent z m = Some b" "st_frame a = st_frame b"
    then show "y = z \<and> j = m" using frame [of y j a] frame [of z m b] tree_owner [OF ok] by metis
  qed (rule un)
qed

lemma sees_restate:
  assumes "ent x i = Some s" and "st_frame t = st_frame s" and "sees par ent bytes disk y j bs"
  shows "sees par (upd_ent x i (Some t) ent) bytes disk y j bs"
  using assms(3)
proof (induction rule: sees.induct)
  case (own y j s')
  show ?case
  proof (cases "y = x \<and> j = i")
    case True
    then have "bytes (st_frame s') = bytes (st_frame t)" using own assms(1,2) by simp
    then show ?thesis using True sees.own [of "upd_ent x i (Some t) ent" x i t] by simp
  next
    case False
    then show ?thesis using own by (auto intro: sees.own)
  qed
next
  case (none y j)
  then have "upd_ent x i (Some t) ent y j = None" using assms(1) by (cases "y = x \<and> j = i") auto
  then show ?case using none(2) by (rule sees.none)
next
  case (outside y j p start fin)
  then have "upd_ent x i (Some t) ent y j = None" using assms(1) by (cases "y = x \<and> j = i") auto
  then show ?case using outside(2,3) by (rule sees.outside)
next
  case (backend y j b)
  then have "upd_ent x i (Some t) ent y j = None" using assms(1) by (cases "y = x \<and> j = i") auto
  then show ?case using backend(2) by (rule sees.backend)
next
  case (up y j p start fin bs)
  then have "upd_ent x i (Some t) ent y j = None" using assms(1) by (cases "y = x \<and> j = i") auto
  then show ?case using up(2,3) up.IH by (rule sees.up)
qed

text \<open>A unique frame may move from a branch to the child that looks it up.\<close>

lemma move_needs:
  assumes ok: "tree_ok par br ent" and s: "ent p i = Some (Unique f len)" and r: "consults par br ent r p i"
    and ent': "ent' = upd_ent r i (Some t) (upd_ent p i None ent)"
  shows "needs par br ent' i y \<Longrightarrow> needs par br ent i y \<and> y \<noteq> p"
proof (induction rule: needs.induct)
  case (leaf y)
  then show ?case using tree_unique(1) [OF ok s] by (auto intro: needs.leaf)
next
  case (kid z y)
  have "z \<noteq> r" using kid.hyps(2) unfolding ent' by auto
  with kid have z: "ent z i = None" unfolding ent' by simp
  have "y \<noteq> p"
  proof
    assume "y = p"
    then have "consults par br ent z p i" using kid.hyps(1) z kid.IH by (simp add: consults_def)
    with tree_unique(2) [OF ok s r] \<open>z \<noteq> r\<close> show False by blast
  qed
  then show ?case using kid.hyps(1) z kid.IH by (auto intro: needs.kid)
qed

lemma tree_move:
  assumes ok: "tree_ok par br ent" and s: "ent p i = Some (Unique f len)" and r: "consults par br ent r p i"
  shows "tree_ok par br (upd_ent r i (Some (Shared f len')) (upd_ent p i None ent))"
proof -
  define ent' where ent': "ent' = upd_ent r i (Some (Shared f len')) (upd_ent p i None ent)"
  have rp: "r \<noteq> p" using s r by (auto simp: consults_def)
  have apply': "ent' y j = (if y = r \<and> j = i then Some (Shared f len') else if y = p \<and> j = i then None else ent y j)" for y j
    by (simp add: ent' upd_ent_apply)
  have needs: "needs par br ent j y \<and> (j = i \<longrightarrow> y \<noteq> p)" if "needs par br ent' j y" for j y
  proof (cases "j = i")
    case True
    then show ?thesis using move_needs [OF ok s r ent'] that by blast
  next
    case False
    from that show ?thesis by (induction rule: needs.induct) (use False in \<open>auto intro: needs.intros simp: apply'\<close>)
  qed
  have cons: "consults par br ent a q j" if "consults par br ent' a q j" for a q j
    using that needs [of j a] by (auto simp: consults_def apply' split: if_splits)
  have "tree_ok par br ent'"
  proof (rule tree_ok_entries [OF ok])
    fix y z j m a b assume ab: "ent' y j = Some a" "ent' z m = Some b" "st_frame a = st_frame b"
    have frame: "\<exists>x n c. ent x n = Some c \<and> st_frame c = st_frame d \<and>
        (x = p \<and> n = i \<and> u = r \<and> v = i \<or> x = u \<and> n = v \<and> (u \<noteq> p \<or> v \<noteq> i))" if "ent' u v = Some d" for u v d
    proof (cases "u = r \<and> v = i")
      case True
      then have "st_frame (Unique f len) = st_frame d" using that by (auto simp: apply')
      then show ?thesis using True s by blast
    next
      case False
      then show ?thesis using that unfolding apply' by (auto split: if_splits)
    qed
    from frame [OF ab(1)] frame [OF ab(2)] ab(3) show "y = z \<and> j = m" using tree_owner [OF ok] by metis
  next
    fix q j g l assume "ent' q j = Some (Unique g l)"
    then have "ent q j = Some (Unique g l)" by (auto simp: apply' split: if_splits)
    from tree_unique [OF ok this] cons
    show "br q \<and> (\<forall>x y. consults par br ent' x q j \<longrightarrow> consults par br ent' y q j \<longrightarrow> x = y)" by blast
  qed
  then show ?thesis by (simp only: ent')
qed

lemma sees_move:
  assumes ok: "tree_ok par br ent" and s: "ent p i = Some (Unique f len)" and r: "consults par br ent r p i"
    and y: "sees par ent bytes disk y j bs" "needs par br ent j y" "ent y j = None \<or> (y, j) \<noteq> (p, i)"
  shows "sees par (upd_ent r i (Some (Shared f len')) (upd_ent p i None ent)) bytes disk y j bs"
proof -
  define ent' where ent': "ent' = upd_ent r i (Some (Shared f len')) (upd_ent p i None ent)"
  have apply': "ent' y j = (if y = r \<and> j = i then Some (Shared f len') else if y = p \<and> j = i then None else ent y j)" for y j
    by (simp add: ent' upd_ent_apply)
  have r': "r \<in> kids par p" "ent r i = None" using r by (simp_all add: consults_def)
  obtain start fin where pr: "par r = Some (PPhys p start fin)" using r'(1) by (auto simp: kids_def)
  have win: "start = 0" "fin = None" using tree_parent [OF ok pr] by auto
  have here: "sees par ent' bytes disk r i bs" if "sees par ent bytes disk r i bs" for bs
  proof -
    have "sees par ent bytes disk r i (bytes f)"
      using sees.up [of ent r i par p start fin bytes disk "bytes f"] r'(2) pr win sees.own [of ent p i, OF s]
      by (simp add: in_limit_def)
    from sees_fun [OF this that] show ?thesis using sees.own [of ent' r i "Shared f len'"] by (simp add: apply')
  qed
  from y have "sees par ent' bytes disk y j bs"
  proof (induction rule: sees.induct)
    case (own y j s')
    then have "\<not> (y = r \<and> j = i)" "\<not> (y = p \<and> j = i)" using r'(2) by auto
    then have "ent' y j = Some s'" using own(1) by (auto simp: apply')
    then show ?case by (rule sees.own)
  next
    case (none y j)
    then have "\<not> (y = r \<and> j = i)" using pr by auto
    then show ?case using none by (auto intro: sees.none simp: apply')
  next
    case (outside y j q start' fin')
    then show ?case using tree_parent [OF ok outside(2)] by (simp add: in_limit_def)
  next
    case (backend y j b)
    then have "\<not> (y = r \<and> j = i)" using pr by auto
    then show ?case using backend by (auto intro: sees.backend simp: apply')
  next
    case (up y j q start' fin' bs)
    show ?case
    proof (cases "y = r \<and> j = i")
      case True
      then show ?thesis using here sees.up [OF up.hyps] by blast
    next
      case False
      have q: "start' = 0" "fin' = None" using tree_parent [OF ok up.hyps(2)] by auto
      have yq: "y \<in> kids par q" using up.hyps(2) by (auto simp: kids_def)
      with up.prems(1) up.hyps(1) have cy: "consults par br ent y q j" by (simp add: consults_def)
      have "\<not> (q = p \<and> j = i)"
        using cy tree_unique(2) [OF ok s r] False by auto
      then have "sees par ent' bytes disk q j bs" using up.IH consults_needs [OF cy] q by simp
      moreover have "ent' y j = None" using up.hyps(1) False by (simp add: apply')
      ultimately show ?thesis using up.hyps(2) q by (auto intro: sees.up simp: in_limit_def)
    qed
  qed
  then show ?thesis by (simp only: ent')
qed

section \<open>Merging with a parent that has no other child\<close>

inductive above :: "parents \<Rightarrow> nat \<Rightarrow> nat \<Rightarrow> bool" for par where
  self: "above par x x"
| step: "par x = Some (PPhys p start fin) \<Longrightarrow> above par p y \<Longrightarrow> above par x y"

lemma above_depth: "above par x y \<Longrightarrow> depth par x n \<Longrightarrow> \<exists>m \<le> n. depth par y m"
proof (induction arbitrary: n rule: above.induct)
  case (self x)
  then show ?case by blast
next
  case (step x p start fin y)
  from depth_parent [OF step.prems step.hyps(1)] obtain n' where "n = Suc n'" "depth par p n'" by blast
  with step.IH [of n'] show ?case using le_SucI by blast
qed

lemma not_above_parent:
  assumes "tree_ok par br ent" and "par x = Some (PPhys p start fin)"
  shows "\<not> above par p x"
proof
  assume "above par p x"
  obtain n where n: "depth par p n" using tree_depth [OF assms(1)] by blast
  from above_depth [OF \<open>above par p x\<close> n] obtain m where m: "m \<le> n" "depth par x m" by blast
  from depth_fun [OF m(2) depth.up [OF assms(2) n]] m(1) show False by simp
qed

text \<open>What is below an object does not depend on the objects above it.\<close>

lemma above_up: "above par x z \<Longrightarrow> par z = Some (PPhys y start fin) \<Longrightarrow> above par x y"
  by (induction rule: above.induct) (auto intro: above.intros)

lemma needs_below:
  assumes "needs par br ent i y" and "\<not> above par x y"
    and "\<And>z. \<not> above par x z \<Longrightarrow> par' z = par z \<and> ent' z i = ent z i"
  shows "needs par' br ent' i y"
  using assms(1,2)
proof (induction rule: needs.induct)
  case (leaf y)
  then show ?case by (auto intro: needs.leaf)
next
  case (kid z y)
  then have "\<not> above par x z" using above_up by (force simp: kids_def)
  then show ?case using assms(3) [of z] kid needs.kid [of z par' y ent' i br] by (simp add: kids_def)
qed

lemma consults_below:
  assumes ok: "tree_ok par br ent" and r: "consults par br ent r x i"
    and same: "\<And>z. \<not> above par x z \<Longrightarrow> par' z = par z \<and> ent' z i = ent z i"
  shows "consults par' br ent' r x i"
proof -
  have "\<not> above par x r" using r not_above_parent [OF ok] by (auto simp: consults_def kids_def)
  then show ?thesis using same [of r] r needs_below [of par br ent i r x par' ent'] same by (simp add: consults_def kids_def)
qed

definition merged_par :: "nat \<Rightarrow> nat \<Rightarrow> parents \<Rightarrow> parents" where
  "merged_par p q par = par(q := None, p := map_option (parent_moved 0 None) (par q))"

definition merged_ent :: "nat \<Rightarrow> nat \<Rightarrow> entries \<Rightarrow> entries" where
  "merged_ent p q ent = ent(q := (\<lambda>_. None), p := (\<lambda>i. case ent p i of
      Some s \<Rightarrow> Some s | None \<Rightarrow> map_option (\<lambda>s. Shared (st_frame s) (st_len s)) (ent q i)))"

lemma parent_moved_0:
  assumes "tree_ok par br ent"
  shows "map_option (parent_moved 0 None) (par q) = par q"
proof (cases "par q")
  case (Some pp)
  then show ?thesis using tree_parent [OF assms, of q] by (cases pp) (auto simp: parent_moved_def)
qed simp

lemma merged_ent_apply:
  "p \<noteq> q \<Longrightarrow> merged_ent p q ent y j =
    (if y = q then None
     else if y = p \<and> ent p j = None then map_option (\<lambda>s. Shared (st_frame s) (st_len s)) (ent q j) else ent y j)"
  by (auto simp: merged_ent_def split: option.splits)

lemma merged_par_apply:
  assumes "tree_ok par br ent" and "p \<noteq> q"
  shows "merged_par p q par y = (if y = q then None else if y = p then par q else par y)"
  using assms(2) by (simp add: merged_par_def parent_moved_0 [OF assms(1)])

lemma merged_simps:
  assumes "tree_ok par br ent" and "p \<noteq> q"
  shows "merged_par p q par q = None" "merged_par p q par p = par q"
    "y \<noteq> p \<Longrightarrow> y \<noteq> q \<Longrightarrow> merged_par p q par y = par y"
    "merged_ent p q ent q = (\<lambda>_. None)" "y \<noteq> p \<Longrightarrow> y \<noteq> q \<Longrightarrow> merged_ent p q ent y = ent y"
    "ent p j = None \<Longrightarrow> merged_ent p q ent p j = map_option (\<lambda>s. Shared (st_frame s) (st_len s)) (ent q j)"
    "ent p j = Some s \<Longrightarrow> merged_ent p q ent p j = Some s"
  using assms(2) by (simp_all add: merged_par_def parent_moved_0 [OF assms(1)] merged_ent_def)

lemma merge_depth:
  assumes ok: "tree_ok par br ent" and p: "par p = Some (PPhys q start fin)"
  shows "depth par x n \<Longrightarrow> (\<exists>m \<le> n. depth (merged_par p q par) x m) \<and> (x = p \<longrightarrow> (\<exists>m < n. depth (merged_par p q par) x m))"
proof (induction n arbitrary: x rule: less_induct)
  case (less n)
  let ?par = "merged_par p q par"
  have pq: "p \<noteq> q" using not_above_parent [OF ok p] above.self by metis
  note app = merged_par_apply [OF ok pq]
  consider "x = q" | "x = p" | "x \<noteq> p" "x \<noteq> q" by blast
  then show ?case
  proof cases
    case 1
    then have "depth ?par x 0" by (auto simp: app intro: depth.root)
    then show ?thesis using 1 pq by blast
  next
    case 2
    with depth_parent [OF less.prems, of q start fin] p obtain n1 where n1: "n = Suc n1" "depth par q n1" by blast
    have "\<exists>m < n. depth ?par p m"
    proof (cases "\<exists>z s e. par q = Some (PPhys z s e)")
      case True
      then obtain z s e where z: "par q = Some (PPhys z s e)" by blast
      with depth_parent [OF n1(2)] obtain n2 where n2: "n1 = Suc n2" "depth par z n2" by blast
      from less.IH [of n2 z] n1(1) n2 obtain m where "m \<le> n2" "depth ?par z m" by auto
      then have "depth ?par p (Suc m)" using z pq depth.up [of ?par p z s e m] by (simp add: app)
      then show ?thesis using \<open>m \<le> n2\<close> n1(1) n2(1) by (intro exI [of _ "Suc m"]) simp
    next
      case False
      then have "depth ?par p 0" using pq by (auto simp: app intro: depth.root)
      then show ?thesis using n1(1) by blast
    qed
    then show ?thesis using 2 less_imp_le by blast
  next
    case 3
    show ?thesis
    proof (cases "\<exists>z s e. par x = Some (PPhys z s e)")
      case True
      then obtain z s e where z: "par x = Some (PPhys z s e)" by blast
      with depth_parent [OF less.prems] obtain n2 where n2: "n = Suc n2" "depth par z n2" by blast
      from less.IH [of n2 z] n2 obtain m where "m \<le> n2" "depth ?par z m" by auto
      then have "depth ?par x (Suc m)" using z 3 depth.up [of ?par x z s e m] by (simp add: app)
      then show ?thesis using \<open>m \<le> n2\<close> n2(1) 3 by auto
    next
      case False
      then have "depth ?par x 0" using 3 by (auto simp: app intro: depth.root)
      then show ?thesis using 3 by blast
    qed
  qed
qed

lemma merge_above:
  assumes ok: "tree_ok par br ent" and p: "par p = Some (PPhys q start fin)"
  shows "above (merged_par p q par) x y \<Longrightarrow> above par x y"
proof (induction rule: above.induct)
  case (self x)
  show ?case by (rule above.self)
next
  case (step x z s e y)
  have pq: "p \<noteq> q" using not_above_parent [OF ok p] above.self by metis
  note app = merged_par_apply [OF ok pq]
  from step.hyps(1) have "x \<noteq> q" by (auto simp: app)
  show ?case
  proof (cases "x = p")
    case True
    then have "par q = Some (PPhys z s e)" using step.hyps(1) pq by (simp add: app)
    then show ?thesis using True p step.IH above.step by metis
  next
    case False
    then have "par x = Some (PPhys z s e)" using step.hyps(1) \<open>x \<noteq> q\<close> by (simp add: app)
    then show ?thesis using step.IH by (rule above.step)
  qed
qed

lemma merge_needs:
  assumes ok: "tree_ok par br ent" and p: "par p = Some (PPhys q start fin)" and sole: "kids par q = {p}"
  shows "needs (merged_par p q par) br (merged_ent p q ent) j x \<Longrightarrow> needs par br ent j x \<and> x \<noteq> q"
proof (induction rule: needs.induct)
  case (leaf x)
  then show ?case using tree_parent [OF ok p] by (auto intro: needs.leaf)
next
  case (kid y x)
  have pq: "p \<noteq> q" using not_above_parent [OF ok p] above.self by metis
  note par' = merged_par_apply [OF ok pq] and ent' = merged_ent_apply [OF pq]
  from kid.hyps(1) have "x \<noteq> q \<and> needs par br ent j x"
  proof (cases "y = p")
    case True
    then obtain s e where x: "par q = Some (PPhys x s e)" using kid.hyps(1) pq by (auto simp: kids_def par')
    have "ent p j = None" "ent q j = None" using kid.hyps(2) True pq by (auto simp: ent' split: if_splits)
    then have "needs par br ent j q" using needs.kid [of p par q ent j br] p kid.IH True by (auto simp: kids_def)
    then have "needs par br ent j x"
      using needs.kid [of q par x ent j br] x \<open>ent q j = None\<close> by (auto simp: kids_def)
    moreover have "x \<noteq> q" using not_above_parent [OF ok x] above.self by metis
    ultimately show ?thesis by blast
  next
    case False
    then have y: "y \<in> kids par x" "ent y j = None" using kid.hyps kid.IH by (auto simp: kids_def par' ent' split: if_splits)
    then have "needs par br ent j x" using kid.IH by (auto intro: needs.kid)
    moreover have "x \<noteq> q"
    proof
      assume "x = q"
      then show False using y(1) sole False by auto
    qed
    ultimately show ?thesis by blast
  qed
  then show ?case by blast
qed

lemma merge_kids:
  assumes ok: "tree_ok par br ent" and p: "par p = Some (PPhys q start fin)" and sole: "kids par q = {p}"
  shows "kids (merged_par p q par) x = (if x = q then {} else if q \<in> kids par x then insert p (kids par x - {q}) else kids par x)"
proof -
  have pq: "p \<noteq> q" using not_above_parent [OF ok p] above.self by metis
  note par' = merged_par_apply [OF ok pq]
  have "p \<notin> kids par x" if "x \<noteq> q" using p that by (auto simp: kids_def)
  moreover have "y \<notin> kids par q" if "y \<noteq> p" for y using sole that by auto
  ultimately show ?thesis using pq not_above_parent [OF ok, of q q] above.self
    unfolding kids_def by (auto simp: par' split: if_splits)
qed

lemma tree_merge:
  assumes ok: "tree_ok par br ent" and p: "par p = Some (PPhys q start fin)" and sole: "kids par q = {p}"
  shows "tree_ok (merged_par p q par) br (merged_ent p q ent)"
proof (rule tree_okI)
  have pq: "p \<noteq> q" using not_above_parent [OF ok p] above.self by metis
  note par' = merged_par_apply [OF ok pq] and ent' = merged_ent_apply [OF pq]
  show "start' = 0 \<and> fin' = None \<and> br z" if "merged_par p q par x = Some (PPhys z start' fin')" for x z start' fin'
    using that tree_parent [OF ok] by (auto simp: par' split: if_splits)
  show "\<exists>n. depth (merged_par p q par) x n" for x
    using merge_depth [OF ok p] tree_depth [OF ok, of x] by blast
  show "finite (kids (merged_par p q par) x) \<and> card (kids (merged_par p q par) x) \<le> 2" for x
  proof (cases "q \<in> kids par x")
    case True
    have fin: "finite (kids par x)" by (rule tree_kids(1) [OF ok])
    then have "0 < card (kids par x)" using True card_gt_0_iff by blast
    moreover have "card (insert p (kids par x - {q})) \<le> Suc (card (kids par x) - 1)"
      using fin True by (simp add: card_insert_if)
    ultimately have "card (insert p (kids par x - {q})) \<le> card (kids par x)" by simp
    then show ?thesis using True tree_kids [OF ok, of x] merge_kids [OF assms, of x] by auto
  qed (use tree_kids [OF ok, of x] merge_kids [OF assms, of x] in auto)
  have origin: "\<exists>z c. ent z j = Some c \<and> st_frame c = st_frame a \<and> (z = x \<and> x \<noteq> q \<or> z = q \<and> x = p \<and> ent p j = None)"
    if "merged_ent p q ent x j = Some a" for x j a
    using that by (fastforce simp: ent' split: if_splits)
  show "x = y \<and> i = j" if "merged_ent p q ent x i = Some a" "merged_ent p q ent y j = Some b" "st_frame a = st_frame b"
    for x y i j a b
    using origin [OF that(1)] origin [OF that(2)] that(3) tree_owner [OF ok] by metis
  have old: "ent x i = Some (Unique f len) \<and> x \<noteq> q" if "merged_ent p q ent x i = Some (Unique f len)" for x i f len
    using that by (auto simp: ent' split: if_splits)
  show "br x" if "merged_ent p q ent x i = Some (Unique f len)" for x i f len
    using old [OF that] tree_unique(1) [OF ok] by blast
  show "y = z" if u: "merged_ent p q ent x i = Some (Unique f len)"
    and y: "consults (merged_par p q par) br (merged_ent p q ent) y x i"
    and z: "consults (merged_par p q par) br (merged_ent p q ent) z x i" for x i f len y z
  proof -
    define old_of where "old_of = (\<lambda>y. if y = p then q else y)"
    have c: "y \<noteq> q \<and> consults par br ent (old_of y) x i"
      if "consults (merged_par p q par) br (merged_ent p q ent) y x i" for y
    proof -
      from that have k: "y \<in> kids (merged_par p q par) x" "merged_ent p q ent y i = None"
        "needs par br ent i y" "y \<noteq> q"
        using merge_needs [OF assms] by (auto simp: consults_def)
      show ?thesis
      proof (cases "y = p")
        case True
        then have "q \<in> kids par x" using k(1) pq by (auto simp: kids_def par')
        moreover have "ent p i = None" "ent q i = None" using k(2) True pq by (auto simp: ent' split: if_splits)
        moreover have "needs par br ent i q"
          using needs.kid [of p par q ent i br] p k(3) True \<open>ent p i = None\<close> by (auto simp: kids_def)
        ultimately show ?thesis using True k(4) by (simp add: old_of_def consults_def)
      next
        case False
        then have "y \<in> kids par x" "ent y i = None" using k by (auto simp: kids_def par' ent')
        then show ?thesis using False k(3,4) by (simp add: old_of_def consults_def)
      qed
    qed
    from tree_unique(2) [OF ok, of x i f len "old_of y" "old_of z"] c [OF y] c [OF z] old [OF u] have "old_of y = old_of z" by blast
    then show "y = z" using c [OF y] c [OF z] by (auto simp: old_of_def split: if_splits)
  qed
qed

text \<open>What the parent showed is now shown by the child, wherever the child had nothing of its own.\<close>

lemma sees_merge_both:
  assumes ok: "tree_ok par br ent" and p: "par p = Some (PPhys q start fin)" and sole: "kids par q = {p}"
  shows "sees par ent bytes disk x i bs \<Longrightarrow>
    (x \<noteq> q \<longrightarrow> sees (merged_par p q par) (merged_ent p q ent) bytes disk x i bs) \<and>
    (x = q \<longrightarrow> ent p i = None \<longrightarrow> sees (merged_par p q par) (merged_ent p q ent) bytes disk p i bs)"
proof (induction rule: sees.induct)
  let ?par = "merged_par p q par" and ?ent = "merged_ent p q ent"
  have pq: "p \<noteq> q" using not_above_parent [OF ok p] above.self by metis
  note app = merged_simps [OF ok pq]
  {
    fix x i s assume own: "ent x i = Some s"
    have "ent p i = None \<Longrightarrow> x = q \<Longrightarrow> ?ent p i = Some (Shared (st_frame s) (st_len s))" using own by (simp add: app)
    moreover have "x \<noteq> q \<Longrightarrow> ?ent x i = Some s" using own by (cases "x = p") (simp_all add: app)
    ultimately show "(x \<noteq> q \<longrightarrow> sees ?par ?ent bytes disk x i (bytes (st_frame s))) \<and>
        (x = q \<longrightarrow> ent p i = None \<longrightarrow> sees ?par ?ent bytes disk p i (bytes (st_frame s)))"
      using sees.own [of ?ent x i s ?par] sees.own [of ?ent p i "Shared (st_frame s) (st_len s)" ?par] by simp
  next
    fix x i assume none: "ent x i = None" "par x = None"
    have "x \<noteq> p" using none p by auto
    then show "(x \<noteq> q \<longrightarrow> sees ?par ?ent bytes disk x i zero_page_bytes) \<and>
        (x = q \<longrightarrow> ent p i = None \<longrightarrow> sees ?par ?ent bytes disk p i zero_page_bytes)"
      using none sees.none [of ?ent x i ?par] sees.none [of ?ent p i ?par] by (auto simp: app)
  next
    fix x i z start' fin' assume "ent x i = None" "par x = Some (PPhys z start' fin')" "\<not> in_limit start' fin' i"
    then show "(x \<noteq> q \<longrightarrow> sees ?par ?ent bytes disk x i zero_page_bytes) \<and>
        (x = q \<longrightarrow> ent p i = None \<longrightarrow> sees ?par ?ent bytes disk p i zero_page_bytes)"
      using tree_parent [OF ok, of x z start' fin'] by (simp add: in_limit_def)
  next
    fix x i b assume dv: "ent x i = None" "par x = Some (PBackend b)"
    have "x \<noteq> p" using dv p by auto
    then show "(x \<noteq> q \<longrightarrow> sees ?par ?ent bytes disk x i (disk b i)) \<and>
        (x = q \<longrightarrow> ent p i = None \<longrightarrow> sees ?par ?ent bytes disk p i (disk b i))"
      using dv sees.backend [of ?ent x i ?par b] sees.backend [of ?ent p i ?par b] by (auto simp: app)
  next
    fix x i z start' fin' bs
    assume up: "ent x i = None" "par x = Some (PPhys z start' fin')"
      and IH: "(z \<noteq> q \<longrightarrow> sees ?par ?ent bytes disk z (start' + i) bs) \<and>
        (z = q \<longrightarrow> ent p (start' + i) = None \<longrightarrow> sees ?par ?ent bytes disk p (start' + i) bs)"
    have z: "start' = 0" "fin' = None" using tree_parent [OF ok up(2)] by auto
    have zq: "z = q \<longleftrightarrow> x = p" using up(2) p sole by (auto simp: kids_def)
    show "(x \<noteq> q \<longrightarrow> sees ?par ?ent bytes disk x i bs) \<and> (x = q \<longrightarrow> ent p i = None \<longrightarrow> sees ?par ?ent bytes disk p i bs)"
    proof (cases "x = p")
      case True
      then show ?thesis using IH zq z up(1) pq by simp
    next
      case False
      then have "sees ?par ?ent bytes disk z i bs" using IH zq z by simp
      then show ?thesis
        using sees.up [of ?ent x i ?par z 0 None] sees.up [of ?ent p i ?par z 0 None] up False z pq
        by (auto simp: app in_limit_def)
    qed
  }
qed

lemma sees_merge:
  assumes "tree_ok par br ent" and "par p = Some (PPhys q start fin)" and "kids par q = {p}" and "x \<noteq> q"
    and "sees par ent bytes disk x i bs"
  shows "sees (merged_par p q par) (merged_ent p q ent) bytes disk x i bs"
  using sees_merge_both [OF assms(1-3,5)] assms(4) by blast

section \<open>Cloning a leaf\<close>

text \<open>What a clone does: the object hands its frames and its parent to a new branch, and both it and the
  clone start from there with nothing of their own.\<close>

definition cloned_par :: "nat \<Rightarrow> nat \<Rightarrow> nat \<Rightarrow> parents \<Rightarrow> parents" where
  "cloned_par x b c par = par(b := par x, x := Some (PPhys b 0 None), c := Some (PPhys b 0 None))"

definition cloned_ent :: "nat \<Rightarrow> nat \<Rightarrow> entries \<Rightarrow> entries" where
  "cloned_ent x b ent = ent(b := ent x, x := (\<lambda>_. None))"

definition fresh_node :: "parents \<Rightarrow> entries \<Rightarrow> nat \<Rightarrow> bool" where
  "fresh_node par ent b \<longleftrightarrow> par b = None \<and> ent b = (\<lambda>_. None) \<and> kids par b = {}"

definition clone_ok :: "parents \<Rightarrow> (nat \<Rightarrow> bool) \<Rightarrow> entries \<Rightarrow> nat \<Rightarrow> nat \<Rightarrow> nat \<Rightarrow> bool" where
  "clone_ok par br ent x b c \<longleftrightarrow> tree_ok par br ent \<and> \<not> br x \<and> fresh_node par ent b \<and> fresh_node par ent c \<and>
    b \<noteq> c \<and> x \<noteq> b \<and> x \<noteq> c"

lemma clone_okD:
  assumes "clone_ok par br ent x b c"
  shows "tree_ok par br ent" "\<not> br x" "fresh_node par ent b" "fresh_node par ent c" "b \<noteq> c" "x \<noteq> b" "x \<noteq> c"
  using assms by (simp_all add: clone_ok_def)

lemma clone_simps:
  assumes "clone_ok par br ent x b c"
  shows "cloned_par x b c par b = par x" "cloned_par x b c par x = Some (PPhys b 0 None)"
    "cloned_par x b c par c = Some (PPhys b 0 None)"
    "y \<noteq> x \<Longrightarrow> y \<noteq> b \<Longrightarrow> y \<noteq> c \<Longrightarrow> cloned_par x b c par y = par y"
    "cloned_ent x b ent b = ent x" "cloned_ent x b ent x = (\<lambda>_. None)" "cloned_ent x b ent c = (\<lambda>_. None)"
    "y \<noteq> x \<Longrightarrow> y \<noteq> b \<Longrightarrow> cloned_ent x b ent y = ent y"
  using clone_okD [OF assms] by (simp_all add: cloned_par_def cloned_ent_def fresh_node_def)

lemma clone_no_kids:
  assumes "clone_ok par br ent x b c" and "par y = Some (PPhys p start fin)"
  shows "p \<noteq> x" "p \<noteq> b" "p \<noteq> c" "y \<noteq> b" "y \<noteq> c"
proof -
  note C = clone_okD [OF assms(1)]
  have "y \<in> kids par p" using assms(2) by (auto simp: kids_def)
  then show "p \<noteq> b" "p \<noteq> c" using C(3,4) by (auto simp: fresh_node_def)
  show "p \<noteq> x" using tree_parent [OF C(1) assms(2)] C(2) by blast
  show "y \<noteq> b" "y \<noteq> c" using assms(2) C(3,4) by (auto simp: fresh_node_def)
qed

lemma clone_depth:
  assumes C: "clone_ok par br ent x b c"
  shows "\<exists>n. depth (cloned_par x b c par) y n"
proof -
  let ?par = "cloned_par x b c par"
  have other: "depth par y n \<Longrightarrow> y \<noteq> x \<Longrightarrow> y \<noteq> b \<Longrightarrow> y \<noteq> c \<Longrightarrow> depth ?par y n" for y n
  proof (induction rule: depth.induct)
    case (root y)
    then show ?case by (intro depth.root) (simp add: clone_simps(4) [OF C])
  next
    case (up y p start fin n)
    then have "depth ?par p n" using clone_no_kids [OF C up.hyps(1)] by blast
    then show ?case using up.hyps(1) up.prems depth.up [of ?par y p start fin n] by (simp add: clone_simps [OF C])
  qed
  have branch: "\<exists>n. depth ?par b n"
  proof (cases "\<exists>p start fin. par x = Some (PPhys p start fin)")
    case True
    then obtain p start fin where p: "par x = Some (PPhys p start fin)" by blast
    obtain n where "depth par p n" using tree_depth [OF clone_okD(1) [OF C]] by blast
    then have "depth ?par p n" using other clone_no_kids [OF C p] by blast
    then show ?thesis using p depth.up [of ?par b p start fin n] by (auto simp: clone_simps [OF C])
  next
    case False
    then show ?thesis by (intro exI [of _ 0] depth.root) (simp add: clone_simps [OF C])
  qed
  then have "\<exists>n. depth ?par x n" "\<exists>n. depth ?par c n"
    using depth.up [of ?par _ b 0 None] by (metis clone_simps(2) [OF C], metis clone_simps(3) [OF C])
  moreover obtain n where "depth par y n" using tree_depth [OF clone_okD(1) [OF C]] by blast
  ultimately show ?thesis using branch other by metis
qed

lemma clone_kids:
  assumes C: "clone_ok par br ent x b c"
  shows "y \<in> kids (cloned_par x b c par) p \<longleftrightarrow>
    (if y = b then x \<in> kids par p else if y = x \<or> y = c then p = b else y \<in> kids par p)"
proof (cases "y = x \<or> y = b \<or> y = c")
  case False
  then show ?thesis by (simp add: kids_def clone_simps [OF C])
qed (use clone_okD(5-7) [OF C] in \<open>auto simp: kids_def clone_simps [OF C]\<close>)

lemma clone_needs:
  assumes C: "clone_ok par br ent x b c"
  shows "needs (cloned_par x b c par) (br(b := True, c := False)) (cloned_ent x b ent) j y \<Longrightarrow>
    y = b \<or> y = c \<or> needs par br ent j y"
proof (induction rule: needs.induct)
  case (leaf y)
  then show ?case by (auto intro: needs.leaf split: if_splits)
next
  case (kid z y)
  consider "y = b" | "y \<noteq> b" "z = b" | "y \<noteq> b" "z \<noteq> b" by blast
  then show ?case
  proof cases
    case 2
    then have "x \<in> kids par y" "ent x j = None" using kid.hyps(1,2) by (simp_all add: clone_kids [OF C] clone_simps [OF C])
    then show ?thesis using needs.leaf [of br x par ent j] clone_okD(2) [OF C] needs.kid [of x par y ent j br] by blast
  next
    case 3
    then have z: "z \<noteq> x" "z \<noteq> c" "z \<in> kids par y" using kid.hyps(1) by (auto simp: clone_kids [OF C] split: if_splits)
    moreover have "ent z j = None" using kid.hyps(2) z 3 by (simp add: clone_simps [OF C])
    ultimately show ?thesis using kid.IH 3 needs.kid [of z par y ent j br] by blast
  qed simp
qed

lemma clone_kids_bound:
  assumes C: "clone_ok par br ent x b c"
  shows "finite (kids (cloned_par x b c par) p) \<and> card (kids (cloned_par x b c par) p) \<le> 2"
proof (cases "p = b")
  case True
  have "kids par b = {}" using clone_okD(3) [OF C] by (simp add: fresh_node_def)
  then have "kids (cloned_par x b c par) p = {x, c}"
    using True clone_okD(5-7) [OF C] by (auto simp: clone_kids [OF C] split: if_splits)
  then show ?thesis by (simp add: card_insert_if)
next
  case False
  have fin: "finite (kids par p)" "card (kids par p) \<le> 2" using tree_kids [OF clone_okD(1) [OF C]] by auto
  have bc: "b \<notin> kids par p" "c \<notin> kids par p" using clone_okD(3,4) [OF C] by (auto simp: fresh_node_def kids_def)
  have eq: "kids (cloned_par x b c par) p = (if x \<in> kids par p then insert b (kids par p - {x}) else kids par p)"
    using False bc by (auto simp: clone_kids [OF C] split: if_splits)
  show ?thesis
  proof (cases "x \<in> kids par p")
    case True
    then have "0 < card (kids par p)" using fin(1) card_gt_0_iff by blast
    then show ?thesis using True fin eq bc by (simp add: card_insert_if)
  qed (use fin eq in simp)
qed

lemma tree_clone:
  assumes C: "clone_ok par br ent x b c"
  shows "tree_ok (cloned_par x b c par) (br(b := True, c := False)) (cloned_ent x b ent)"
proof (rule tree_okI)
  let ?par = "cloned_par x b c par" and ?br = "br(b := True, c := False)" and ?ent = "cloned_ent x b ent"
  note D = clone_okD [OF C] and app = clone_simps [OF C]
  show "start = 0 \<and> fin = None \<and> ?br p" if p: "?par y = Some (PPhys p start fin)" for y p start fin
  proof -
    have "start = 0 \<and> fin = None \<and> p = b \<or> (\<exists>z. par z = Some (PPhys p start fin))"
      using p unfolding cloned_par_def by (auto split: if_splits)
    then consider "start = 0" "fin = None" "p = b" | z where "par z = Some (PPhys p start fin)" by blast
    then show ?thesis
    proof cases
      case 2
      then show ?thesis using tree_parent [OF D(1) 2] clone_no_kids(3) [OF C 2] by simp
    qed (use D(5) in simp)
  qed
  show "\<exists>n. depth ?par y n" for y by (rule clone_depth [OF C])
  show "finite (kids ?par p) \<and> card (kids ?par p) \<le> 2" for p by (rule clone_kids_bound [OF C])
  have origin: "ent (if y = b then x else y) i = Some s \<and> y \<noteq> x" if "?ent y i = Some s" for y i s
    using that D(6) by (auto simp: cloned_ent_def split: if_splits)
  show "y = z \<and> i = j" if "?ent y i = Some s" "?ent z j = Some t" "st_frame s = st_frame t" for y z i j s t
    using tree_owner [OF D(1) conjunct1 [OF origin [OF that(1)]] conjunct1 [OF origin [OF that(2)]] that(3)]
      origin [OF that(1)] origin [OF that(2)] by (auto split: if_splits)
  have old: "p \<noteq> b \<and> p \<noteq> x \<and> p \<noteq> c \<and> ent p i = Some (Unique f len)" if "?ent p i = Some (Unique f len)" for p i f len
  proof -
    from origin [OF that] have "ent (if p = b then x else p) i = Some (Unique f len)" "p \<noteq> x" by auto
    moreover from this tree_unique(1) [OF D(1), of x i f len] D(2) have "p \<noteq> b" by auto
    moreover have "p \<noteq> c" using that by (auto simp: app)
    ultimately show ?thesis by simp
  qed
  show "?br p" if "?ent p i = Some (Unique f len)" for p i f len
    using old [OF that] tree_unique(1) [OF D(1), of p i f len] by auto
  show "y = z" if u: "?ent p i = Some (Unique f len)" and y: "consults ?par ?br ?ent y p i" and z: "consults ?par ?br ?ent z p i"
    for p i f len y z
  proof -
    define old_of where "old_of = (\<lambda>y. if y = b then x else y)"
    have c: "y \<noteq> x \<and> consults par br ent (old_of y) p i" if "consults ?par ?br ?ent y p i" for y
    proof (cases "y = b")
      case True
      then have "x \<in> kids par p" "ent x i = None" using that by (simp_all add: consults_def clone_kids [OF C] app)
      then show ?thesis using True D(2,6) needs.leaf [of br x par ent i] by (simp add: consults_def old_of_def)
    next
      case False
      have "y \<in> kids ?par p" using that by (simp add: consults_def)
      with old [OF u] False have "y \<noteq> x" "y \<noteq> c" "y \<in> kids par p" by (auto simp: clone_kids [OF C] split: if_splits)
      moreover from that clone_needs [OF C, of i y] False this have "needs par br ent i y" by (auto simp: consults_def)
      ultimately show ?thesis using that False by (simp add: consults_def old_of_def app)
    qed
    have "old_of y = old_of z"
      using tree_unique(2) [OF D(1), of p i f len "old_of y" "old_of z"] old [OF u] c [OF y] c [OF z] by blast
    then show "y = z" using c [OF y] c [OF z] by (auto simp: old_of_def split: if_splits)
  qed
qed

lemma sees_clone_both:
  assumes C: "clone_ok par br ent x b c"
  shows "sees par ent bytes disk y i bs \<Longrightarrow>
    (y \<notin> {x, b, c} \<longrightarrow> sees (cloned_par x b c par) (cloned_ent x b ent) bytes disk y i bs) \<and>
    (y = x \<longrightarrow> sees (cloned_par x b c par) (cloned_ent x b ent) bytes disk b i bs)"
proof (induction rule: sees.induct)
  let ?par = "cloned_par x b c par" and ?ent = "cloned_ent x b ent"
  note app = clone_simps [OF C]
  have here: "?ent z i = ent y i \<and> ?par z = par y" if "z = y \<and> y \<notin> {x, b, c} \<or> z = b \<and> y = x" for y z i
    using that by (auto simp: app)
  have both: "(y \<notin> {x, b, c} \<longrightarrow> Q y) \<and> (y = x \<longrightarrow> Q b)" if "\<And>z. z = y \<and> y \<notin> {x, b, c} \<or> z = b \<and> y = x \<Longrightarrow> Q z" for Q y
    using that by blast
  {
    case (own y i s)
    show ?case by (intro both sees.own) (use own here in simp)
  next
    case (none y i)
    show ?case by (intro both sees.none) (use none here in simp_all)
  next
    case (outside y i p start fin)
    then show ?case using tree_parent [OF clone_okD(1) [OF C] outside(2)] by (simp add: in_limit_def)
  next
    case (backend y i d)
    show ?case by (intro both sees.backend) (use backend here in simp_all)
  next
    case (up y i p start fin bs)
    have "sees ?par ?ent bytes disk p (start + i) bs" using up.IH clone_no_kids [OF C up.hyps(2)] by simp
    then show ?case by (intro both sees.up [of ?ent _ i ?par p start fin]) (use up.hyps here in simp_all)
  }
qed

lemma sees_clone:
  assumes C: "clone_ok par br ent x b c"
  shows "sees par ent bytes disk y i bs \<Longrightarrow> y \<noteq> b \<Longrightarrow> y \<noteq> c \<Longrightarrow>
      sees (cloned_par x b c par) (cloned_ent x b ent) bytes disk y i bs"
    and "sees par ent bytes disk x i bs \<Longrightarrow> sees (cloned_par x b c par) (cloned_ent x b ent) bytes disk c i bs"
proof -
  have up: "sees (cloned_par x b c par) (cloned_ent x b ent) bytes disk z i bs"
    if "sees par ent bytes disk x i bs" "z = x \<or> z = c" for z
    using sees_clone_both [OF C that(1)] that(2)
      sees.up [of "cloned_ent x b ent" z i "cloned_par x b c par" b 0 None bytes disk bs]
    by (auto simp: clone_simps [OF C] in_limit_def)
  show "sees par ent bytes disk x i bs \<Longrightarrow> sees (cloned_par x b c par) (cloned_ent x b ent) bytes disk c i bs"
    using up by blast
  show "sees par ent bytes disk y i bs \<Longrightarrow> y \<noteq> b \<Longrightarrow> y \<noteq> c \<Longrightarrow>
      sees (cloned_par x b c par) (cloned_ent x b ent) bytes disk y i bs"
    using up sees_clone_both [OF C, of bytes disk y i bs] by (cases "y = x") auto
qed

end
