(* ===== verification/Phys_Spec.thy ===== *)
theory Phys_Spec
  imports Phys_Tree PageTable_Map
begin

text \<open>
  Copy-on-write memory objects: the store of the theory of memory objects as a sound tree, the
  invariant that relates its frames to the page allocator, and the operations on single frames, on entries and on
  parents that keep it.
\<close>

section \<open>The store as a tree\<close>

definition k_par :: "'s kmem \<Rightarrow> parents" where "k_par k x = ph_parent (km_phys k x)"
definition k_br :: "'s kmem \<Rightarrow> nat \<Rightarrow> bool" where "k_br k x = ph_branch (km_phys k x)"
definition k_ent :: "'s kmem \<Rightarrow> entries" where
  "k_ent k x i = Option.bind (map_of (ph_frames (km_phys k x)) i) fi_state"

definition free_frames :: "'s kmem \<Rightarrow> paddr set" where
  "free_frames k = (\<lambda>l. to_paddr l ID_OFFSET) ` arena_free (km_arena k) (km_mem k)"

text \<open>A page whose bytes from its length on are zero.\<close>

definition page_bytes_ok :: "u8 list \<Rightarrow> usize \<Rightarrow> bool" where
  "page_bytes_ok bs len \<longleftrightarrow> length bs = 4096 \<and> unat len \<le> 4096 \<and> drop (unat len) bs = replicate (4096 - unat len) 0"

definition frame_ok :: "'s kmem \<Rightarrow> frame_state \<Rightarrow> bool" where
  "frame_ok k s \<longleftrightarrow> st_frame s \<notin> free_frames k \<and> st_frame s \<noteq> km_zero k \<and>
    page_bytes_ok (km_bytes k (st_frame s)) (st_len s)"

definition heap_ok :: "'s kmem \<Rightarrow> bool" where
  "heap_ok k \<longleftrightarrow> arena_inv (km_arena k) (km_mem k) \<and> km_zero k \<notin> free_frames k \<and> km_bytes k (km_zero k) = zero_page_bytes"

text \<open>Numbers that are not in use yet name blank objects, and nothing refers to them.\<close>

definition store_ok :: "'s kmem \<Rightarrow> bool" where
  "store_ok k \<longleftrightarrow>
    (\<forall>x \<ge> km_next k. k_par k x = None \<and> ph_frames (km_phys k x) = []) \<and>
    (\<forall>x p start fin. k_par k x = Some (PPhys p start fin) \<longrightarrow> p < km_next k) \<and>
    (\<forall>x i fi. map_of (ph_frames (km_phys k x)) i = Some fi \<longrightarrow> fi_state fi \<noteq> None)"

definition phys_ok :: "'s kmem \<Rightarrow> bool" where
  "phys_ok k \<longleftrightarrow> tree_ok (k_par k) (k_br k) (k_ent k) \<and> store_ok k \<and> heap_ok k \<and>
    (\<forall>x i s. k_ent k x i = Some s \<longrightarrow> frame_ok k s)"

lemma phys_okD:
  assumes "phys_ok k"
  shows phys_tree: "tree_ok (k_par k) (k_br k) (k_ent k)" and phys_store: "store_ok k" and phys_heap: "heap_ok k"
    and phys_frame: "k_ent k x i = Some s \<Longrightarrow> frame_ok k s"
  using assms by (auto simp: phys_ok_def)

lemma phys_okI:
  "tree_ok (k_par k) (k_br k) (k_ent k) \<Longrightarrow> store_ok k \<Longrightarrow> heap_ok k \<Longrightarrow>
    (\<And>x i s. k_ent k x i = Some s \<Longrightarrow> frame_ok k s) \<Longrightarrow> phys_ok k"
  by (simp add: phys_ok_def)

lemma k_ent_None: "store_ok k \<Longrightarrow> k_ent k x i = None \<longleftrightarrow> map_of (ph_frames (km_phys k x)) i = None"
  by (auto simp: k_ent_def store_ok_def split: bind_splits)

lemma k_ent_Some: "map_of (ph_frames (km_phys k x)) i = Some fi \<Longrightarrow> k_ent k x i = fi_state fi"
  by (simp add: k_ent_def)

text \<open>What an object shows, where the backends hold given contents.\<close>

definition page_at :: "u8 list \<Rightarrow> usize \<Rightarrow> u8 list" where
  "page_at bs i = take 4096 (drop (unat (push_bit PAGE_SHIFT i)) bs @ zero_page_bytes)"

definition displays :: "(nat \<Rightarrow> 's \<Rightarrow> u8 list) \<Rightarrow> 's kmem \<Rightarrow> nat \<Rightarrow> usize \<Rightarrow> u8 list \<Rightarrow> bool" where
  "displays contents k x i bs \<longleftrightarrow>
    sees (k_par k) (k_ent k) (km_bytes k) (\<lambda>b. page_at (contents b (km_io k))) x i bs"

text \<open>Every leaf shows afterwards what it showed before.\<close>

definition keeps_views :: "(nat \<Rightarrow> 's \<Rightarrow> u8 list) \<Rightarrow> 's kmem \<Rightarrow> 's kmem \<Rightarrow> bool" where
  "keeps_views contents k k' \<longleftrightarrow> k_br k' = k_br k \<and>
    (\<forall>y j bs. \<not> k_br k y \<longrightarrow> displays contents k y j bs \<longrightarrow> displays contents k' y j bs)"

lemma keeps_views_refl: "keeps_views contents k k"
  by (simp add: keeps_views_def)

lemma keeps_views_trans: "keeps_views contents k k' \<Longrightarrow> keeps_views contents k' k'' \<Longrightarrow> keeps_views contents k k''"
  by (simp add: keeps_views_def)

section \<open>Changing one entry\<close>

definition put_entry :: "nat \<Rightarrow> usize \<Rightarrow> frame_info \<Rightarrow> 's kmem \<Rightarrow> 's kmem" where
  "put_entry x i fi k = set_frames x (AList.update i fi (ph_frames (km_phys k x))) k"

lemma set_frames_simps [simp]:
  "km_arena (set_frames x fs k) = km_arena k" "km_mem (set_frames x fs k) = km_mem k"
  "km_bytes (set_frames x fs k) = km_bytes k" "km_zero (set_frames x fs k) = km_zero k"
  "km_next (set_frames x fs k) = km_next k" "km_io (set_frames x fs k) = km_io k" "km_tlb (set_frames x fs k) = km_tlb k"
  "km_phys (set_frames x fs k) x = (km_phys k x)\<lparr>ph_frames := fs\<rparr>"
  "y \<noteq> x \<Longrightarrow> km_phys (set_frames x fs k) y = km_phys k y"
  "k_par (set_frames x fs k) = k_par k" "k_br (set_frames x fs k) = k_br k" "free_frames (set_frames x fs k) = free_frames k"
  by (auto simp: set_frames_def k_par_def k_br_def free_frames_def fun_eq_iff)

lemma frame_ok_set_frames [simp]: "frame_ok (set_frames x fs k) s = frame_ok k s" "heap_ok (set_frames x fs k) = heap_ok k"
  by (auto simp: frame_ok_def heap_ok_def)

lemma k_ent_put: "k_ent (put_entry x i fi k) = upd_ent x i (fi_state fi) (k_ent k)"
  by (intro ext) (auto simp: k_ent_def put_entry_def set_frames_def upd_ent_def update_conv')

lemma k_ent_delete:
  "k_ent (set_frames x (AList.delete i (ph_frames (km_phys k x))) k) = upd_ent x i None (k_ent k)"
  by (intro ext) (auto simp: k_ent_def set_frames_def upd_ent_def delete_conv')

lemma put_entry_simps [simp]:
  "km_arena (put_entry x i fi k) = km_arena k" "km_mem (put_entry x i fi k) = km_mem k"
  "km_bytes (put_entry x i fi k) = km_bytes k" "km_zero (put_entry x i fi k) = km_zero k"
  "km_next (put_entry x i fi k) = km_next k" "km_io (put_entry x i fi k) = km_io k" "km_tlb (put_entry x i fi k) = km_tlb k"
  "y \<noteq> x \<Longrightarrow> km_phys (put_entry x i fi k) y = km_phys k y"
  "k_par (put_entry x i fi k) = k_par k" "k_br (put_entry x i fi k) = k_br k"
  "frame_ok (put_entry x i fi k) s = frame_ok k s" "heap_ok (put_entry x i fi k) = heap_ok k"
  "free_frames (put_entry x i fi k) = free_frames k"
  by (simp_all add: put_entry_def)

lemma map_of_put: "map_of (ph_frames (km_phys (put_entry x i fi k) x)) = (map_of (ph_frames (km_phys k x)))(i \<mapsto> fi)"
  by (simp add: put_entry_def update_conv')

lemma store_ok_put:
  assumes "store_ok k" and "fi_state fi \<noteq> None" and "x < km_next k"
  shows "store_ok (put_entry x i fi k)"
proof -
  have "fi_state fi' \<noteq> None" if "map_of (ph_frames (km_phys (put_entry x i fi k) y)) j = Some fi'" for y j fi'
    using that assms by (cases "y = x") (auto simp: map_of_put store_ok_def split: if_splits)
  moreover have "km_phys (put_entry x i fi k) y = km_phys k y" if "km_next k \<le> y" for y
    using that assms(3) by (intro put_entry_simps) auto
  ultimately show ?thesis using assms(1) by (auto simp: store_ok_def)
qed

lemma store_ok_delete:
  assumes "store_ok k"
  shows "store_ok (set_frames x (AList.delete i (ph_frames (km_phys k x))) k)"
proof -
  let ?k = "set_frames x (AList.delete i (ph_frames (km_phys k x))) k"
  have "fi_state fi \<noteq> None" if "map_of (ph_frames (km_phys ?k y)) j = Some fi" for y j fi
    using that assms by (cases "y = x") (auto simp: delete_conv' store_ok_def split: if_splits)
  moreover have "ph_frames (km_phys ?k y) = []" if "ph_frames (km_phys k y) = []" for y
    using that by (cases "y = x") simp_all
  ultimately show ?thesis using assms by (auto simp: store_ok_def)
qed

text \<open>A list with an entry belongs to an object in use.\<close>

lemma entry_in_use: "store_ok k \<Longrightarrow> map_of (ph_frames (km_phys k x)) i = Some fi \<Longrightarrow> x < km_next k"
  by (rule ccontr) (auto simp: store_ok_def not_less)

lemma parent_in_use: "store_ok k \<Longrightarrow> k_par k x = Some pp \<Longrightarrow> x < km_next k"
  by (rule ccontr) (auto simp: store_ok_def not_less)

section \<open>New frames\<close>

lemma sees_bytes:
  assumes "sees par ent bytes disk y j bs" and "\<And>x i s. ent x i = Some s \<Longrightarrow> bytes' (st_frame s) = bytes (st_frame s)"
  shows "sees par ent bytes' disk y j bs"
  using assms(1)
proof (induction rule: sees.induct)
  case (own x i s)
  show ?case using sees.own [of ent x i s par bytes' disk, OF own] assms(2) [OF own] by simp
qed (auto intro: sees.intros)

text \<open>Pages that the allocator does not own keep their contents, and it does not get any.\<close>

definition mem_kept :: "'s kmem \<Rightarrow> 's kmem \<Rightarrow> bool" where
  "mem_kept k k' \<longleftrightarrow> arena_free (km_arena k') (km_mem k') \<subseteq> arena_free (km_arena k) (km_mem k) \<and>
    (\<forall>q. page_aligned q \<longrightarrow> q \<notin> arena_free (km_arena k) (km_mem k) \<longrightarrow> km_mem k' q = km_mem k q) \<and> km_tlb k' = km_tlb k"

lemma mem_kept_same: "km_arena k' = km_arena k \<Longrightarrow> km_mem k' = km_mem k \<Longrightarrow> km_tlb k' = km_tlb k \<Longrightarrow> mem_kept k k'"
  by (simp add: mem_kept_def)

lemma mem_kept_trans: "mem_kept k k1 \<Longrightarrow> mem_kept k1 k2 \<Longrightarrow> mem_kept k k2"
  by (auto simp: mem_kept_def)

text \<open>A state that differs from another one by a frame taken from the allocator, with given bytes.\<close>

definition grown :: "(nat \<Rightarrow> 's \<Rightarrow> u8 list) \<Rightarrow> 's kmem \<Rightarrow> 's kmem \<Rightarrow> paddr \<Rightarrow> u8 list \<Rightarrow> bool" where
  "grown contents k k' f bs \<longleftrightarrow> f \<in> free_frames k \<and> free_frames k' = free_frames k - {f} \<and>
    arena_inv (km_arena k') (km_mem k') \<and> km_bytes k' = (km_bytes k)(f := bs) \<and> km_phys k' = km_phys k \<and>
    km_next k' = km_next k \<and> km_zero k' = km_zero k \<and> (\<forall>b. contents b (km_io k') = contents b (km_io k)) \<and> mem_kept k k'"

lemma inj_to_paddr: "inj (\<lambda>l. to_paddr l off)"
  by (rule injI) (simp add: to_paddr_def)

lemma frame_new_cases:
  assumes "heap_ok k"
  obtains "frame_new k = Returns (k, Inl ENOMEM)" "free_frames k = {}"
  | k' f where "frame_new k = Returns (k', Inr f)" "grown contents k k' f zero_page_bytes"
      "k' = k\<lparr>km_arena := km_arena k', km_mem := km_mem k', km_bytes := km_bytes k'\<rparr>"
proof (cases "arena_alloc (km_arena k) (km_mem k)")
  case None
  obtain bs where "arena_ok (km_arena k) (km_mem k) bs" using assms by (auto simp: heap_ok_def arena_inv_def)
  then have "free_frames k = {}" using None arena_alloc_None_iff by (auto simp: free_frames_def arena_free_eq)
  then show ?thesis using None by (intro that(1)) (simp_all add: frame_new_def arena_alloc_def)
next
  case (Some r)
  obtain l a m where r: "r = (l, a, m)" by (cases r)
  let ?f = "to_paddr l ID_OFFSET"
  let ?k = "k\<lparr>km_arena := a, km_mem := m, km_bytes := (km_bytes k)(?f := zero_page_bytes)\<rparr>"
  have inv: "arena_inv (km_arena k) (km_mem k)" using assms by (simp add: heap_ok_def)
  note al = Some [unfolded r]
  have new: "frame_new k = Returns (?k, Inr ?f)"
    using al by (simp add: frame_new_def arena_alloc_def zero_page_bytes_def PAGE_SIZE_def Let_def)
  have "grown contents k ?k ?f zero_page_bytes"
    unfolding grown_def
  proof (intro conjI)
    show "?f \<in> free_frames k" using arena.alloc_owned [OF inv al] by (simp add: free_frames_def)
    show "free_frames ?k = free_frames k - {?f}"
      using arena.alloc_free [OF inv al] by (simp add: free_frames_def image_set_diff [OF inj_to_paddr])
    show "mem_kept k ?k"
      using arena.alloc_free [OF inv al] arena.alloc_frame [OF inv al] by (auto simp: mem_kept_def)
  qed (use arena.alloc_inv [OF inv al] in simp_all)
  from that(2) [OF new this] show ?thesis by simp
qed

lemma grown_same:
  assumes "grown contents k k' f bs"
  shows "k_par k' = k_par k" "k_br k' = k_br k" "k_ent k' = k_ent k"
  using assms by (auto simp: grown_def k_par_def k_br_def k_ent_def fun_eq_iff)

lemma grown_frame:
  assumes ok: "phys_ok k" and g: "grown contents k k' f bs"
  shows "k_par k' = k_par k" "k_br k' = k_br k" "k_ent k' = k_ent k" "unowned (k_ent k) f" "f \<noteq> km_zero k"
    and "phys_ok k'" and "displays contents k' y j bs' = displays contents k y j bs'"
proof -
  note G = g [unfolded grown_def]
  show eqs: "k_par k' = k_par k" "k_br k' = k_br k" "k_ent k' = k_ent k" using grown_same [OF g] .
  have un: "st_frame s \<noteq> f" if "k_ent k x i = Some s" for x i s
    using phys_frame [OF ok that] G by (auto simp: frame_ok_def)
  then show "unowned (k_ent k) f" by (auto simp: unowned_def)
  show z: "f \<noteq> km_zero k" using phys_heap [OF ok] G by (auto simp: heap_ok_def)
  show "phys_ok k'"
  proof (rule phys_okI)
    show "tree_ok (k_par k') (k_br k') (k_ent k')" using phys_tree [OF ok] by (simp only: eqs)
    show "store_ok k'" using phys_store [OF ok] G unfolding store_ok_def by (simp add: eqs)
    show "heap_ok k'" using phys_heap [OF ok] G z by (simp add: heap_ok_def)
    show "frame_ok k' s" if "k_ent k' x i = Some s" for x i s
      using phys_frame [OF ok, of x i s] that un [of x i s] G by (simp add: eqs frame_ok_def)
  qed
  have same: "km_bytes k' (st_frame s) = km_bytes k (st_frame s)" if "k_ent k x i = Some s" for x i s
    using un [OF that] G by simp
  show "displays contents k' y j bs' = displays contents k y j bs'"
    using sees_bytes [of "k_par k" "k_ent k" "km_bytes k" _ y j bs' "km_bytes k'"] same
      sees_bytes [of "k_par k" "k_ent k" "km_bytes k'" _ y j bs' "km_bytes k"] G
    by (auto simp: displays_def eqs)
qed

lemma phys_ok_put:
  assumes ok: "phys_ok k" and "tree_ok (k_par k) (k_br k) (upd_ent x i (Some s) (k_ent k))"
    and "frame_ok k s" and "x < km_next k" and "fi_state fi = Some s"
  shows "phys_ok (put_entry x i fi k)"
proof (rule phys_okI)
  show "store_ok (put_entry x i fi k)" using phys_store [OF ok] assms(4,5) by (intro store_ok_put) simp_all
  show "frame_ok (put_entry x i fi k) t" if "k_ent (put_entry x i fi k) y j = Some t" for y j t
    using that assms(3,5) phys_frame [OF ok, of y j t] by (auto simp: k_ent_put upd_ent_apply split: if_splits)
qed (use assms phys_heap [OF ok] in \<open>simp_all add: k_ent_put\<close>)

lemma grown_insert:
  assumes ok: "phys_ok k" and g: "grown contents k k' f bs" and "k_ent k x i = None" and "x < km_next k"
    and "displays contents k x i bs" and "page_bytes_ok bs len" and "fi_state fi = Some (Shared f len)"
  shows "phys_ok (put_entry x i fi k')" and "displays contents k y j bs' \<Longrightarrow> displays contents (put_entry x i fi k') y j bs'"
proof -
  note G = g [unfolded grown_def] and F = grown_frame [OF ok g]
  show "phys_ok (put_entry x i fi k')"
  proof (rule phys_ok_put)
    show "tree_ok (k_par k') (k_br k') (upd_ent x i (Some (Shared f len)) (k_ent k'))"
      using tree_insert [OF phys_tree [OF ok] assms(3) F(4)] by (simp only: F)
    show "frame_ok k' (Shared f len)" using G F(5) assms(6) by (simp add: frame_ok_def)
  qed (use F assms G in simp_all)
  have here: "displays contents k' x i bs" using assms(5) F(7) by blast
  show "displays contents (put_entry x i fi k') y j bs'" if "displays contents k y j bs'"
    using sees_insert [of "k_ent k'" x i "k_par k'" "km_bytes k'" _ "Shared f len" y j bs'] here F(3,7) G assms(3,7) that
    unfolding displays_def by (simp add: k_ent_put)
qed

section \<open>Looking an entry up\<close>

definition write_ok :: "usize option \<Rightarrow> bool \<Rightarrow> bool" where
  "write_ok write cow \<longleftrightarrow> (case write of None \<Rightarrow> True | Some l \<Rightarrow> cow \<and> unat l \<le> 4096)"

text \<open>Only the object and the ones above it change, and there are no others above it afterwards.\<close>

definition stable :: "'s kmem \<Rightarrow> 's kmem \<Rightarrow> nat \<Rightarrow> bool" where
  "stable k k' x \<longleftrightarrow> (\<forall>y. \<not> above (k_par k) x y \<longrightarrow> km_phys k' y = km_phys k y) \<and>
    (\<forall>y. above (k_par k') x y \<longrightarrow> above (k_par k) x y) \<and> k_br k' = k_br k \<and> km_next k' = km_next k \<and> mem_kept k k'"

text \<open>
  What a lookup at \<open>x\<close> leaves behind: a page it hands out to read is what \<open>x\<close> shows; a frame it
  hands down is stored by \<open>r\<close>, and only then is the tree whole again.
\<close>

definition commit_post :: "(nat \<Rightarrow> 's \<Rightarrow> u8 list) \<Rightarrow> 's kmem \<Rightarrow> 's kmem \<Rightarrow> nat \<Rightarrow> nat \<Rightarrow> usize \<Rightarrow> usize option \<Rightarrow> commit \<Rightarrow> bool" where
  "commit_post contents k k' x r i write c \<longleftrightarrow> stable k k' x \<and>
    (case c of
       CShared f len \<Rightarrow> phys_ok k' \<and> keeps_views contents k k' \<and> displays contents k' x i (km_bytes k' f) \<and>
         (write \<noteq> None \<longrightarrow> \<not> k_br k x \<and> k_ent k' x i = Some (Shared f len))
     | CUnique fi \<Rightarrow> k_br k x \<and> phys_ok (put_entry r i fi k') \<and> keeps_views contents k (put_entry r i fi k') \<and>
         (\<exists>f len. fi_state fi = Some (Shared f len)))"

text \<open>A lookup fails when the allocator has nothing left, or with an error of a device.\<close>

definition commit_done ::
  "(error \<Rightarrow> bool) \<Rightarrow> (nat \<Rightarrow> 's \<Rightarrow> u8 list) \<Rightarrow> 's kmem \<Rightarrow> 's kmem \<Rightarrow> nat \<Rightarrow> nat \<Rightarrow> usize \<Rightarrow> usize option \<Rightarrow> error + commit \<Rightarrow> bool" where
  "commit_done derr contents k k' x r i write res \<longleftrightarrow>
    (case res of Inl e \<Rightarrow> e = ENOMEM \<and> free_frames k' = {} \<or> derr e | Inr c \<Rightarrow> commit_post contents k k' x r i write c)"

lemma commit_done_simps [simp]:
  "commit_done derr contents k k' x r i write (Inl e) \<longleftrightarrow> e = ENOMEM \<and> free_frames k' = {} \<or> derr e"
  "commit_done derr contents k k' x r i write (Inr c) = commit_post contents k k' x r i write c"
  by (simp_all add: commit_done_def)

lemma stable_put: "stable k (put_entry x i fi k) x"
proof -
  have "y \<noteq> x" if "\<not> above (k_par k) x y" for y using that above.self [of "k_par k" x] by auto
  then show ?thesis by (simp add: stable_def mem_kept_def)
qed

lemma stable_trans:
  assumes "stable k k1 x" and "stable k1 k2 x"
  shows "stable k k2 x"
proof -
  have "mem_kept k k2" using assms mem_kept_trans by (auto simp: stable_def)
  moreover have "km_phys k2 y = km_phys k y" if "\<not> above (k_par k) x y" for y
    using assms that by (auto simp: stable_def)
  ultimately show ?thesis using assms by (simp add: stable_def)
qed

lemma grown_put_stable:
  assumes "grown contents k k1 f bs"
  shows "stable k (put_entry x i fi k1) x"
proof (rule stable_trans [OF _ stable_put])
  show "stable k k1 x" using assms grown_same [OF assms] by (simp add: stable_def grown_def)
qed

lemma page_bytes_ok_mono:
  assumes "page_bytes_ok bs len" and "unat len \<le> unat l" and "unat l \<le> 4096"
  shows "page_bytes_ok bs l"
proof -
  have "drop (unat l) bs = drop (unat l - unat len) (drop (unat len) bs)" using assms(2) by simp
  also have "\<dots> = drop (unat l - unat len) (replicate (4096 - unat len) 0)" using assms(1) by (simp only: page_bytes_ok_def)
  also have "\<dots> = replicate (4096 - unat l) 0" using assms(2,3) by simp
  finally show ?thesis using assms by (simp add: page_bytes_ok_def)
qed

lemma max_len_ok:
  assumes "page_bytes_ok bs len" and "write_ok write cow"
  shows "page_bytes_ok bs (max_len len write)"
  using assms page_bytes_ok_mono [OF assms(1)]
  by (cases "write") (auto simp: max_len_def write_ok_def max_def word_le_nat_alt)

lemma frame_copy_cases:
  assumes "phys_ok k" and "frame_ok k s" and n: "page_bytes_ok (km_bytes k (st_frame s)) n"
  obtains "frame_copy k (st_frame s) n = Returns (k, Inl ENOMEM)" "free_frames k = {}"
  | k' g where "frame_copy k (st_frame s) n = Returns (k', Inr g)" "grown contents k k' g (km_bytes k (st_frame s))"
proof (rule frame_new_cases [OF phys_heap [OF assms(1)], where contents = contents])
  assume "frame_new k = Returns (k, Inl ENOMEM)" "free_frames k = {}"
  then show thesis by (intro that(1)) (simp_all add: frame_copy_def)
next
  fix k' g assume new: "frame_new k = Returns (k', Inr g)" and G: "grown contents k k' g zero_page_bytes"
  let ?f = "st_frame s"
  have "g \<noteq> ?f" using G assms(2) by (auto simp: grown_def frame_ok_def)
  then have f: "km_bytes k' ?f = km_bytes k ?f" using G by (simp add: grown_def)
  have le: "\<not> PAGE_SIZE < n" using n by (simp add: page_bytes_ok_def PAGE_SIZE_def word_less_nat_alt)
  have "overwrite 0 (take (unat n) (km_bytes k ?f)) zero_page_bytes = km_bytes k ?f"
    using n append_take_drop_id [of "unat n" "km_bytes k ?f"] by (simp add: overwrite_def page_bytes_ok_def zero_page_bytes_def min_def)
  moreover have "km_bytes k' g = zero_page_bytes" using G by (simp add: grown_def)
  ultimately have "frame_copy k ?f n = Returns (k'\<lparr>km_bytes := (km_bytes k')(g := km_bytes k ?f)\<rparr>, Inr g)"
    using new le f by (simp add: frame_copy_def)
  moreover have "grown contents k (k'\<lparr>km_bytes := (km_bytes k')(g := km_bytes k ?f)\<rparr>) g (km_bytes k ?f)"
    using G by (auto simp: grown_def free_frames_def mem_kept_def)
  ultimately show thesis by (rule that(2))
qed

lemma restate_views:
  assumes "k_ent k x i = Some s" and "fi_state fi = Some t" and "st_frame t = st_frame s" and "displays contents k y j bs"
  shows "displays contents (put_entry x i fi k) y j bs"
  using assms sees_restate [of "k_ent k" x i s t] by (simp add: displays_def k_ent_put)

lemma displays_own: "k_ent k x i = Some s \<Longrightarrow> displays contents k x i (km_bytes k (st_frame s))"
  by (simp add: displays_def sees.own)

text \<open>An entry that stays where it is and stays shared, with a length that still covers its bytes.\<close>

lemma restate_post:
  assumes ok: "phys_ok k" and s: "k_ent k x i = Some s" and t: "fi_state fi = Some (Shared (st_frame s) len)"
    and "page_bytes_ok (km_bytes k (st_frame s)) len" and "write \<noteq> None \<longrightarrow> \<not> k_br k x"
  shows "commit_post contents k (put_entry x i fi k) x r i write (CShared (st_frame s) len)"
proof -
  let ?k = "put_entry x i fi k"
  have "map_of (ph_frames (km_phys k x)) i \<noteq> None" using k_ent_None [OF phys_store [OF ok], of x i] s by simp
  then have x: "x < km_next k" using entry_in_use [OF phys_store [OF ok], of x i] by blast
  have "phys_ok ?k"
  proof (rule phys_ok_put [OF ok _ _ x t])
    show "tree_ok (k_par k) (k_br k) (upd_ent x i (Some (Shared (st_frame s) len)) (k_ent k))"
      by (rule tree_restate [OF phys_tree [OF ok] s]) simp_all
    show "frame_ok k (Shared (st_frame s) len)" using phys_frame [OF ok s] assms(4) by (simp add: frame_ok_def)
  qed
  moreover have "keeps_views contents k ?k" using restate_views [OF s t] by (simp add: keeps_views_def)
  moreover have "k_ent ?k x i = Some (Shared (st_frame s) len)" using t by (simp add: k_ent_put)
  moreover from displays_own [OF this, of contents] have "displays contents ?k x i (km_bytes ?k (st_frame s))" by simp
  ultimately show ?thesis using assms(5) stable_put by (simp add: commit_post_def)
qed

text \<open>A shared page of a branch that a child wants to write: the child gets a copy, the branch keeps the original for the
  other child alone.\<close>

lemma put_entry_twist: "r \<noteq> x \<Longrightarrow> put_entry r i a (put_entry x j b k) = put_entry x j b (put_entry r i a k)"
  by (simp add: put_entry_def set_frames_def fun_upd_twist)

lemma sole_other:
  assumes "finite A" and "card A \<le> 2" and "r \<in> A" and "a \<in> A" and "b \<in> A" and "a \<noteq> r" and "b \<noteq> r"
  shows "a = b"
proof -
  have "card (A - {r}) \<le> Suc 0" using assms(1-3) by simp
  then show ?thesis using assms card_le_Suc0_iff_eq [of "A - {r}"] by blast
qed

lemma consults_in_use:
  assumes "store_ok k" and "consults (k_par k) (k_br k) (k_ent k) r x i"
  shows "r < km_next k" "k_ent k r i = None" "r \<noteq> x \<or> k_ent k x i = None"
  using assms parent_in_use [OF assms(1), of r] by (auto simp: consults_def kids_def)

lemma displays_kid:
  assumes "phys_ok k" and "consults (k_par k) (k_br k) (k_ent k) r x i" and "displays contents k x i bs"
  shows "displays contents k r i bs"
proof -
  from assms(2) obtain start fin where p: "k_par k r = Some (PPhys x start fin)" "k_ent k r i = None"
    by (auto simp: consults_def kids_def)
  have "start = 0" "fin = None" using tree_parent [OF phys_tree [OF assms(1)] p(1)] by auto
  then show ?thesis using p assms(3) sees.up [of "k_ent k" r i "k_par k" x start fin] by (simp add: displays_def in_limit_def)
qed

lemma copy_post:
  assumes ok: "phys_ok k" and s: "k_ent k x i = Some (Shared f len)" and r: "consults (k_par k) (k_br k) (k_ent k) r x i"
    and g: "grown contents k k1 g (km_bytes k f)" and n: "page_bytes_ok (km_bytes k f) n" and br: "k_br k x"
    and u: "fi_state fu = Some (Unique f n)"
  shows "commit_post contents k (put_entry x i fu k1) x r i write (CUnique (info_new g n))"
proof -
  let ?new = "info_new g n"
  let ?k2 = "put_entry r i ?new k1"
  note G = grown_frame [OF ok g] and R = consults_in_use [OF phys_store [OF ok] r]
  have rx: "r \<noteq> x" using R(3) s by auto
  have dr: "displays contents k r i (km_bytes k f)" using displays_kid [OF ok r] displays_own [OF s] by simp
  have new: "fi_state ?new = Some (Shared g n)" by (simp add: info_new_def)
  note I = grown_insert [OF ok g R(2,1) dr n new]
  have s2: "k_ent ?k2 x i = Some (Shared f len)" using s rx by (simp add: k_ent_put G)
  have "phys_ok (put_entry x i fu ?k2)"
  proof (rule phys_ok_put [OF I(1) _ _ _ u])
    have "a = b" if ab: "consults (k_par ?k2) (k_br ?k2) (k_ent ?k2) a x i" "consults (k_par ?k2) (k_br ?k2) (k_ent ?k2) b x i" for a b
    proof (rule sole_other [of "kids (k_par k) x" r a b])
      show "finite (kids (k_par k) x)" "card (kids (k_par k) x) \<le> 2" using tree_kids [OF phys_tree [OF ok]] by auto
      show "r \<in> kids (k_par k) x" using r by (simp add: consults_def)
      show "a \<in> kids (k_par k) x" "b \<in> kids (k_par k) x" using ab by (simp_all add: consults_def G)
      show "a \<noteq> r" "b \<noteq> r" using ab new by (auto simp: consults_def k_ent_put)
    qed
    then show "tree_ok (k_par ?k2) (k_br ?k2) (upd_ent x i (Some (Unique f n)) (k_ent ?k2))"
      using br by (intro tree_restate [OF phys_tree [OF I(1)] s2]) (auto simp: G)
    show "frame_ok ?k2 (Unique f n)" using phys_frame [OF I(1) s2] phys_frame [OF ok s] n g G(4) s
      by (auto simp: frame_ok_def grown_def unowned_def)
    show "x < km_next ?k2"
      using entry_in_use [OF phys_store [OF I(1)], of x i] k_ent_None [OF phys_store [OF I(1)], of x i] s2 by auto
  qed
  moreover have "displays contents k y j bs \<Longrightarrow> displays contents (put_entry x i fu ?k2) y j bs" for y j bs
    using restate_views [OF s2 u] I(2) by simp
  moreover have "stable k (put_entry x i fu k1) x"
    by (rule grown_put_stable [OF g])
  ultimately show ?thesis
    using br by (simp add: commit_post_def keeps_views_def put_entry_twist [OF rx] G info_new_def)
qed

lemma move_post:
  assumes ok: "phys_ok k" and s: "k_ent k x i = Some (Unique f len)" and r: "consults (k_par k) (k_br k) (k_ent k) r x i"
    and t: "fi_state fi = Some (Shared f len)"
  shows "commit_post contents k (set_frames x (AList.delete i (ph_frames (km_phys k x))) k) x r i write (CUnique fi)"
proof -
  let ?k1 = "set_frames x (AList.delete i (ph_frames (km_phys k x))) k"
  let ?k2 = "put_entry r i fi ?k1"
  note R = consults_in_use [OF phys_store [OF ok] r] and T = phys_tree [OF ok]
  have ent: "k_ent ?k2 = upd_ent r i (Some (Shared f len)) (upd_ent x i None (k_ent k))"
    by (simp add: k_ent_put k_ent_delete t)
  have br: "k_br k x" using tree_unique(1) [OF T s] .
  have st: "store_ok ?k1" by (rule store_ok_delete [OF phys_store [OF ok]])
  have "phys_ok ?k2"
  proof (rule phys_okI)
    show "tree_ok (k_par ?k2) (k_br ?k2) (k_ent ?k2)" using tree_move [OF T s r] by (simp add: ent)
    show "store_ok ?k2" using store_ok_put [OF st, of fi r i] R(1) t by simp
    show "heap_ok ?k2" using phys_heap [OF ok] by simp
    show "frame_ok ?k2 u" if "k_ent ?k2 y j = Some u" for y j u
      using that phys_frame [OF ok s] phys_frame [OF ok, of y j u]
      by (auto simp: ent upd_ent_apply frame_ok_def split: if_splits)
  qed
  moreover have "displays contents ?k2 y j bs" if "\<not> k_br k y" "displays contents k y j bs" for y j bs
    using sees_move [OF T s r, of "km_bytes k" _ y j bs] needs.leaf [of "k_br k" y] br that by (auto simp: displays_def ent)
  then have "keeps_views contents k ?k2" by (simp add: keeps_views_def)
  moreover have "stable k ?k1 x"
    using above.self [of "k_par k" x] by (auto simp: stable_def mem_kept_def intro!: set_frames_simps)
  ultimately show ?thesis using br t by (simp add: commit_post_def)
qed

lemma leaf_shared:
  assumes "phys_ok k" and "\<not> k_br k x" and "k_ent k x i = Some s"
  obtains f len where "s = Shared f len"
  using assms tree_unique(1) [OF phys_tree [OF assms(1)], of x i] by (cases s) auto

lemma info_get_leaf:
  assumes ok: "phys_ok k" and e: "map_of (ph_frames (km_phys k x)) i = Some fi" and w: "write_ok write cow" and br: "\<not> k_br k x"
  shows "\<exists>k' c. info_get k x False i fi write cow = Returns (k', Inr c) \<and> commit_post contents k k' x r i write c"
proof -
  have "fi_state fi \<noteq> None" using phys_store [OF ok] e by (auto simp: store_ok_def)
  then obtain s where s: "k_ent k x i = Some s" using k_ent_Some [OF e] by auto
  then obtain f len where sh: "s = Shared f len" using leaf_shared [OF ok br] by blast
  let ?len = "max_len len write" and ?fi = "fi\<lparr>fi_dirty := fi_dirty fi \<or> write \<noteq> None, fi_state := Some (Shared f (max_len len write))\<rparr>"
  have "info_get k x False i fi write cow = Returns (put_entry x i ?fi k, Inr (CShared f ?len))"
    using br s sh k_ent_Some [OF e] by (simp add: info_get_def k_br_def info_leaf_def put_entry_def Let_def)
  moreover have "page_bytes_ok (km_bytes k f) ?len"
    using phys_frame [OF ok s] sh w by (intro max_len_ok) (simp_all add: frame_ok_def)
  then have "commit_post contents k (put_entry x i ?fi k) x r i write (CShared f ?len)"
    using restate_post [OF ok s, of ?fi ?len "write" contents r] sh br by simp
  ultimately show ?thesis by blast
qed

lemma info_get_branch:
  assumes ok: "phys_ok k" and e: "map_of (ph_frames (km_phys k x)) i = Some fi" and w: "write_ok write cow" and br: "k_br k x"
    and r: "consults (k_par k) (k_br k) (k_ent k) r x i"
  shows "\<exists>k' res. info_get k x False i fi write cow = Returns (k', res) \<and> commit_done derr contents k k' x r i write res"
proof -
  have "fi_state fi \<noteq> None" using phys_store [OF ok] e by (auto simp: store_ok_def)
  then obtain s where s: "k_ent k x i = Some s" using k_ent_Some [OF e] by auto
  have fi: "fi_state fi = Some s" using s k_ent_Some [OF e] by simp
  have pb: "ph_branch (km_phys k x)" using br by (simp add: k_br_def)
  consider (move) f len where "s = Unique f len" | (share) f len where "s = Shared f len" "write = None"
    | (copy) f len l where "s = Shared f len" "write = Some l" by (cases s; cases "write") auto
  then show ?thesis
  proof cases
    case move
    let ?fi = "\<lparr>fi_state = Some (Shared f len), fi_dirty = fi_dirty fi\<rparr>"
    have "info_get k x False i fi write cow =
        Returns (set_frames x (AList.delete i (ph_frames (km_phys k x))) k, Inr (CUnique ?fi))"
      using pb fi move by (simp add: info_get_def info_branch_def Let_def)
    then show ?thesis using move_post [OF ok s [unfolded move] r, of ?fi] by simp
  next
    case share
    let ?fi = "fi\<lparr>fi_state := Some (Shared f len)\<rparr>"
    have "info_get k x False i fi write cow = Returns (put_entry x i ?fi k, Inr (CShared f len))"
      using pb fi share by (simp add: info_get_def info_branch_def put_entry_def Let_def)
    then show ?thesis
      using restate_post [OF ok s, of ?fi len "write" contents r] phys_frame [OF ok s] share by (simp add: frame_ok_def)
  next
    case copy
    let ?n = "max len l" and ?fi = "fi\<lparr>fi_state := Some (Unique f (max len l))\<rparr>"
    have n: "page_bytes_ok (km_bytes k (st_frame s)) ?n"
      using max_len_ok [of _ len "write" cow] phys_frame [OF ok s] copy w by (simp add: frame_ok_def max_len_def)
    have cow using w copy by (simp add: write_ok_def)
    then show ?thesis
    proof (cases rule: frame_copy_cases [OF ok phys_frame [OF ok s] n, where contents = contents, case_names oom got])
      case oom
      then show ?thesis using pb fi copy \<open>cow\<close> by (simp add: info_get_def info_branch_def Let_def)
    next
      case (got k1 g)
      have "info_get k x False i fi write cow = Returns (put_entry x i ?fi k1, Inr (CUnique (info_new g ?n)))"
        using pb fi copy \<open>cow\<close> got by (simp add: info_get_def info_branch_def put_entry_def grown_def Let_def)
      then show ?thesis using copy_post [OF ok s [unfolded copy(1)] r _ _ br, of contents k1 g ?n ?fi "write"] n got(2) copy(1) by simp
    qed
  qed
qed

lemma info_get_post:
  assumes "phys_ok k" and "map_of (ph_frames (km_phys k x)) i = Some fi" and "write_ok write cow"
    and "k_br k x \<longrightarrow> consults (k_par k) (k_br k) (k_ent k) r x i"
  shows "\<exists>k' res. info_get k x False i fi write cow = Returns (k', res) \<and> commit_done derr contents k k' x r i write res"
proof (cases "k_br k x")
  case True
  with info_get_branch [OF assms(1-3)] assms(4) show ?thesis by blast
next
  case False
  from info_get_leaf [OF assms(1-3) False, of contents r] show ?thesis by auto
qed

text \<open>A new entry is handled like one that was stored before, except that it is lost when the lookup fails.\<close>

lemma set_frames_twice [simp]: "set_frames x fs (set_frames x fs' k) = set_frames x fs k"
  by (simp add: set_frames_def)

lemma frame_copy_set_frames:
  "frame_copy (set_frames x fs k) f n =
    (case frame_copy k f n of Panics \<Rightarrow> Panics | Returns (k, r) \<Rightarrow> Returns (set_frames x fs k, r))"
  by (auto simp: frame_copy_def frame_new_def set_frames_def Let_def split: option.splits)

lemma frame_copy_phys: "frame_copy k f n = Returns (k', r) \<Longrightarrow> km_phys k' = km_phys k"
  by (auto simp: frame_copy_def frame_new_def Let_def split: option.splits if_splits)

lemma info_get_new:
  assumes st: "fi_state fi = Some (Shared f len)"
  shows "info_get (put_entry x i fi k) x False i fi write cow = Returns (k', Inr c) \<Longrightarrow>
      info_get k x True i fi write cow = Returns (k', Inr c)"
    and "info_get (put_entry x i fi k) x False i fi write cow = Returns (k', Inl e) \<Longrightarrow>
      \<exists>k''. info_get k x True i fi write cow = Returns (k'', Inl e) \<and> free_frames k'' = free_frames k'"
proof -
  let ?fs = "AList.update i fi (ph_frames (km_phys k x))"
  have "(case info_get (put_entry x i fi k) x False i fi write cow of
      Panics \<Rightarrow> True | Returns (k', Inr c) \<Rightarrow> info_get k x True i fi write cow = Returns (k', Inr c)
    | Returns (k', Inl e) \<Rightarrow> \<exists>k''. info_get k x True i fi write cow = Returns (k'', Inl e) \<and> free_frames k'' = free_frames k')"
  proof (cases "ph_branch (km_phys k x) \<and> write \<noteq> None \<and> cow")
    case True
    then obtain l where l: "write = Some l" by auto
    show ?thesis
    proof (cases "frame_copy k f (max len l)")
      case (Returns kr)
      then show ?thesis using True st l
        by (cases kr; cases "snd kr") (auto simp: info_get_def info_branch_def put_entry_def frame_copy_set_frames Let_def)
    qed (use True st l in \<open>simp add: info_get_def info_branch_def put_entry_def frame_copy_set_frames Let_def\<close>)
  next
    case False
    then show ?thesis using st
      by (cases "write"; cases cow) (auto simp: info_get_def info_branch_def info_leaf_def put_entry_def Let_def)
  qed
  then show "info_get (put_entry x i fi k) x False i fi write cow = Returns (k', Inr c) \<Longrightarrow>
      info_get k x True i fi write cow = Returns (k', Inr c)"
    and "info_get (put_entry x i fi k) x False i fi write cow = Returns (k', Inl e) \<Longrightarrow>
      \<exists>k''. info_get k x True i fi write cow = Returns (k'', Inl e) \<and> free_frames k'' = free_frames k'" by auto
qed

text \<open>Storing a frame that makes the tree whole and looking it up at once.\<close>

lemma commit_post_trans:
  assumes "stable k k1 x" and "keeps_views contents k k1" and "commit_post contents k1 k' x r i write c"
  shows "commit_post contents k k' x r i write c"
proof -
  have "stable k k' x" using stable_trans [OF assms(1)] assms(3) by (simp add: commit_post_def)
  then show ?thesis using assms(2,3) keeps_views_trans [OF assms(2)]
    by (cases c) (auto simp: commit_post_def keeps_views_def)
qed

lemma stable_consults:
  assumes "phys_ok k" and "consults (k_par k) (k_br k) (k_ent k) r x i" and "stable k k' x"
  shows "consults (k_par k') (k_br k') (k_ent k') r x i"
  using consults_below [OF phys_tree [OF assms(1)] assms(2), of "k_par k'" "k_ent k'"] assms(3)
  by (simp add: stable_def k_par_def k_ent_def)

lemma insert_get_post:
  assumes none: "map_of (ph_frames (km_phys k1 x)) i = None" and st: "fi_state fi = Some (Shared f len)"
    and ok: "phys_ok (put_entry x i fi k1)" and v: "keeps_views contents k (put_entry x i fi k1)"
    and s: "stable k (put_entry x i fi k1) x" and w: "write_ok write cow"
    and r: "k_br k x \<longrightarrow> consults (k_par k) (k_br k) (k_ent k) r x i" and ok0: "phys_ok k"
  shows "\<exists>k' res. try_insert_get k1 x i fi write cow = Returns (k', res) \<and> commit_done derr contents k k' x r i write res"
proof -
  let ?k = "put_entry x i fi k1"
  have e: "map_of (ph_frames (km_phys ?k x)) i = Some fi" by (simp add: map_of_put)
  have "k_br ?k x \<longrightarrow> consults (k_par ?k) (k_br ?k) (k_ent ?k) r x i"
    using stable_consults [OF ok0 _ s] r s by (auto simp: stable_def)
  from info_get_post [OF ok e w this] obtain k' res
    where get: "info_get ?k x False i fi write cow = Returns (k', res)" "commit_done derr contents ?k k' x r i write res"
    by blast
  have "try_insert_get k1 x i fi write cow = info_get k1 x True i fi write cow" using none by (simp add: try_insert_get_def)
  then show ?thesis
    using info_get_new [OF st, of x i k1 "write" cow k'] get commit_post_trans [OF s v, of k' r i "write"]
    by (cases res) auto
qed

section \<open>Merging with a parent\<close>

lemma has_parent_iff: "has_parent k p x \<longleftrightarrow> x \<in> kids (k_par k) p"
proof (cases "ph_parent (km_phys k x)")
  case (Some pp)
  then show ?thesis by (cases pp) (auto simp: has_parent_def kids_def k_par_def)
qed (simp add: has_parent_def kids_def k_par_def)

lemma phys_refs_card: "store_ok k \<Longrightarrow> phys_refs k p = card (kids (k_par k) p)"
proof -
  assume ok: "store_ok k"
  have "phys_refs k p = card (set (filter (has_parent k p) [0..<km_next k]))"
    unfolding phys_refs_def by (rule distinct_card [symmetric]) simp
  also have "set (filter (has_parent k p) [0..<km_next k]) = kids (k_par k) p"
    using parent_in_use [OF ok] by (auto simp: has_parent_iff) (auto simp: kids_def)
  finally show ?thesis .
qed

lemma adopt_frames_lookup:
  "map_of (adopt_frames new fs) i = (case map_of fs i of Some fi \<Rightarrow> Some fi | None \<Rightarrow> map_of new i)"
proof (induction new arbitrary: fs)
  case (Cons a new)
  obtain j fi where a: "a = (j, fi)" by force
  let ?fs = "if map_of fs j = None then AList.update j fi fs else fs"
  have step: "adopt_frames (a # new) fs = adopt_frames new ?fs" by (simp add: adopt_frames_def a)
  have "map_of ?fs i = (if i = j \<and> map_of fs j = None then Some fi else map_of fs i)" by (simp add: update_conv')
  then show ?case unfolding step Cons.IH by (auto simp: a split: option.splits)
qed (simp add: adopt_frames_def split: option.splits)

lemma inherited_lookup: "map_of (inherited 0 None fs) i = map_option info_share (map_of fs i)"
  by (induction fs) (auto simp: inherited_def map_filter_def)

lemma info_share_state: "fi_state (info_share fi) = map_option (\<lambda>s. Shared (st_frame s) (st_len s)) (fi_state fi)"
  by (auto simp: info_share_def split: option.splits frame_state.splits)

lemma merge_once_tree:
  assumes ok: "phys_ok k" and m: "merge_once k x = Some k'"
  shows "\<exists>p. k_par k x = Some (PPhys p 0 None) \<and> kids (k_par k) p = {x} \<and> x \<noteq> p \<and>
    k_par k' = merged_par x p (k_par k) \<and> k_ent k' = merged_ent x p (k_ent k) \<and> k_br k' = k_br k \<and>
    (\<forall>y. y \<noteq> x \<longrightarrow> y \<noteq> p \<longrightarrow> km_phys k' y = km_phys k y) \<and> k' = k\<lparr>km_phys := km_phys k'\<rparr> \<and>
    (\<forall>y i fi. map_of (ph_frames (km_phys k' y)) i = Some fi \<longrightarrow> fi_state fi \<noteq> None)"
proof -
  from m obtain p start fin where p: "k_par k x = Some (PPhys p start fin)" and refs: "phys_refs k p = 1"
    by (auto simp: merge_once_def k_par_def split: option.splits phys_parent.splits if_splits)
  have w: "start = 0" "fin = None" using tree_parent [OF phys_tree [OF ok] p] by auto
  have "x \<in> kids (k_par k) p" using p by (auto simp: kids_def)
  then have sole: "kids (k_par k) p = {x}"
    using refs phys_refs_card [OF phys_store [OF ok]] by (auto simp: card_1_singleton_iff)
  have xp: "x \<noteq> p" using not_above_parent [OF phys_tree [OF ok] p] above.self by metis
  let ?x = "(km_phys k x)\<lparr>ph_frames := adopt_frames (inherited 0 None (ph_frames (km_phys k p))) (ph_frames (km_phys k x)),
      ph_parent := map_option (parent_moved 0 None) (ph_parent (km_phys k p))\<rparr>"
  have k': "k' = k\<lparr>km_phys := (km_phys k)(p := (km_phys k p)\<lparr>ph_frames := [], ph_parent := None\<rparr>, x := ?x)\<rparr>"
    using m p w refs by (simp add: merge_once_def k_par_def Let_def)
  show ?thesis
  proof (intro exI [of _ p] conjI)
    show "k_par k' = merged_par x p (k_par k)"
      using xp by (intro ext) (simp add: k' k_par_def merged_par_def)
    show "k_ent k' = merged_ent x p (k_ent k)"
    proof (intro ext)
      fix y i
      show "k_ent k' y i = merged_ent x p (k_ent k) y i"
        using xp k_ent_None [OF phys_store [OF ok], of x i]
        by (auto simp: k' k_ent_def merged_ent_def adopt_frames_lookup inherited_lookup info_share_state
            split: option.splits bind_splits)
    qed
    show "k_br k' = k_br k" by (intro ext) (simp add: k' k_br_def)
    have "fi_state fi \<noteq> None" if "map_of (ph_frames (km_phys k y)) i = Some fi" for y i fi
      using phys_store [OF ok] that by (auto simp: store_ok_def)
    then show "\<forall>y i fi. map_of (ph_frames (km_phys k' y)) i = Some fi \<longrightarrow> fi_state fi \<noteq> None"
      by (auto simp: k' adopt_frames_lookup inherited_lookup info_share_state split: option.splits)
  qed (use p w sole xp in \<open>simp_all add: k'\<close>)
qed

lemma merge_once_ok:
  assumes ok: "phys_ok k" and m: "merge_once k x = Some k'" and d: "depth (k_par k) x n"
  shows "phys_ok k'" and "keeps_views contents k k'" and "stable k k' x" and "\<exists>m < n. depth (k_par k') x m"
proof -
  obtain p where p: "k_par k x = Some (PPhys p 0 None)" "kids (k_par k) p = {x}" "x \<noteq> p"
    "k_par k' = merged_par x p (k_par k)" "k_ent k' = merged_ent x p (k_ent k)" "k_br k' = k_br k"
    "\<forall>y. y \<noteq> x \<longrightarrow> y \<noteq> p \<longrightarrow> km_phys k' y = km_phys k y" "k' = k\<lparr>km_phys := km_phys k'\<rparr>"
    "\<forall>y i fi. map_of (ph_frames (km_phys k' y)) i = Some fi \<longrightarrow> fi_state fi \<noteq> None"
    using merge_once_tree [OF ok m] by blast
  note T = phys_tree [OF ok]
  have state: "km_arena k' = km_arena k" "km_mem k' = km_mem k" "km_bytes k' = km_bytes k" "km_zero k' = km_zero k"
    "km_next k' = km_next k" "km_io k' = km_io k" "km_tlb k' = km_tlb k" by (subst p(8); simp)+
  have free: "free_frames k' = free_frames k" by (simp add: free_frames_def state)
  show "phys_ok k'"
  proof (rule phys_okI)
    show "tree_ok (k_par k') (k_br k') (k_ent k')" using tree_merge [OF T p(1,2)] by (simp only: p(4-6))
    have "x < km_next k" using parent_in_use [OF phys_store [OF ok] p(1)] .
    moreover have "p < km_next k" using phys_store [OF ok] p(1) unfolding store_ok_def by blast
    ultimately show "store_ok k'" using p(7,9) phys_store [OF ok] merged_par_apply [OF T p(3)]
      unfolding store_ok_def state(5) by (auto simp: p(4) split: if_splits)
    show "heap_ok k'" using phys_heap [OF ok] by (simp add: heap_ok_def state free)
    show "frame_ok k' s" if "k_ent k' y i = Some s" for y i s
      using that phys_frame [OF ok, of y i s] phys_frame [OF ok, of p i]
      by (auto simp: p(5) merged_ent_apply [OF p(3)] frame_ok_def state free split: if_splits)
  qed
  have "displays contents k' y j bs" if "\<not> k_br k y" "displays contents k y j bs" for y j bs
  proof -
    have "y \<noteq> p" using that(1) tree_parent [OF T p(1)] by auto
    from sees_merge [OF T p(1,2) this] that(2) show ?thesis by (simp add: displays_def p(4,5) state)
  qed
  then show "keeps_views contents k k'" by (simp add: keeps_views_def p(6))
  have "above (k_par k) x p" using p(1) above.self above.step by metis
  then have "y \<noteq> x \<and> y \<noteq> p" if "\<not> above (k_par k) x y" for y using that above.self [of "k_par k" x] by auto
  then show "stable k k' x"
    using p(6,7) state merge_above [OF T p(1), of x] by (simp add: stable_def p(4) mem_kept_def)
  show "\<exists>m < n. depth (k_par k') x m" using merge_depth [OF T p(1) d] by (simp add: p(4))
qed

text \<open>The loop over sole parents ends, since each round takes an object off the path to the root.\<close>

lemma merge_sole_parent_ok:
  assumes "phys_ok k" and "depth (k_par k) x n"
  shows "\<exists>k1. merge_sole_parent f k x = Some (k1, f k1) \<and> phys_ok k1 \<and> keeps_views contents k k1 \<and> stable k k1 x \<and>
    (\<exists>m \<le> n. depth (k_par k1) x m)"
  using assms
proof (induction n arbitrary: k rule: less_induct)
  case (less n)
  show ?case
  proof (cases "merge_once k x")
    case None
    then show ?thesis using less.prems by (subst merge_sole_parent.simps) (auto simp: keeps_views_def stable_def mem_kept_same)
  next
    case (Some k1)
    note M = merge_once_ok [OF less.prems(1) Some less.prems(2)]
    then obtain m where m: "m < n" "depth (k_par k1) x m" by blast
    show ?thesis
    proof (cases "f k1")
      case None
      with Some have "merge_sole_parent f k x = merge_sole_parent f k1 x" by (subst merge_sole_parent.simps) simp
      moreover from less.IH [OF m(1) M(1) m(2)] obtain k2 where k2: "merge_sole_parent f k1 x = Some (k2, f k2)" "phys_ok k2"
        "keeps_views contents k1 k2" "stable k1 k2 x" "\<exists>m' \<le> m. depth (k_par k2) x m'"
        by blast
      moreover have "stable k k2 x" by (rule stable_trans [OF M(3) k2(4)])
      moreover have "\<exists>m' \<le> n. depth (k_par k2) x m'" using k2(5) m(1) less_imp_le order_trans by blast
      ultimately show ?thesis using keeps_views_trans [OF M(2) k2(3)] by auto
    next
      case f: (Some r)
      with Some have "merge_sole_parent f k x = Some (k1, f k1)" by (subst merge_sole_parent.simps) simp
      then show ?thesis using M m less_imp_le by blast
    qed
  qed
qed

section \<open>Pages of a backend\<close>

definition device_error :: "(nat \<Rightarrow> 's io_ops) \<Rightarrow> error \<Rightarrow> bool" where
  "device_error dev e \<longleftrightarrow> (\<exists>b s offset bufs s' bufs'. io_read_at (dev b) s offset bufs = (s', bufs', Inl e))"

text \<open>Devices that do not disturb each other.\<close>

locale backends =
  fixes dev :: "nat \<Rightarrow> 's io_ops" and contents :: "nat \<Rightarrow> 's \<Rightarrow> u8 list" and patience :: "nat \<Rightarrow> 's \<Rightarrow> nat"
  assumes device: "io_device (dev b) (contents b) (patience b)"
    and separate: "io_read_at (dev b) s offset bufs = (s', bufs', r) \<Longrightarrow> b' \<noteq> b \<Longrightarrow> contents b' s' = contents b' s"
begin

lemma read_contents:
  assumes "io_read_at (dev b) s offset [buf] = (s', bufs, r)" and "buf \<noteq> []"
  shows "contents b' s' = contents b' s"
proof (cases "b' = b")
  case True
  then show ?thesis
    using io_device.read_at [OF device assms] io_device.read_at_end [OF device assms] by (metis not_le_imp_less)
qed (rule separate [OF assms(1)])

lemma page_read_loop_step:
  assumes call: "io_read_at (dev b) s offset [buffer] = (s1, bufs, Inr n)" and ne: "buffer \<noteq> []"
    and inside: "unat offset < length (contents b s)"
  shows "page_read_loop (dev b) s offset buffer read_len filled =
      page_read_loop (dev b) s1 (offset + n) (drop (unat n) buffer) (read_len + n)
        (filled @ slice_at (unat offset) (unat n) (contents b s))"
    and "0 < unat n" "unat n \<le> length buffer" "unat (offset + n) = unat offset + unat n" "unat offset + unat n \<le> length (contents b s)"
proof -
  from io_device.read_at [OF device call ne inside] show n: "0 < unat n" "unat n \<le> length buffer"
    "unat offset + unat n \<le> length (contents b s)" by auto
  then show "unat (offset + n) = unat offset + unat n" by (intro io_device.offset_add [OF device])
  have bufs: "bufs = [slice_at (unat offset) (unat n) (contents b s) @ drop (unat n) buffer]"
    using io_device.read_at [OF device call ne inside] by auto
  have "length (slice_at (unat offset) (unat n) (contents b s)) = unat n" using n(3) by simp
  then show "page_read_loop (dev b) s offset buffer read_len filled =
      page_read_loop (dev b) s1 (offset + n) (drop (unat n) buffer) (read_len + n)
        (filled @ slice_at (unat offset) (unat n) (contents b s))"
    using call ne n bufs by (subst page_read_loop.simps) (auto simp: unat_gt_0)
qed

lemma page_read_loop_ok:
  assumes "unat read_len + length buffer < 2 ^ 64"
  shows "\<exists>s' bytes res. page_read_loop (dev b) s offset buffer read_len filled = Some (Returns ((s', bytes), res)) \<and>
    (\<forall>b'. contents b' s' = contents b' s) \<and> (\<forall>e. res = Inl e \<longrightarrow> device_error dev e) \<and>
    (\<forall>len. res = Inr len \<longrightarrow>
      (let n = min (length buffer) (length (contents b s) - unat offset) in
       unat len = unat read_len + n \<and> bytes = filled @ slice_at (unat offset) n (contents b s) @ drop n buffer))"
  using assms
proof (induction "length buffer" arbitrary: s offset buffer read_len filled rule: less_induct)
  case less
  obtain s1 bufs r where call: "io_read_at (dev b) s offset [buffer] = (s1, bufs, r)" by (metis prod_cases3)
  consider (empty) "buffer = []" | (error) e where "buffer \<noteq> []" "r = Inl e"
    | (outside) n where "buffer \<noteq> []" "r = Inr n" "length (contents b s) \<le> unat offset"
    | (inside) n where "buffer \<noteq> []" "r = Inr n" "unat offset < length (contents b s)"
    by (cases r) (auto simp: not_less [symmetric])
  then show ?case
  proof cases
    case empty
    then show ?thesis by (subst page_read_loop.simps) (simp add: succeed_def slice_at_def)
  next
    case error
    have "device_error dev e" unfolding device_error_def using call error(2) by blast
    then show ?thesis using error call read_contents [OF call] by (subst page_read_loop.simps) (simp add: failwith_def)
  next
    case outside
    then have "bufs = [buffer]" "n = 0" using io_device.read_at_end [OF device call] by auto
    then show ?thesis
      using outside call read_contents [OF call] by (subst page_read_loop.simps) (simp add: succeed_def slice_at_def)
  next
    case inside
    note step = page_read_loop_step [OF call [unfolded inside(2)] inside(1,3)]
    have keep: "contents b' s1 = contents b' s" for b' by (rule read_contents [OF call inside(1)])
    have rl: "unat (read_len + n) = unat read_len + unat n"
      using less.prems step(3) by (intro unat_add_no_overflow) simp
    define m where "m = min (length (drop (unat n) buffer)) (length (contents b s1) - unat (offset + n))"
    have N: "min (length buffer) (length (contents b s) - unat offset) = unat n + m"
      using step keep [of b] by (simp add: m_def)
    have "length (drop (unat n) buffer) < length buffer" using step(2,3) by simp
    moreover have "unat (read_len + n) + length (drop (unat n) buffer) < 2 ^ 64" using less.prems step(3) rl by simp
    ultimately obtain s' bytes res where IH:
      "page_read_loop (dev b) s offset buffer read_len filled = Some (Returns ((s', bytes), res))"
      "\<forall>b'. contents b' s' = contents b' s1" "\<forall>e. res = Inl e \<longrightarrow> device_error dev e"
      "\<forall>len. res = Inr len \<longrightarrow> unat len = unat (read_len + n) + m \<and>
        bytes = (filled @ slice_at (unat offset) (unat n) (contents b s)) @
          slice_at (unat (offset + n)) m (contents b s1) @ drop m (drop (unat n) buffer)"
      using less.hyps [of "drop (unat n) buffer" "read_len + n" s1 "offset + n" "filled @ slice_at (unat offset) (unat n) (contents b s)"]
      unfolding step(1) Let_def m_def [symmetric] by blast
    have "slice_at (unat offset) (unat n + m) (contents b s) =
        slice_at (unat offset) (unat n) (contents b s) @ slice_at (unat (offset + n)) m (contents b s1)"
      unfolding step(4) keep by (rule slice_append [symmetric])
    then show ?thesis using IH keep rl unfolding N Let_def by (auto simp: add_ac)
  qed
qed

lemma read_backend_cases:
  assumes ok: "phys_ok k"
  obtains k' e where "read_backend dev k b i = Some (Returns (k', Inl e))" "e = ENOMEM \<and> free_frames k' = {} \<or> device_error dev e"
  | k' f len where "read_backend dev k b i = Some (Returns (k', Inr (info_new f len)))"
      "grown contents k k' f (page_at (contents b (km_io k)) i)" "page_bytes_ok (page_at (contents b (km_io k)) i) len"
proof (rule frame_new_cases [OF phys_heap [OF ok], where contents = contents])
  assume "frame_new k = Returns (k, Inl ENOMEM)" "free_frames k = {}"
  then show thesis by (intro that(1) [of k ENOMEM]) (simp_all add: read_backend_def failwith_def)
next
  fix k1 f assume new: "frame_new k = Returns (k1, Inr f)" and G: "grown contents k k1 f zero_page_bytes"
    and k1: "k1 = k\<lparr>km_arena := km_arena k1, km_mem := km_mem k1, km_bytes := km_bytes k1\<rparr>"
  let ?O = "unat (push_bit PAGE_SHIFT i)" and ?cs = "contents b (km_io k)"
  define n where "n = min 4096 (length ?cs - ?O)"
  have io: "km_io k1 = km_io k" by (subst k1) simp
  have z: "km_bytes k1 f = zero_page_bytes" "length zero_page_bytes = 4096" using G by (simp_all add: grown_def zero_page_bytes_def)
  obtain s' bytes res where L:
    "page_read_loop (dev b) (km_io k) (push_bit PAGE_SHIFT i) zero_page_bytes 0 [] = Some (Returns ((s', bytes), res))"
    "\<forall>b'. contents b' s' = contents b' (km_io k)"
    "\<forall>e. res = Inl e \<longrightarrow> device_error dev e"
    "\<forall>len. res = Inr len \<longrightarrow> unat len = n \<and> bytes = slice_at ?O n ?cs @ drop n zero_page_bytes"
    using page_read_loop_ok [of 0 zero_page_bytes b "km_io k" "push_bit PAGE_SHIFT i" "[]"] z(2)
    by (auto simp: Let_def n_def)
  show thesis
  proof (cases res)
    case (Inl e)
    then show thesis
      using new L(1,3) io z(1) by (intro that(1) [OF _ disjI2]) (simp_all add: read_backend_def failwith_def)
  next
    case (Inr len)
    let ?k = "k1\<lparr>km_io := s', km_bytes := (km_bytes k1)(f := bytes)\<rparr>"
    have "bytes = page_at ?cs i"
      using L(4) Inr by (simp add: page_at_def slice_at_def n_def zero_page_bytes_def min_def)
    moreover have "page_bytes_ok bytes len"
      using L(4) Inr by (simp add: page_bytes_ok_def n_def zero_page_bytes_def)
    moreover have "grown contents k ?k f bytes" using G L(2) by (auto simp: grown_def free_frames_def mem_kept_def)
    moreover have "read_backend dev k b i = Some (Returns (?k, Inr (info_new f len)))"
      using new L(1) io z(1) Inr by (simp add: read_backend_def succeed_def)
    ultimately show thesis using that(2) by blast
  qed
qed

section \<open>Commit\<close>

text \<open>A page that nothing above holds: from the allocator or from the backend.\<close>

lemma grown_get_post:
  assumes ok: "phys_ok k" and g: "grown contents k k1 f bs" and none: "k_ent k x i = None" and x: "x < km_next k"
    and d: "displays contents k x i bs" and len: "page_bytes_ok bs len" and w: "write_ok write cow"
    and r: "k_br k x \<longrightarrow> consults (k_par k) (k_br k) (k_ent k) r x i"
  shows "\<exists>k' res. try_insert_get k1 x i (info_new f len) write cow = Returns (k', res) \<and>
    commit_done (device_error dev) contents k k' x r i write res"
proof -
  have new: "fi_state (info_new f len) = Some (Shared f len)" by (simp add: info_new_def)
  note F = grown_frame [OF ok g] and I = grown_insert [OF ok g none x d len new]
  have "map_of (ph_frames (km_phys k1 x)) i = None"
    using k_ent_None [OF phys_store [OF F(6)], of x i] none F(3) by simp
  moreover have "keeps_views contents k (put_entry x i (info_new f len) k1)" using I(2) F(2) by (simp add: keeps_views_def)
  ultimately show ?thesis
    using insert_get_post [OF _ new I(1) _ grown_put_stable [OF g] w r ok] by blast
qed

lemma commit_fresh_post:
  assumes ok: "phys_ok k" and none: "k_ent k x i = None" and d: "displays contents k x i zero_page_bytes"
    and x: "write \<noteq> None \<longrightarrow> x < km_next k" and w: "write_ok write cow"
    and r: "k_br k x \<longrightarrow> consults (k_par k) (k_br k) (k_ent k) r x i"
  shows "\<exists>k' res. commit_fresh k x i write cow = Some (Returns (k', res)) \<and>
    commit_done (device_error dev) contents k k' x r i write res"
proof (cases "write")
  case None
  have "commit_post contents k k x r i None (CShared (km_zero k) 0)"
    using phys_heap [OF ok] d ok by (simp add: commit_post_def stable_def keeps_views_def heap_ok_def mem_kept_same)
  then show ?thesis using None by (simp add: commit_fresh_def succeed_def)
next
  case (Some l)
  then have l: "page_bytes_ok zero_page_bytes l" using w by (simp add: page_bytes_ok_def write_ok_def zero_page_bytes_def)
  from phys_heap [OF ok] show ?thesis
  proof (cases rule: frame_new_cases [where contents = contents, case_names oom got])
    case oom
    then show ?thesis using Some by (simp add: commit_fresh_def failwith_def)
  next
    case (got k1 f)
    then show ?thesis
      using Some grown_get_post [OF ok got(2) none _ d l w r] x by (simp add: commit_fresh_def)
  qed
qed

text \<open>What a lookup at the parent of \<open>x\<close> gives to \<open>x\<close>.\<close>

lemma stable_kid:
  assumes "k_par k x = Some (PPhys p start fin)" and "k_par k' x = Some (PPhys p start' fin')" and "stable k k' p"
  shows "stable k k' x"
proof -
  have "above (k_par k) x y" if "above (k_par k) p y" for y
    using above.step [of "k_par k" x p start fin, OF assms(1) that] .
  moreover have "above (k_par k) x y" if "above (k_par k') x y" for y
    using that
  proof (cases rule: above.cases)
    case (step q s e)
    then show ?thesis using assms above.step [of "k_par k" x p start fin, OF assms(1)] by (simp add: stable_def)
  qed (simp add: above.self)
  ultimately show ?thesis using assms(3) unfolding stable_def by blast
qed

lemma parent_shared_post:
  assumes ok: "phys_ok k" and p: "k_par k x = Some (PPhys p 0 None)" and none: "k_ent k x i = None"
    and post: "commit_post contents k k' p x i write (CShared f len)"
  shows "commit_post contents k k' x r i write (CShared f len)"
proof -
  have st: "stable k k' p" and ok': "phys_ok k'" and d: "displays contents k' p i (km_bytes k' f)"
    using post by (simp_all add: commit_post_def)
  have x: "km_phys k' x = km_phys k x" using st not_above_parent [OF phys_tree [OF ok] p] by (simp add: stable_def)
  then have x': "k_par k' x = Some (PPhys p 0 None)" "k_ent k' x i = None" using p none by (simp_all add: k_par_def k_ent_def)
  have "write = None" using post tree_parent [OF phys_tree [OF ok] p] by (auto simp: commit_post_def)
  moreover have "displays contents k' x i (km_bytes k' f)"
    using sees.up [of "k_ent k'" x i "k_par k'" p 0 None] x' d by (simp add: displays_def in_limit_def)
  moreover have "stable k k' x" by (rule stable_kid [OF p x'(1) st])
  ultimately show ?thesis using post by (simp add: commit_post_def)
qed

lemma parent_unique_post:
  assumes ok: "phys_ok k" and p: "k_par k x = Some (PPhys p 0 None)" and none: "k_ent k x i = None"
    and post: "commit_post contents k k' p x i write (CUnique fi)" and w: "write_ok write cow"
    and r: "k_br k x \<longrightarrow> consults (k_par k) (k_br k) (k_ent k) r x i"
  shows "\<exists>k2 res. try_insert_get k' x i fi write cow = Returns (k2, res) \<and> commit_done (device_error dev) contents k k2 x r i write res"
proof -
  have st: "stable k k' p" and ok': "phys_ok (put_entry x i fi k')" and v: "keeps_views contents k (put_entry x i fi k')"
    using post by (simp_all add: commit_post_def)
  obtain f len where f: "fi_state fi = Some (Shared f len)" using post by (auto simp: commit_post_def)
  have x: "km_phys k' x = km_phys k x" using st not_above_parent [OF phys_tree [OF ok] p] by (simp add: stable_def)
  then have x': "k_par k' x = Some (PPhys p 0 None)" using p by (simp add: k_par_def)
  have "map_of (ph_frames (km_phys k' x)) i = None" using none k_ent_None [OF phys_store [OF ok], of x i] x by simp
  moreover have "stable k (put_entry x i fi k') x" by (rule stable_trans [OF stable_kid [OF p x' st] stable_put])
  ultimately show ?thesis using insert_get_post [OF _ f ok' v _ w r ok] by blast
qed

lemma backend_post:
  assumes ok: "phys_ok k" and par: "k_par k x = Some (PBackend b)" and none: "k_ent k x i = None" and x: "x < km_next k"
    and w: "write_ok write cow" and r: "k_br k x \<longrightarrow> consults (k_par k) (k_br k) (k_ent k) r x i"
  shows "\<exists>k' res. obind (read_backend dev k b i) (\<lambda>k fi. Some (try_insert_get k x i fi write cow)) failwith = Some (Returns (k', res)) \<and>
    commit_done (device_error dev) contents k k' x r i write res"
proof (rule read_backend_cases [OF ok, of b i])
  fix k' e assume "read_backend dev k b i = Some (Returns (k', Inl e))" "e = ENOMEM \<and> free_frames k' = {} \<or> device_error dev e"
  then show ?thesis by (simp add: failwith_def)
next
  fix k2 f len assume "read_backend dev k b i = Some (Returns (k2, Inr (info_new f len)))"
    and g: "grown contents k k2 f (page_at (contents b (km_io k)) i)" "page_bytes_ok (page_at (contents b (km_io k)) i) len"
  moreover have "displays contents k x i (page_at (contents b (km_io k)) i)"
    using sees.backend [of "k_ent k" x i "k_par k" b] none par by (simp add: displays_def)
  ultimately show ?thesis using grown_get_post [OF ok g(1) none x _ g(2) w r] by auto
qed

lemma parent_post:
  assumes "phys_ok k" and "k_par k x = Some (PPhys p 0 None)" and "k_ent k x i = None"
    and w: "write_ok write cow" and r: "k_br k x \<longrightarrow> consults (k_par k) (k_br k) (k_ent k) r x i"
    and rec: "m = Some (Returns (k2, res))" "commit_done (device_error dev) contents k k2 p x i write res"
  shows "\<exists>k' res. obind m (\<lambda>k c. case c of CShared frame len \<Rightarrow> succeed k (CShared frame len)
      | CUnique fi \<Rightarrow> Some (try_insert_get k x i fi write cow)) failwith = Some (Returns (k', res)) \<and>
    commit_done (device_error dev) contents k k' x r i write res"
proof (cases res)
  case (Inl e)
  then show ?thesis using rec by (simp add: failwith_def)
next
  case (Inr c)
  with rec(2) have post: "commit_post contents k k2 p x i write c" by simp
  show ?thesis
  proof (cases c)
    case (CShared f len)
    then show ?thesis using rec(1) Inr parent_shared_post [OF assms(1-3)] post by (simp add: succeed_def)
  next
    case (CUnique fi)
    then show ?thesis using rec(1) Inr parent_unique_post [OF assms(1-3) post [unfolded CUnique] w r] by auto
  qed
qed

lemma commit_impl_post:
  assumes "phys_ok k" and "depth (k_par k) x n" and "x < km_next k"
    and "write_ok write (ph_cow (km_phys k x) \<or> cow0)" and "k_br k x \<longrightarrow> consults (k_par k) (k_br k) (k_ent k) r x i"
  shows "\<exists>k' res. commit_impl dev k x i write cow0 = Some (Returns (k', res)) \<and> commit_done (device_error dev) contents k k' x r i write res"
  using assms
proof (induction n arbitrary: k x r cow0 rule: less_induct)
  case (less n)
  define cow where "cow = (ph_cow (km_phys k x) \<or> cow0)"
  note w = less.prems(4) [folded cow_def]
  obtain k1 m where m: "merge_sole_parent (own_entry x i write cow) k x = Some (k1, own_entry x i write cow k1)" "phys_ok k1"
    "keeps_views contents k k1" "stable k k1 x" "m \<le> n" "depth (k_par k1) x m"
    using merge_sole_parent_ok [OF less.prems(1,2)] by blast
  note T = phys_tree [OF m(2)]
  have x: "x < km_next k1" using less.prems(3) m(4) by (simp add: stable_def)
  have r: "k_br k1 x \<longrightarrow> consults (k_par k1) (k_br k1) (k_ent k1) r x i"
    using less.prems(5) stable_consults [OF less.prems(1) _ m(4)] m(4) by (auto simp: stable_def)
  note unfold = commit_impl.simps [of dev k x i "write" cow0, folded cow_def, unfolded Let_def m(1)]
  have "\<exists>k' res. commit_impl dev k x i write cow0 = Some (Returns (k', res)) \<and>
    commit_done (device_error dev) contents k1 k' x r i write res"
  proof (cases "map_of (ph_frames (km_phys k1 x)) i")
    case (Some fi)
    then show ?thesis using info_get_post [OF m(2) Some w r, of "device_error dev" contents] unfolding unfold by (simp add: own_entry_def)
  next
    case None
    then have none: "k_ent k1 x i = None" and own: "own_entry x i write cow k1 = None" by (simp_all add: k_ent_def own_entry_def)
    consider (fresh) "k_par k1 x = None" | (backend) b where "k_par k1 x = Some (PBackend b)"
      | (parent) p where "k_par k1 x = Some (PPhys p 0 None)"
      using tree_parent [OF T, of x] by (cases "k_par k1 x"; cases "the (k_par k1 x)") auto
    then show ?thesis
    proof cases
      case fresh
      moreover from this have "displays contents k1 x i zero_page_bytes" using none by (simp add: displays_def sees.none)
      ultimately show ?thesis
        using commit_fresh_post [OF m(2) none _ _ w r] x own unfolding unfold by (simp add: k_par_def)
    next
      case backend
      then show ?thesis using backend_post [OF m(2) backend none x w r] own unfolding unfold by (simp add: k_par_def)
    next
      case parent
      have c: "consults (k_par k1) (k_br k1) (k_ent k1) x p i"
        using none parent r consults_needs [of "k_par k1" "k_br k1" "k_ent k1" r x i] needs.leaf [of "k_br k1" x]
        by (auto simp: consults_def kids_def)
      obtain m' where m': "m' < n" "depth (k_par k1) p m'" using depth_parent [OF m(6) parent] m(5) Suc_le_lessD by blast
      have p: "p < km_next k1" using phys_store [OF m(2)] parent unfolding store_ok_def by blast
      have w': "write_ok write (ph_cow (km_phys k1 p) \<or> cow)" using w by (cases "write") (simp_all add: write_ok_def)
      obtain k2 res where rec: "commit_impl dev k1 p i write cow = Some (Returns (k2, res))"
        "commit_done (device_error dev) contents k1 k2 p x i write res"
        using less.IH [OF m'(1) m(2) m'(2) p w'] c by blast
      from parent_post [OF m(2) parent none w r rec] show ?thesis
        using own parent unfolding unfold by (simp add: k_par_def in_limit_def)
    qed
  qed
  then obtain k' res where "commit_impl dev k x i write cow0 = Some (Returns (k', res))"
    "commit_done (device_error dev) contents k1 k' x r i write res" by blast
  then show ?case using commit_post_trans [OF m(4,3)] by (cases res) auto
qed

text \<open>A commit for a leaf returns; when it succeeds, every leaf still shows what it showed, and the frame has the page.\<close>

lemma phys_commit_ok:
  assumes ok: "phys_ok k" and x: "x < km_next k" "\<not> k_br k x" and w: "write_ok write (ph_cow (km_phys k x))"
  shows "\<exists>k' res. phys_commit dev k x i write = Some (Returns (k', res)) \<and>
    (\<forall>e. res = Inl e \<longrightarrow> e = ENOMEM \<and> free_frames k' = {} \<or> device_error dev e) \<and>
    (\<forall>f len. res = Inr (f, len) \<longrightarrow> phys_ok k' \<and> stable k k' x \<and> keeps_views contents k k' \<and> displays contents k' x i (km_bytes k' f) \<and>
      (write \<noteq> None \<longrightarrow> k_ent k' x i = Some (Shared f len)))"
proof -
  obtain n where "depth (k_par k) x n" using tree_depth [OF phys_tree [OF ok]] by blast
  from commit_impl_post [OF ok this x(1), of "write" "ph_cow (km_phys k x)" x i] w x(2) obtain k' res
    where c: "commit_impl dev k x i write (ph_cow (km_phys k x)) = Some (Returns (k', res))"
      "commit_done (device_error dev) contents k k' x x i write res" by auto
  have br: "\<not> ph_branch (km_phys k x)" using x(2) by (simp add: k_br_def)
  show ?thesis
  proof (cases res)
    case (Inl e)
    then show ?thesis using c br by (simp add: phys_commit_def failwith_def)
  next
    case (Inr cm)
    with c(2) have "commit_post contents k k' x x i write cm" by simp
    then show ?thesis using c(1) br Inr x(2)
      by (cases cm) (auto simp: phys_commit_def succeed_def commit_post_def k_br_def)
  qed
qed

end

end
