(* ===== verification/Phys_Properties.thy ===== *)
theory Phys_Properties
  imports Phys_Spec
begin

text \<open>
  Creating, cloning and writing memory objects: what the theory of commits gives to the users of an
  object, a bank of memory disks under the contract of backends, and the cases in which sharing goes wrong.
\<close>

section \<open>New objects\<close>





section \<open>Writing a page\<close>




section \<open>Clones\<close>




section \<open>A bank of disks and a first state\<close>



text \<open>A store without objects.\<close>

definition kmem_boot :: "arena \<Rightarrow> mem \<Rightarrow> paddr \<Rightarrow> 's \<Rightarrow> 's kmem" where
  "kmem_boot ar m zero s = \<lparr>km_arena = ar, km_mem = m, km_bytes = (\<lambda>_. replicate 4096 0), km_zero = zero,
    km_phys = (\<lambda>_. \<lparr>ph_branch = False, ph_parent = None, ph_frames = [], ph_position = 0, ph_cow = False, ph_flusher = None\<rparr>),
    km_next = 0, km_io = s, km_tlb = []\<rparr>"


text \<open>Two objects: an anonymous one and one backed by the first disk.\<close>

definition phys_example :: "(nat \<Rightarrow> small_disk) kmem" where
  "phys_example = fst (phys_with_backend
    (fst (phys_new (kmem_boot pt_example_arena pt_example_mem 0x1000 (\<lambda>_. disk_make [1, 2, 3] 0)) True)) 0 0 True)"


section \<open>Properties\<close>





text \<open>
  C39: Merging with a sole parent forgets the limit of that parent's own window. An object that has been cloned and
  whose clone is gone shows zeros behind the limit before the merge, and the pages of the object behind it afterwards.
\<close>

theorem merge_loses_limit:
  assumes x: "ph_parent (km_phys k x) = Some (PPhys b 0 None)" and sole: "phys_refs k b = 1"
    and b: "ph_parent (km_phys k b) = Some (PPhys q off (Some e))" and lim: "e - off \<le> i"
    and none: "map_of (ph_frames (km_phys k x)) i = None" "map_of (ph_frames (km_phys k b)) i = None"
    and q: "q \<noteq> x" "q \<noteq> b" "x \<noteq> b" "map_of (ph_frames (km_phys k q)) (off + i) = Some fi" "fi_state fi = Some s"
  shows "displays contents k x i zero_page_bytes \<and>
    (\<exists>k'. merge_once k x = Some k' \<and> displays contents k' x i (km_bytes k (st_frame s)))"
proof
  have "sees (k_par k) (k_ent k) (km_bytes k) (\<lambda>b. page_at (contents b (km_io k))) b i zero_page_bytes"
    using none(2) b lim by (intro sees.outside [of _ b i _ q off "Some e"]) (auto simp: k_ent_def k_par_def in_limit_def)
  then show "displays contents k x i zero_page_bytes"
    using sees.up [of "k_ent k" x i "k_par k" b 0 None] none(1) x by (simp add: displays_def k_ent_def k_par_def in_limit_def)
  obtain k' where k': "merge_once k x = Some k'" using x sole by (simp add: merge_once_def Let_def)
  have st: "k_par k' x = Some (PPhys q off None)" "k_ent k' x i = None" "k_ent k' q (off + i) = Some s" "km_bytes k' = km_bytes k"
    using k' x sole b none q
    by (auto simp: merge_once_def Let_def k_par_def k_ent_def parent_moved_def adopt_frames_lookup inherited_lookup)
  have "displays contents k' x i (km_bytes k (st_frame s))"
    using sees.up [of "k_ent k'" x i "k_par k'" q off None] sees.own [of "k_ent k'" q "off + i" s] st
    by (simp add: displays_def in_limit_def)
  then show "\<exists>k'. merge_once k x = Some k' \<and> displays contents k' x i (km_bytes k (st_frame s))" using k' by blast
qed

text \<open>Object 0 shows one page of object 1 from page 4 on, through a branch that a finished clone left behind.\<close>

definition window_example :: "(nat \<Rightarrow> small_disk) kmem" where
  "window_example = (let blank = \<lparr>ph_branch = False, ph_parent = None, ph_frames = [], ph_position = 0, ph_cow = True, ph_flusher = None\<rparr>
    in phys_example\<lparr>km_next := 3, km_bytes := (\<lambda>_. replicate 4096 7), km_phys := (\<lambda>_. blank)(
      0 := blank\<lparr>ph_parent := Some (PPhys 2 0 None)\<rparr>,
      1 := blank\<lparr>ph_frames := [(5, info_new 0x5000 4096)]\<rparr>,
      2 := blank\<lparr>ph_branch := True, ph_parent := Some (PPhys 1 4 (Some 5))\<rparr>)\<rparr>)"

theorem merge_loses_limit_witness:
  "displays (\<lambda>b s. disk_bytes (s b)) window_example 0 1 zero_page_bytes \<and>
    (\<exists>k'. merge_once window_example 0 = Some k' \<and> displays (\<lambda>b s. disk_bytes (s b)) k' 0 1 (replicate 4096 7))"
proof -
  have refs: "phys_refs window_example 2 = 1"
    by (simp add: window_example_def phys_refs_def has_parent_def upt_rec numeral_eq_Suc Let_def)
  have bytes: "km_bytes window_example (st_frame (Shared 0x5000 4096)) = replicate 4096 7"
    by (simp add: window_example_def Let_def)
  show ?thesis
    unfolding bytes [symmetric]
    by (rule merge_loses_limit [where b = 2 and q = 1 and off = 4 and e = 5 and fi = "info_new 0x5000 4096"])
      (use refs in \<open>simp_all add: window_example_def info_new_def Let_def\<close>)
qed




end
