(* ===== verification/Virt.thy ===== *)
theory Virt
  imports Phys PageTable Aslr
begin

text \<open>
  Address spaces (\<^verbatim>\<open>lib/kmem/src/virt.rs\<close> and \<^verbatim>\<open>lib/kmem/src/virt/tlb.rs\<close>): ranges of addresses that
  show parts of memory objects, realised by a page table on demand.

  An address space is a record; the operations pass it along with the store of memory objects, whose arena
  also provides the pages of the page table. The locks around the map and the table make each
  operation one step for other tasks. Fences for the translation caches are recorded in \<open>km_tlb\<close> in the order in
  which they are issued. A memory object that no mapping names any more is dropped. The hart that
  runs the operation is the argument \<open>hart\<close>, the random number generator a parameter.
\<close>

section \<open>State\<close>

record mapping =
  mp_phys :: nat
  mp_start_index :: usize
  mp_attr :: attr

record virt =
  vt_root :: laddr
  vt_map :: "(laddr, mapping) range_map"
  vt_cpu_mask :: usize

record commit_guard =
  cg_map :: bool
  cg_attr :: attr
  cg_range :: "(laddr \<times> usize) list"

definition ASLR_BIT :: u32 where "ASLR_BIT = 30"

section \<open>Translation caches\<close>

definition hart_bit :: "nat \<Rightarrow> usize" where "hart_bit hart = push_bit hart 1"

definition tlb_flush :: "nat \<Rightarrow> usize \<Rightarrow> laddr \<Rightarrow> usize \<Rightarrow> 's kmem \<Rightarrow> 's kmem" where
  "tlb_flush hart cpu_mask addr count k =
    (if count = 0 then k
     else
       let others = cpu_mask AND NOT (hart_bit hart);
         remote = (if others \<noteq> 0 then [RemoteSfence others addr (push_bit PAGE_SHIFT count)] else []);
         local = (if cpu_mask \<noteq> others then (if count = 1 then [SfenceVma addr] else [SfenceAll]) else [])
       in k\<lparr>km_tlb := km_tlb k @ remote @ local\<rparr>)"

text \<open>The address spaces the harts have loaded, and the register that holds the root of the table.\<close>

record hart_state =
  hs_cur :: "nat \<Rightarrow> nat option"
  hs_virts :: "nat \<Rightarrow> virt"
  hs_satp :: "nat \<Rightarrow> usize"
  hs_fences :: "nat \<Rightarrow> nat"

definition map_mask :: "(usize \<Rightarrow> usize) \<Rightarrow> nat \<Rightarrow> hart_state \<Rightarrow> hart_state" where
  "map_mask f v hs = hs\<lparr>hs_virts := (hs_virts hs)(v := (hs_virts hs v)\<lparr>vt_cpu_mask := f (vt_cpu_mask (hs_virts hs v))\<rparr>)\<rparr>"

definition load_satp :: "nat \<Rightarrow> paddr \<Rightarrow> hart_state \<Rightarrow> hart_state" where
  "load_satp hart paddr hs =
    hs\<lparr>hs_satp := (hs_satp hs)(hart := drop_bit PAGE_SHIFT paddr), hs_fences := (hs_fences hs)(hart := hs_fences hs hart + 1)\<rparr>"

definition set_virt :: "nat \<Rightarrow> nat \<Rightarrow> hart_state \<Rightarrow> hart_state" where
  "set_virt hart v hs =
    (let hs = map_mask (\<lambda>mask. mask OR hart_bit hart) v hs;
       old = hs_cur hs hart;
       hs = hs\<lparr>hs_cur := (hs_cur hs)(hart := Some v)\<rparr>
     in if old \<noteq> Some v then
          let hs = load_satp hart (to_paddr (vt_root (hs_virts hs v)) ID_OFFSET) hs in
          case old of Some old \<Rightarrow> map_mask (\<lambda>mask. mask AND NOT (hart_bit hart)) old hs | None \<Rightarrow> hs
        else hs)"

definition unset_virt :: "nat \<Rightarrow> paddr \<Rightarrow> hart_state \<Rightarrow> hart_state" where
  "unset_virt hart default_pt hs =
    (let old = hs_cur hs hart;
       hs = load_satp hart default_pt (hs\<lparr>hs_cur := (hs_cur hs)(hart := None)\<rparr>)
     in case old of Some old \<Rightarrow> map_mask (\<lambda>mask. mask AND NOT (hart_bit hart)) old hs | None \<Rightarrow> hs)"

section \<open>Mappings\<close>

text \<open>The indices and addresses that the loops of a mapping visit.\<close>

definition mapping_pages :: "mapping \<Rightarrow> laddr \<Rightarrow> usize \<Rightarrow> usize \<Rightarrow> (usize \<times> laddr) list" where
  "mapping_pages mp addr offset count =
    map (\<lambda>c. (of_nat c + mp_start_index mp + offset, addr + push_bit PAGE_SHIFT (of_nat c))) [0..<unat count]"

definition allowed :: "mapping \<Rightarrow> attr \<Rightarrow> bool" where
  "allowed mp expect_attr = attr_contains (mp_attr mp) (expect_attr OR USER_ACCESS)"

fun committed_pages :: "mem \<Rightarrow> laddr \<Rightarrow> mapping \<Rightarrow> attr \<Rightarrow> (usize \<times> laddr) list \<Rightarrow> error + bool" where
  "committed_pages m root mp expect_attr [] = Inr True"
| "committed_pages m root mp expect_attr ((_, addr) # pages) =
    (if \<not> allowed mp expect_attr then Inl EPERM
     else if \<not> (case la2pte m root addr ID_OFFSET of Inr p \<Rightarrow> is_set (read_pte m p) | Inl _ \<Rightarrow> False) then Inr False
     else committed_pages m root mp expect_attr pages)"

definition is_committed :: "mem \<Rightarrow> laddr \<Rightarrow> mapping \<Rightarrow> laddr \<Rightarrow> usize \<Rightarrow> attr \<Rightarrow> error + bool" where
  "is_committed m root mp addr count expect_attr =
    committed_pages m root mp expect_attr (mapping_pages mp addr 0 count)"

text \<open>
  In the two loops, \<open>faddr\<close> and \<open>fcount\<close> are the fields of the \<open>TlbFlushOnDrop\<close>: its destructor runs on
  every way out, and when the variable is assigned anew.
\<close>

fun commit_pages ::
  "(nat \<Rightarrow> 's io_ops) \<Rightarrow> nat \<Rightarrow> laddr \<Rightarrow> usize \<Rightarrow> mapping \<Rightarrow> attr \<Rightarrow> laddr \<Rightarrow> usize \<Rightarrow> (usize \<times> laddr) list \<Rightarrow> 's kmem \<Rightarrow> ('s kmem, unit) ores" where
  "commit_pages dev hart root cpu_mask mp expect_attr faddr fcount [] k = succeed (tlb_flush hart cpu_mask faddr fcount k) ()"
| "commit_pages dev hart root cpu_mask mp expect_attr faddr fcount ((index, addr) # pages) k =
    (if \<not> allowed mp expect_attr then failwith (tlb_flush hart cpu_mask faddr fcount k) EPERM
     else case la2pte_alloc arena_alloc root addr ID_OFFSET (km_arena k) (km_mem k) of
       (Inl e, a, m) \<Rightarrow> failwith (tlb_flush hart cpu_mask faddr fcount (k\<lparr>km_arena := a, km_mem := m\<rparr>)) (error_of_pt e)
     | (Inr p, a, m) \<Rightarrow> let k = k\<lparr>km_arena := a, km_mem := m\<rparr> in
        if \<not> is_set (read_pte m p) then
          obind (phys_commit dev k (mp_phys mp) index (if attr_contains (mp_attr mp) WRITABLE then Some PAGE_SIZE else None))
            (\<lambda>k (base, _). commit_pages dev hart root cpu_mask mp expect_attr faddr (fcount + 1) pages
              (k\<lparr>km_mem := write_pte (km_mem k) p (entry_new base (mp_attr mp) 0)\<rparr>))
            (\<lambda>k e. failwith (tlb_flush hart cpu_mask faddr fcount k) e)
        else commit_pages dev hart root cpu_mask mp expect_attr faddr fcount pages k)"

definition mapping_commit ::
  "(nat \<Rightarrow> 's io_ops) \<Rightarrow> nat \<Rightarrow> laddr \<Rightarrow> usize \<Rightarrow> mapping \<Rightarrow> laddr \<Rightarrow> usize \<Rightarrow> usize \<Rightarrow> attr \<Rightarrow> 's kmem \<Rightarrow> ('s kmem, unit) ores" where
  "mapping_commit dev hart root cpu_mask mp addr offset count expect_attr k =
    commit_pages dev hart root cpu_mask mp expect_attr addr 0 (mapping_pages mp addr offset count) k"

fun decommit_pages ::
  "(nat \<Rightarrow> 's io_ops) \<Rightarrow> nat \<Rightarrow> laddr \<Rightarrow> usize \<Rightarrow> nat \<Rightarrow> laddr \<Rightarrow> usize \<Rightarrow> (usize \<times> laddr) list \<Rightarrow> 's kmem \<Rightarrow> ('s kmem, unit) ores" where
  "decommit_pages dev hart root cpu_mask phys faddr fcount [] k = succeed (tlb_flush hart cpu_mask faddr fcount k) ()"
| "decommit_pages dev hart root cpu_mask phys faddr fcount ((index, addr) # pages) k =
    (case la2pte (km_mem k) root addr ID_OFFSET of
       Inr p \<Rightarrow>
        let dirty = attr_contains (snd (entry_get (read_pte (km_mem k) p) 0)) DIRTY in
        obind (phys_flush dev k phys index (Some dirty))
          (\<lambda>k _. decommit_pages dev hart root cpu_mask phys faddr (fcount + 1) pages (k\<lparr>km_mem := entry_reset (km_mem k) p\<rparr>))
          (\<lambda>k e. failwith (tlb_flush hart cpu_mask faddr fcount k) e)
     | Inl _ \<Rightarrow>
        decommit_pages dev hart root cpu_mask phys (addr + PAGE_SIZE) 0 pages (tlb_flush hart cpu_mask faddr fcount k))"

definition mapping_decommit ::
  "(nat \<Rightarrow> 's io_ops) \<Rightarrow> nat \<Rightarrow> laddr \<Rightarrow> usize \<Rightarrow> mapping \<Rightarrow> laddr \<Rightarrow> usize \<Rightarrow> usize \<Rightarrow> 's kmem \<Rightarrow> ('s kmem, unit) ores" where
  "mapping_decommit dev hart root cpu_mask mp addr offset count k =
    decommit_pages dev hart root cpu_mask (mp_phys mp) addr 0 (mapping_pages mp addr offset count) k"

definition mapping_deep_fork :: "'s kmem \<Rightarrow> mapping \<Rightarrow> ('s kmem \<times> mapping) option" where
  "mapping_deep_fork k mp =
    map_option (\<lambda>(k, x). (k, mp\<lparr>mp_phys := x\<rparr>)) (phys_clone_as k (mp_phys mp) (phys_is_cow k (mp_phys mp)) 0 None)"

text \<open>Mappings that go out of scope, while those of \<open>alive\<close> remain.\<close>

definition release :: "(nat \<Rightarrow> 's io_ops) \<Rightarrow> mapping list \<Rightarrow> mapping \<Rightarrow> 's kmem \<Rightarrow> 's kmem outcome option" where
  "release dev alive mp k =
    (if mp_phys mp \<in> mp_phys ` set alive then Some (Returns k) else phys_drop dev k (mp_phys mp))"

fun release_all :: "(nat \<Rightarrow> 's io_ops) \<Rightarrow> mapping list \<Rightarrow> mapping list \<Rightarrow> 's kmem \<Rightarrow> 's kmem outcome option" where
  "release_all dev alive [] k = Some (Returns k)"
| "release_all dev alive (mp # mps) k =
    Option.bind (release dev (mps @ alive) mp k) (\<lambda>r.
      case r of Panics \<Rightarrow> Some Panics | Returns k \<Rightarrow> release_all dev alive mps k)"

definition and_then :: "'s kmem outcome option \<Rightarrow> ('s kmem \<Rightarrow> ('t, 'a) ores) \<Rightarrow> ('t, 'a) ores" where
  "and_then m f = Option.bind m (\<lambda>r. case r of Panics \<Rightarrow> Some Panics | Returns k \<Rightarrow> f k)"

definition mappings :: "(laddr, mapping) range_map \<Rightarrow> mapping list" where
  "mappings rm = map (\<lambda>e. snd (snd e)) (rm_map rm)"

section \<open>Creating address spaces and mapping objects\<close>

text \<open>A table becomes a frame: the entries are copied to a fresh page; without one the conversion panics.\<close>

definition frame_from_table :: "'s kmem \<Rightarrow> (nat \<Rightarrow> pt_entry) \<Rightarrow> ('s kmem \<times> laddr) outcome" where
  "frame_from_table k table =
    (case frame_new k of
       Panics \<Rightarrow> Panics
     | Returns (k, Inl e) \<Rightarrow> Panics
     | Returns (k, Inr base) \<Rightarrow>
        let root = to_laddr base ID_OFFSET in
        Returns (k\<lparr>km_mem := (km_mem k)(root := (\<lambda>i. if i < NR_ENTRIES then table i else km_mem k root i))\<rparr>, root))"

definition virt_new :: "'s kmem \<Rightarrow> laddr range \<Rightarrow> (nat \<Rightarrow> pt_entry) \<Rightarrow> ('s kmem \<times> virt) outcome" where
  "virt_new k rng init_root =
    bind_out (frame_from_table k init_root) (\<lambda>(k, root).
      Returns (k, \<lparr>vt_root = root, vt_map = rm_new rng, vt_cpu_mask = 0\<rparr>))"

text \<open>\<open>PAGE_LAYOUT.repeat\<close>: the size must not exceed \<open>isize::MAX\<close> when it is rounded up to a page.\<close>

definition page_layout_repeat :: "usize \<Rightarrow> error + layout" where
  "page_layout_repeat count =
    (if unat count * unat PAGE_SIZE \<le> 2 ^ 63 - unat PAGE_SIZE
     then Inr \<lparr>lay_size = count * PAGE_SIZE, lay_align = PAGE_SIZE\<rparr> else Inl (error_of_layout ()))"

definition virt_map ::
  "(nat \<Rightarrow> 's io_ops) \<Rightarrow> ('r \<Rightarrow> u64 \<times> 'r) \<Rightarrow> 'r \<Rightarrow> 's kmem \<Rightarrow> virt \<Rightarrow> laddr option \<Rightarrow> nat \<Rightarrow> usize \<Rightarrow> usize \<Rightarrow> attr
   \<Rightarrow> ('s kmem \<times> virt, laddr) ores" where
  "virt_map dev next_u64 rng k v addr phys start_index count attr =
    (let refuse = (\<lambda>e. and_then (phys_drop dev k phys) (\<lambda>k. failwith (k, v) e));
       mp = \<lparr>mp_phys = phys, mp_start_index = start_index, mp_attr = attr OR VALID\<rparr>
     in case addr of
       Some start \<Rightarrow>
        if start AND PAGE_MASK \<noteq> 0 then refuse EINVAL
        else let len = push_bit PAGE_SHIFT count in
          if len = 0 then refuse EINVAL
          else if 2 ^ 64 \<le> unat start + unat len then refuse EINVAL
          else (case try_insert (vt_map v) (start, start + len) mp of
              Inl _ \<Rightarrow> refuse ENOSPC
            | Inr rm \<Rightarrow> succeed (k, v\<lparr>vt_map := rm\<rparr>) start)
     | None \<Rightarrow>
        (case page_layout_repeat count of
           Inl e \<Rightarrow> refuse e
         | Inr layout \<Rightarrow>
            (case allocate_with_aslr next_u64 (\<lambda>x. x) (\<lambda>x. x) (vt_map v) (aslr_key_new next_u64 ASLR_BIT rng layout) of
               None \<Rightarrow> None
             | Some (Panics, _) \<Rightarrow> Some Panics
             | Some (Returns None, _) \<Rightarrow> refuse ENOSPC
             | Some (Returns (Some ent), _) \<Rightarrow> succeed (k, v\<lparr>vt_map := rm_entry_insert (vt_map v) ent mp\<rparr>) (fst ent))))"

definition virt_find_free ::
  "('r \<Rightarrow> u64 \<times> 'r) \<Rightarrow> 'r \<Rightarrow> virt \<Rightarrow> laddr option \<Rightarrow> usize \<Rightarrow> (error + laddr range) option" where
  "virt_find_free next_u64 rng v start count =
    (case page_layout_repeat count of
       Inl e \<Rightarrow> Some (Inl e)
     | Inr layout \<Rightarrow>
        (case start of
           None \<Rightarrow>
            map_option (\<lambda>(r, _). case r of Some r \<Rightarrow> Inr r | None \<Rightarrow> Inl ENOSPC)
              (find_free_with_aslr next_u64 (\<lambda>x. x) (\<lambda>x. x) (vt_map v) (aslr_key_new next_u64 ASLR_BIT rng layout))
         | Some start \<Rightarrow>
            let rng = (start, start + push_bit PAGE_SHIFT count) in
            Some (if rm_intersects (vt_map v) rng then Inl ENOSPC else Inr rng)))"

section \<open>Committing pages\<close>

text \<open>The part of a mapping inside a range: first address, offset and number of pages.\<close>

definition overlap :: "laddr range \<Rightarrow> laddr range \<Rightarrow> laddr \<times> usize \<times> usize" where
  "overlap rng addr =
    (let start = max (fst rng) (fst addr); fin = min (snd rng) (snd addr) in
     (start, drop_bit PAGE_SHIFT (start - fst addr), drop_bit PAGE_SHIFT (fin - start)))"

fun commit_items ::
  "(nat \<Rightarrow> 's io_ops) \<Rightarrow> nat \<Rightarrow> virt \<Rightarrow> laddr range \<Rightarrow> attr \<Rightarrow> (laddr range \<times> mapping) list \<Rightarrow> 's kmem \<Rightarrow> ('s kmem, unit) ores" where
  "commit_items dev hart v rng expect_attr [] k = succeed k ()"
| "commit_items dev hart v rng expect_attr ((addr, mp) # items) k =
    (let (start, offset, count) = overlap rng addr in
     obind (if count \<noteq> 0 then mapping_commit dev hart (vt_root v) (vt_cpu_mask v) mp start offset count expect_attr k else succeed k ())
       (\<lambda>k _. commit_items dev hart v rng expect_attr items k) failwith)"

fun committed_items :: "mem \<Rightarrow> laddr \<Rightarrow> laddr range \<Rightarrow> attr \<Rightarrow> (laddr range \<times> mapping) list \<Rightarrow> bool \<Rightarrow> error + bool" where
  "committed_items m root rng expect_attr [] acc = Inr acc"
| "committed_items m root rng expect_attr ((addr, mp) # items) acc =
    (let (start, _, count) = overlap rng addr in
     case is_committed m root mp start count expect_attr of
       Inl e \<Rightarrow> Inl e
     | Inr c \<Rightarrow> committed_items m root rng expect_attr items (acc \<and> c))"

definition start_commit :: "attr \<Rightarrow> commit_guard" where
  "start_commit expect_attr = \<lparr>cg_map = True, cg_attr = expect_attr, cg_range = []\<rparr>"

definition guard_push ::
  "(nat \<Rightarrow> 's io_ops) \<Rightarrow> nat \<Rightarrow> virt \<Rightarrow> laddr range \<Rightarrow> commit_guard \<Rightarrow> 's kmem \<Rightarrow> ('s kmem \<times> commit_guard, unit) ores" where
  "guard_push dev hart v rng g k =
    (let aligned = (fst rng AND NOT PAGE_MASK, (snd rng + PAGE_MASK) AND NOT PAGE_MASK);
       pushed = g\<lparr>cg_range := cg_range g @ [(fst rng, snd rng - fst rng)]\<rparr>
     in if \<not> cg_map g then Some Panics
        else case committed_items (km_mem k) (vt_root v) aligned (cg_attr g) (rm_intersection (vt_map v) aligned) True of
          Inl e \<Rightarrow> failwith (k, g\<lparr>cg_map := False\<rparr>) e
        | Inr True \<Rightarrow> succeed (k, pushed) ()
        | Inr False \<Rightarrow>
            obind (commit_items dev hart v aligned (cg_attr g) (rm_intersection (vt_map v) aligned) k)
              (\<lambda>k _. succeed (k, pushed) ()) (\<lambda>k e. failwith (k, g) e))"

definition guard_as_slice :: "commit_guard \<Rightarrow> (laddr \<times> usize) list outcome" where
  "guard_as_slice g = (if attr_contains (cg_attr g) READABLE then Returns (cg_range g) else Panics)"

definition guard_as_mut_slice :: "commit_guard \<Rightarrow> (laddr \<times> usize) list outcome" where
  "guard_as_mut_slice g = (if attr_contains (cg_attr g) WRITABLE then Returns (cg_range g) else Panics)"

definition virt_commit ::
  "(nat \<Rightarrow> 's io_ops) \<Rightarrow> nat \<Rightarrow> 's kmem \<Rightarrow> virt \<Rightarrow> laddr \<Rightarrow> attr \<Rightarrow> ('s kmem, unit) ores" where
  "virt_commit dev hart k v addr expect_attr =
    (let aligned = (addr AND NOT PAGE_MASK, (addr + PAGE_SIZE) AND NOT PAGE_MASK) in
     case rm_intersection (vt_map v) aligned of
       [] \<Rightarrow> failwith k EFAULT
     | item # _ \<Rightarrow> commit_items dev hart v aligned expect_attr [item] k)"

section \<open>Taking pages back\<close>

definition decommit_some ::
  "(nat \<Rightarrow> 's io_ops) \<Rightarrow> nat \<Rightarrow> virt \<Rightarrow> mapping \<Rightarrow> laddr \<Rightarrow> usize \<Rightarrow> usize \<Rightarrow> 's kmem \<Rightarrow> ('s kmem, unit) ores" where
  "decommit_some dev hart v mp addr offset count k =
    (if count \<noteq> 0 then mapping_decommit dev hart (vt_root v) (vt_cpu_mask v) mp addr offset count k else succeed k ())"

fun decommit_items ::
  "(nat \<Rightarrow> 's io_ops) \<Rightarrow> nat \<Rightarrow> virt \<Rightarrow> laddr range \<Rightarrow> (laddr range \<times> mapping) list \<Rightarrow> 's kmem \<Rightarrow> ('s kmem, unit) ores" where
  "decommit_items dev hart v rng [] k = succeed k ()"
| "decommit_items dev hart v rng ((addr, mp) # items) k =
    (let (start, offset, count) = overlap rng addr in
     obind (decommit_some dev hart v mp start offset count k) (\<lambda>k _. decommit_items dev hart v rng items k) failwith)"

definition misaligned :: "laddr range \<Rightarrow> bool" where
  "misaligned rng \<longleftrightarrow> fst rng AND PAGE_MASK \<noteq> 0 \<or> snd rng AND PAGE_MASK \<noteq> 0"

definition virt_decommit_range :: "(nat \<Rightarrow> 's io_ops) \<Rightarrow> nat \<Rightarrow> 's kmem \<Rightarrow> virt \<Rightarrow> laddr range \<Rightarrow> ('s kmem, unit) ores" where
  "virt_decommit_range dev hart k v rng =
    (if misaligned rng then failwith k EINVAL
     else decommit_items dev hart v rng (rm_intersection (vt_map v) rng) k)"

fun reprotect_items ::
  "(nat \<Rightarrow> 's io_ops) \<Rightarrow> nat \<Rightarrow> attr \<Rightarrow> (laddr range \<times> mapping) list \<Rightarrow> 's kmem \<times> virt \<Rightarrow> ('s kmem \<times> virt, unit) ores" where
  "reprotect_items dev hart attr [] kv = succeed kv ()"
| "reprotect_items dev hart attr ((addr, mp) # items) (k, v) =
    obind (decommit_some dev hart v mp (fst addr) 0 (drop_bit PAGE_SHIFT (snd addr - fst addr)) k)
      (\<lambda>k _. reprotect_items dev hart attr items
        (k, v\<lparr>vt_map := rm_get_mut (vt_map v) (fst addr) (\<lambda>mp. mp\<lparr>mp_attr := attr\<rparr>)\<rparr>))
      (\<lambda>k e. failwith (k, v) e)"

text \<open>
  Splitting the mapping around \<open>key\<close>, if any: the pages \<open>decommit\<close> takes back are given by their first
  address, offset and number; then the two halves are written. When taking pages back fails, the mapping is gone.
\<close>

definition split_mapping ::
  "(nat \<Rightarrow> 's io_ops) \<Rightarrow> nat \<Rightarrow> laddr \<Rightarrow> (laddr range \<Rightarrow> laddr \<times> usize \<times> usize) \<Rightarrow>
   (laddr range \<Rightarrow> mapping \<Rightarrow> (laddr, mapping) split_entry \<Rightarrow> (laddr, mapping) split_entry) \<Rightarrow> 's kmem \<times> virt \<Rightarrow> ('s kmem \<times> virt, unit) ores" where
  "split_mapping dev hart key pages halves kv = (let (k, v) = kv in
    case rm_split_entry (vt_map v) key of
      (None, rm) \<Rightarrow> succeed (k, v\<lparr>vt_map := rm\<rparr>) ()
    | (Some (mp, se), rm) \<Rightarrow>
       let (addr, offset, count) = pages (se_key se) in
       obind (decommit_some dev hart v mp addr offset count k)
         (\<lambda>k _. succeed (k, v\<lparr>vt_map := split_entry_drop (halves (se_key se) mp se) rm\<rparr>) ())
         (\<lambda>k e. let rm = split_entry_drop se rm in
            and_then (release dev (mappings rm) mp k) (\<lambda>k. failwith (k, v\<lparr>vt_map := rm\<rparr>) e)))"

definition page_offset :: "laddr \<Rightarrow> laddr \<Rightarrow> usize" where
  "page_offset a b = drop_bit PAGE_SHIFT (a - b)"

definition virt_reprotect ::
  "(nat \<Rightarrow> 's io_ops) \<Rightarrow> nat \<Rightarrow> 's kmem \<Rightarrow> virt \<Rightarrow> laddr range \<Rightarrow> attr \<Rightarrow> ('s kmem \<times> virt, unit) ores" where
  "virt_reprotect dev hart k v rng attr =
    (if misaligned rng then failwith (k, v) EINVAL
     else let attr = attr OR VALID in
       obind (reprotect_items dev hart attr (rm_range_iter (vt_map v) rng) (k, v)) (\<lambda>kv _.
       obind (split_mapping dev hart (fst rng)
           (\<lambda>addr. (fst rng, page_offset (fst rng) (fst addr), page_offset (snd addr) (fst rng)))
           (\<lambda>addr mp se. set_latter (set_former se mp)
             (mp\<lparr>mp_start_index := mp_start_index mp + page_offset (fst rng) (fst addr), mp_attr := attr\<rparr>)) kv) (\<lambda>kv _.
       split_mapping dev hart (snd rng)
         (\<lambda>addr. (snd rng, 0, page_offset (snd rng) (fst addr)))
         (\<lambda>addr mp se. set_latter (set_former se (mp\<lparr>mp_attr := attr\<rparr>))
           (mp\<lparr>mp_start_index := mp_start_index mp + page_offset (snd rng) (fst addr)\<rparr>)) kv) failwith) failwith)"

fun unmap_items ::
  "(nat \<Rightarrow> 's io_ops) \<Rightarrow> nat \<Rightarrow> virt \<Rightarrow> (laddr range \<times> mapping) list \<Rightarrow> 's kmem \<Rightarrow> ('s kmem, unit) ores" where
  "unmap_items dev hart v [] k = succeed k ()"
| "unmap_items dev hart v ((addr, mp) # items) k =
    obind (decommit_some dev hart v mp (fst addr) 0 (page_offset (snd addr) (fst addr)) k)
      (\<lambda>k _. and_then (release dev (map snd items @ mappings (vt_map v)) mp k) (unmap_items dev hart v items))
      (\<lambda>k e. and_then (release_all dev (mappings (vt_map v)) (mp # map snd items) k) (\<lambda>k. failwith k e))"

definition virt_unmap ::
  "(nat \<Rightarrow> 's io_ops) \<Rightarrow> nat \<Rightarrow> 's kmem \<Rightarrow> virt \<Rightarrow> laddr range \<Rightarrow> ('s kmem \<times> virt, unit) ores" where
  "virt_unmap dev hart k v rng =
    (if misaligned rng then failwith (k, v) EINVAL
     else let (items, rm) = rm_drain (vt_map v) rng; v = v\<lparr>vt_map := rm\<rparr> in
       obind (unmap_items dev hart v items k) (\<lambda>k _.
       obind (split_mapping dev hart (fst rng)
           (\<lambda>addr. (fst rng, page_offset (fst rng) (fst addr), page_offset (snd addr) (fst rng)))
           (\<lambda>addr mp se. set_former se mp) (k, v)) (\<lambda>kv _.
       split_mapping dev hart (snd rng)
         (\<lambda>addr. (snd rng, 0, page_offset (snd rng) (fst addr)))
         (\<lambda>addr mp se. set_latter se (mp\<lparr>mp_start_index := mp_start_index mp + page_offset (snd rng) (fst addr)\<rparr>)) kv) failwith)
         (\<lambda>k e. failwith (k, v) e))"

section \<open>The whole address space\<close>

fun flush_indices :: "(nat \<Rightarrow> 's io_ops) \<Rightarrow> nat \<Rightarrow> bool \<Rightarrow> usize list \<Rightarrow> 's kmem \<Rightarrow> 's kmem outcome option" where
  "flush_indices dev phys dirty [] k = Some (Returns k)"
| "flush_indices dev phys dirty (index # indices) k =
    Option.bind (phys_flush dev k phys index (Some dirty)) (\<lambda>r.
      case r of Panics \<Rightarrow> Some Panics | Returns (k, _) \<Rightarrow> flush_indices dev phys dirty indices k)"

fun clear_items :: "(nat \<Rightarrow> 's io_ops) \<Rightarrow> (laddr range \<times> mapping) list \<Rightarrow> 's kmem \<Rightarrow> 's kmem outcome option" where
  "clear_items dev [] k = Some (Returns k)"
| "clear_items dev ((addr, mp) # items) k =
    Option.bind (flush_indices dev (mp_phys mp) (attr_contains (mp_attr mp) DIRTY)
        (map of_nat [0..<unat (page_offset (snd addr) (fst addr))]) k) (\<lambda>r.
      case r of Panics \<Rightarrow> Some Panics
      | Returns k \<Rightarrow> Option.bind (release dev (map snd items) mp k) (\<lambda>r.
          case r of Panics \<Rightarrow> Some Panics | Returns k \<Rightarrow> clear_items dev items k))"

definition unmap_root :: "nat \<Rightarrow> 's kmem \<Rightarrow> virt \<Rightarrow> 's kmem" where
  "unmap_root hart k v =
    (let rng = root_range (vt_map v);
       (a, m) = unmap arena_dealloc (vt_root v) rng ID_OFFSET (km_arena k) (km_mem k)
     in tlb_flush hart (vt_cpu_mask v) (fst rng) (page_offset (snd rng) (fst rng)) (k\<lparr>km_arena := a, km_mem := m\<rparr>))"

definition virt_clear :: "(nat \<Rightarrow> 's io_ops) \<Rightarrow> nat \<Rightarrow> 's kmem \<Rightarrow> virt \<Rightarrow> ('s kmem \<times> virt, unit) ores" where
  "virt_clear dev hart k v =
    and_then (clear_items dev (rm_iter (vt_map v)) (unmap_root hart k v)) (\<lambda>k.
      succeed (k, v\<lparr>vt_map := rm_new (root_range (vt_map v))\<rparr>) ())"

fun fork_items ::
  "(nat \<Rightarrow> 's io_ops) \<Rightarrow> nat \<Rightarrow> virt \<Rightarrow> (laddr range \<times> mapping) list \<Rightarrow> (laddr, mapping) range_map \<Rightarrow> 's kmem
   \<Rightarrow> ('s kmem, (laddr, mapping) range_map) ores" where
  "fork_items dev hart v [] new_map k = succeed k new_map"
| "fork_items dev hart v ((addr, mp) # items) new_map k =
    obind (if attr_contains (mp_attr mp) WRITABLE
        then decommit_some dev hart v mp (fst addr) 0 (page_offset (snd addr) (fst addr)) k else succeed k ())
      (\<lambda>k _. Option.bind (mapping_deep_fork k mp) (\<lambda>(k, new_mapping).
        case try_insert new_map addr new_mapping of
          Inr new_map \<Rightarrow> fork_items dev hart v items new_map k
        | Inl mp \<Rightarrow> and_then (release dev (mappings new_map) mp k) (fork_items dev hart v items new_map)))
      (\<lambda>k e. and_then (release_all dev [] (mappings new_map) k) (\<lambda>k. failwith k e))"

definition virt_deep_fork ::
  "(nat \<Rightarrow> 's io_ops) \<Rightarrow> nat \<Rightarrow> 's kmem \<Rightarrow> virt \<Rightarrow> (nat \<Rightarrow> pt_entry) \<Rightarrow> ('s kmem, virt) ores" where
  "virt_deep_fork dev hart k v init_root =
    obind (fork_items dev hart v (rm_iter (vt_map v)) (rm_new (root_range (vt_map v))) k)
      (\<lambda>k new_map. case frame_from_table k init_root of
          Panics \<Rightarrow> Some Panics
        | Returns (k, root) \<Rightarrow> succeed k \<lparr>vt_root = root, vt_map = new_map, vt_cpu_mask = 0\<rparr>)
      failwith"

definition virt_drop :: "(nat \<Rightarrow> 's io_ops) \<Rightarrow> nat \<Rightarrow> 's kmem \<Rightarrow> virt \<Rightarrow> 's kmem outcome option" where
  "virt_drop dev hart k v =
    release_all dev [] (mappings (vt_map v)) (frame_drop (unmap_root hart k v) (to_paddr (vt_root v) ID_OFFSET))"

end
