(* ===== verification/Spec2Isabelle.thy ===== *)
theory Spec2Isabelle
  imports Prelude BTree RangeMap RangeMap_Spec Aslr Paging Frame PageTable PageTable_Spec PageTable_Map Sig Signals
    Ksc Effects Bytes Umio Fat_Time Fat_Raw Fat_Dirent Fat_Names Fat_Table Fat_Chains Fat_Properties
    Fat_Confined Umifs Fat_Fs Fat_Fs_Spec Fat_Mount Fat_File Fat_File_Spec Fat_File_Properties
    Phys Phys_Tree Phys_Spec Phys_Properties Virt
begin

text \<open>
  A verification development of Umi, a RISC-V operating system kernel written in Rust. Paths below
  are relative to \<^verbatim>\<open>src/mizu/\<close>.

  \<^bold>\<open>The program and its parts.\<close> The kernel is a workspace of small crates. An address space
  (\<^verbatim>\<open>lib/kmem\<close>) keeps its mappings in a map of disjoint ranges (\<^verbatim>\<open>lib/range-map\<close>), which also finds random
  free places for new ones; it is realised by Sv39 page tables (\<^verbatim>\<open>lib/paging\<close>) whose tables and pages
  come from the frame allocator; what is mapped are memory objects that allocate, share and copy their
  pages on demand. Files come from a FAT32 file system (\<^verbatim>\<open>lib/afat32\<close>) over block devices
  with the I/O traits of \<^verbatim>\<open>lib/umio\<close> and the vocabulary of \<^verbatim>\<open>lib/umifs\<close>. Tasks exchange signals
  (\<^verbatim>\<open>lib/sygnal\<close>), and results of system calls travel in registers (\<^verbatim>\<open>lib/ksc-core\<close>).

  \<^bold>\<open>Conventions.\<close> \<open>usize\<close> is a 64-bit word and arithmetic wraps as in a release build, unless the source
  checks it. A \<open>Result\<close> is a sum with the error on the left, an operation that may panic yields an
  \<open>outcome\<close>, and a loop that need not end is a \<open>partial_function\<close> whose divergence is \<open>None\<close>; the theory
  Effects holds the sequencing of such operations. Methods on \<open>&mut self\<close> return the changed record. Code
  that is not part of the repository is a parameter: the allocator behind the page tables, the random
  number generator, the bounded queue of crossbeam, the conversion of num\_enum, the parsers of nom, and the
  devices. What the code relies on is the \<open>assumes\<close> of a locale, each interpreted on a concrete
  implementation in the theory that provides it.

  \<^bold>\<open>Shared theories.\<close> Prelude (machine integers, generic lemmas), Effects, Bytes (little-endian codecs), BTree
  (the part of \<open>BTreeMap\<close> the sources use, with the laws the clients need in the locale \<open>ordered_map\<close>).

  \<^bold>\<open>Ranges and ASLR\<close> (\<^verbatim>\<open>lib/range-map/src/lib.rs\<close>). RangeMap has one definition per method of \<open>RangeMap\<close>,
  \<open>Entry\<close> and \<open>SplitEntry\<close>. RangeMap\_Spec has the invariant (entries non-empty, disjoint, inside the root
  range) and the view of a map as a function from points to values; insertion, removal,
  intersection, draining and splitting are specified on that view. Aslr models the choice of a free place:
  it returns for every sequence of random numbers, yields a free aligned range, and gives up only if
  there is none. No fuel is used: the search is bounded by the number of attempts in the source.

  \<^bold>\<open>Paging\<close> (\<^verbatim>\<open>lib/paging/src\<close>). Paging has addresses, levels, attributes and the encoding of entries; PageTable the
  operations of \<open>Table\<close> over an explicit memory; PageTable\_Spec the tree that the tables form and the view of it as a
  function from virtual pages to entries; PageTable\_Map what mapping and reprotecting do to
  that view, for every allocator under the locale \<open>page_allocator\<close>. Recursion is on the three levels of Sv39.

  \<^bold>\<open>Memory\<close> (\<^verbatim>\<open>lib/kmem/src\<close>). Frame is the page allocator, whose free list runs through the free pages; it
  provides the contract \<open>page_allocator\<close>. Phys has the memory objects of \<^verbatim>\<open>phys.rs\<close>: a store of objects
  with parents, \<open>commit\<close> with copy-on-write, cloning, merging with a parent that has no other child, resizing,
  write-back, and reading and writing at offsets. Phys\_Tree has the tree that clones form
  and the changes that keep it sound; Phys\_Spec relates the store to it, with the invariant on frames and the allocator, and proves
  by induction on the depth of an object that \<open>commit\<close> returns, shows the right page and disturbs no other object, over
  any backends under the locale \<open>backends\<close>; Phys\_Properties states this with cloning, and two ways in
  which pages get lost. The theorems on sharing are about trees of whole clones; clones of a part of an object appear in the model and in the negative results.

  \<^bold>\<open>Address spaces\<close> (\<^verbatim>\<open>lib/kmem/src/virt.rs\<close>, \<^verbatim>\<open>lib/kmem/src/virt/tlb.rs\<close>). Virt joins the parts above: an address space is a range
  map of mappings and the root of a page table, the objects behind it are those of Phys. It has one
  definition per method of \<open>Virt\<close>, \<open>Mapping\<close> and \<open>VirtCommitGuard\<close>, with the fences for the translation
  caches recorded in order, and the loading of address spaces on harts.

  \<^bold>\<open>Signals\<close> (\<^verbatim>\<open>lib/sygnal/src\<close>). Sig has signal numbers, sets and their iterator; Signals the pending queues, with
  \<open>push\<close> and \<open>pop\<close> as sequences of their atomic actions, so that the interleaving of the two can be
  stated, and the table of actions.

  \<^bold>\<open>System-call results\<close> (\<^verbatim>\<open>lib/ksc-core/src\<close>). Ksc has the error numbers and the encoding of values and results in
  a register, with the contract \<open>lawful_reg\<close> for encodings.

  \<^bold>\<open>Devices\<close> (\<^verbatim>\<open>lib/umio/src\<close>). Umio has the \<open>Io\<close> trait as a record of operations, its provided methods and
  the loops that transfer whole buffers; the locale \<open>io_device\<close> is the contract of a device with a bound on
  fruitless attempts, \<open>block_device\<close> what the file system derives from it, and the interpretation is a memory disk.

  \<^bold>\<open>FAT32\<close> (\<^verbatim>\<open>lib/afat32/src\<close>). Fat\_Time (time stamps), Fat\_Raw (boot sector and FSInfo sector), Fat\_Dirent
  (directory entries, their editor and comparison of names), Fat\_Names (long and short names), Fat\_Table (the
  allocation table), Fat\_Fs (the mounted volume) and Fat\_File (open files) follow the files of the crate; Umifs has
  the flags and metadata of \<^verbatim>\<open>lib/umifs/src\<close>. Fat\_Chains views the table as a function from clusters to
  links; Fat\_Properties states allocation, freeing and traversal of chains on it and Fat\_Confined that nothing outside
  the table is written. Fat\_Fs\_Spec and Fat\_Mount have the geometry of a volume, allocation
  with its hints, mounting and flushing; Fat\_File\_Spec and Fat\_File\_Properties that reading refines the list of
  bytes of the file. Loops over the table are partial functions; that they return is proved on
  tables without a cycle, and that they do not on a cycle.

  \<^bold>\<open>Not modelled.\<close> Concurrency is modelled where an interleaving is the subject (signals); elsewhere locks make an operation one step.
  Left out are: operations on directories (\<^verbatim>\<open>afat32/src/dir.rs\<close> apart from names), which are async
  traversals of the directory file; the crates that are copies of or glue around third-party code (\<^verbatim>\<open>kmem/src/lru.rs\<close>,
  \<^verbatim>\<open>umifs/src/path.rs\<close>, the network stack over smoltcp, the executor over async\_task, the locks over
  event\_listener); assembly and memory-mapped hardware (boot, traps, drivers); procedural macros; and the system calls of
  \<^verbatim>\<open>kernel/src\<close>, which join the parts above over user memory.
\<close>

end
